(* ===== verification/MK_Prelude.thy ===== *)
theory MK_Prelude
  imports Main "HOL-Library.Word" "HOL-Library.Monad_Syntax"
begin

text \<open>
  Shared vocabulary of the development: the machine types of the C sources
  (\<^verbatim>\<open>include/types.h\<close>), the shape of pointer chains in the kernel's process table, and the
  generic lemmas on options, chains and words that the component theories use.

  A computation that the C program may not finish in a defined way (a null or wild pointer
  is followed, an array is indexed out of range, a divisor is zero, or a loop never ends) is an
  option: the value \<open>None\<close> stands for all of these.  A theorem that a result is
  \<open>Some\<close> therefore shows that none of them happens.
\<close>

unbundle bit_operations_syntax

section \<open>Machine types\<close>

type_synonym u8 = "8 word"
type_synonym u16 = "16 word"
type_synonym u32 = "32 word"
type_synonym ptr = "32 word"
type_synonym memory = "32 word \<Rightarrow> 8 word"

abbreviation (input) NULL :: ptr where "NULL \<equiv> 0"

named_theorems chain_simps \<open>rules for doubly and singly linked chains\<close>
named_theorems kernel_defs \<open>definitions of small kernel accessors, unfolded together\<close>

section \<open>Options\<close>

lemma bind_Some_iff [simp]:
  "(Option.bind m f = Some y) \<longleftrightarrow> (\<exists>x. m = Some x \<and> f x = Some y)"
  by (cases m) auto

lemma in_dom_conv: "p \<in> dom m \<longleftrightarrow> (\<exists>t. m p = Some t)"
  by auto

section \<open>Lists\<close>

lemma last_notin: "xs \<noteq> [] \<Longrightarrow> set xs \<inter> set ys = {} \<Longrightarrow> last xs \<notin> set ys"
  using last_in_set [of xs] by blast

lemma hd_notin: "xs \<noteq> [] \<Longrightarrow> set xs \<inter> set ys = {} \<Longrightarrow> hd xs \<notin> set ys"
  using hd_in_set [of xs] by blast

lemma last_neq: "xs \<noteq> [] \<Longrightarrow> x \<notin> set xs \<Longrightarrow> last xs \<noteq> x"
  using last_in_set [of xs] by blast

lemma hd_neq: "xs \<noteq> [] \<Longrightarrow> x \<notin> set xs \<Longrightarrow> hd xs \<noteq> x"
  using hd_in_set [of xs] by blast

section \<open>Doubly linked chains\<close>

text \<open>
  \<open>dlseg pv nx a p xs b\<close>: starting at \<open>p\<close> and following \<open>nx\<close> one visits exactly the
  addresses \<open>xs\<close> and arrives at \<open>b\<close>; the \<open>pv\<close> field of the first one is \<open>a\<close>, that of any
  other its predecessor.
\<close>

primrec dlseg :: "(ptr \<Rightarrow> ptr) \<Rightarrow> (ptr \<Rightarrow> ptr) \<Rightarrow> ptr \<Rightarrow> ptr \<Rightarrow> ptr list \<Rightarrow> ptr \<Rightarrow> bool" where
  "dlseg pv nx a p [] b = (p = b)"
| "dlseg pv nx a p (x # xs) b = (p = x \<and> x \<noteq> NULL \<and> pv x = a \<and> dlseg pv nx x (nx x) xs b)"

lemma dlseg_append [chain_simps]:
  "dlseg pv nx a p (xs @ ys) b \<longleftrightarrow>
     (\<exists>m. dlseg pv nx a p xs m \<and> dlseg pv nx (last (a # xs)) m ys b)"
  by (induction xs arbitrary: a p) auto

lemma dlseg_cong:
  "\<lbrakk>\<And>x. x \<in> set xs \<Longrightarrow> pv' x = pv x; \<And>x. x \<in> set xs \<Longrightarrow> nx' x = nx x\<rbrakk> \<Longrightarrow>
     dlseg pv' nx' a p xs b = dlseg pv nx a p xs b"
  by (induction xs arbitrary: a p) auto

lemma dlseg_eq:
  assumes "dlseg pv nx a p xs b"
    and "\<And>x. x \<in> set xs \<Longrightarrow> pv' x = pv x" and "\<And>x. x \<in> set xs \<Longrightarrow> nx' x = nx x"
  shows "dlseg pv' nx' a p xs b"
  using assms(1) dlseg_cong [of xs pv' pv nx' nx a p b, OF assms(2,3)] by simp

lemma dlseg_start: "dlseg pv nx a p xs b \<Longrightarrow> p = hd (xs @ [b])"
  by (cases xs) auto

lemma dlseg_nonnull: "dlseg pv nx a p xs b \<Longrightarrow> NULL \<notin> set xs"
  by (induction xs arbitrary: a p) auto

lemma dlseg_nx_split:
  "dlseg pv nx a p (xs @ x # ys) b \<Longrightarrow>
     nx x = hd (ys @ [b]) \<and> pv x = last (a # xs) \<and> x \<noteq> NULL"
  by (auto simp: dlseg_append dest: dlseg_start)

lemma dlseg_last_upd:
  assumes "dlseg pv nx a p xs m" and "xs \<noteq> []" and "distinct xs"
  shows "dlseg pv (nx(last xs := b)) a p xs b"
  using assms
proof (induction xs arbitrary: a p)
  case Nil
  then show ?case by simp
next
  case (Cons x xs)
  show ?case
  proof (cases "xs = []")
    case True
    with Cons.prems show ?thesis by simp
  next
    case False
    with Cons.prems have "x \<noteq> last xs" by auto
    with False Cons show ?thesis by simp
  qed
qed

lemma dlseg_first_upd:
  assumes "dlseg pv nx a p xs m" and "xs \<noteq> []" and "distinct xs"
  shows "dlseg (pv(hd xs := c)) nx c p xs m"
proof (cases xs)
  case Nil
  with assms show ?thesis by simp
next
  case (Cons x ys)
  with assms have "dlseg pv nx x (nx x) ys m" and "x \<notin> set ys" by simp_all
  then have "dlseg (pv(x := c)) nx x (nx x) ys m"
    by (elim dlseg_eq) auto
  with Cons assms show ?thesis by simp
qed

text \<open>Splicing one node in between two neighbours, and taking one out.\<close>

definition splice_nx :: "ptr \<Rightarrow> ptr list \<Rightarrow> ptr list \<Rightarrow> (ptr \<Rightarrow> ptr) \<Rightarrow> ptr \<Rightarrow> ptr" where
  "splice_nx x xs ys nx = (let g = nx(x := hd (ys @ [NULL])) in
     if xs = [] then g else g(last xs := x))"

definition splice_pv :: "ptr \<Rightarrow> ptr list \<Rightarrow> ptr list \<Rightarrow> (ptr \<Rightarrow> ptr) \<Rightarrow> ptr \<Rightarrow> ptr" where
  "splice_pv x xs ys pv = (let g = pv(x := last (NULL # xs)) in
     if ys = [] then g else g(hd ys := x))"

lemma splice_nx_before:
  "z \<in> set xs \<Longrightarrow> x \<notin> set xs \<Longrightarrow> splice_nx x xs ys nx z = (nx(last xs := x)) z"
  by (auto simp: splice_nx_def Let_def)

lemma splice_nx_after:
  assumes "z \<in> set ys" and "x \<notin> set ys" and "set xs \<inter> set ys = {}"
  shows "splice_nx x xs ys nx z = nx z"
proof -
  have "z \<noteq> x" using assms by blast
  moreover have "xs \<noteq> [] \<Longrightarrow> z \<noteq> last xs" using assms last_notin [of xs ys] by blast
  ultimately show ?thesis by (simp add: splice_nx_def Let_def)
qed

lemma splice_pv_before:
  assumes "z \<in> set xs" and "x \<notin> set xs" and "set xs \<inter> set ys = {}"
  shows "splice_pv x xs ys pv z = pv z"
proof -
  have "z \<noteq> x" using assms by blast
  moreover have "ys \<noteq> [] \<Longrightarrow> z \<noteq> hd ys" using assms hd_notin [of ys xs] by blast
  ultimately show ?thesis by (simp add: splice_pv_def Let_def)
qed

lemma splice_pv_after:
  "z \<in> set ys \<Longrightarrow> x \<notin> set ys \<Longrightarrow> splice_pv x xs ys pv z = (pv(hd ys := x)) z"
  by (auto simp: splice_pv_def Let_def)

lemma splice_at:
  "x \<notin> set xs \<Longrightarrow> splice_nx x xs ys nx x = hd (ys @ [NULL])"
  "x \<notin> set ys \<Longrightarrow> splice_pv x xs ys pv x = last (NULL # xs)"
  using last_neq [of xs x] hd_neq [of ys x]
  by (auto simp: splice_nx_def splice_pv_def Let_def)

lemma dlseg_splice:
  assumes seg: "dlseg pv nx NULL p (xs @ ys) NULL"
    and dist: "distinct (xs @ x # ys)" and nn: "x \<noteq> NULL"
  shows "dlseg (splice_pv x xs ys pv) (splice_nx x xs ys nx) NULL
           (if xs = [] then x else p) (xs @ x # ys) NULL"
proof -
  let ?pv = "splice_pv x xs ys pv" and ?nx = "splice_nx x xs ys nx"
  let ?h = "hd (ys @ [NULL])"
  have disj: "x \<notin> set xs" "x \<notin> set ys" "set xs \<inter> set ys = {}"
    using dist by auto
  obtain m where l: "dlseg pv nx NULL p xs m" and r: "dlseg pv nx (last (NULL # xs)) m ys NULL"
    using seg by (auto simp: dlseg_append)
  have m: "m = ?h" using r by (rule dlseg_start)
  have left: "dlseg ?pv ?nx NULL (if xs = [] then x else p) xs x"
  proof (cases "xs = []")
    case False
    have "dlseg pv (nx(last xs := x)) NULL p xs x"
      using dlseg_last_upd [OF l False] dist by simp
    then have "dlseg ?pv ?nx NULL p xs x"
      by (rule dlseg_eq) (use disj in \<open>auto simp: splice_pv_before splice_nx_before\<close>)
    with False show ?thesis by simp
  qed simp
  have right: "dlseg ?pv ?nx x ?h ys NULL"
  proof (cases "ys = []")
    case False
    have "dlseg (pv(hd ys := x)) nx x m ys NULL"
      using dlseg_first_upd [OF r False] dist by simp
    then have "dlseg ?pv ?nx x m ys NULL"
      by (rule dlseg_eq) (use disj in \<open>auto simp: splice_pv_after splice_nx_after\<close>)
    with m show ?thesis by simp
  qed simp
  from left right nn show ?thesis
    unfolding dlseg_append by (auto simp: splice_at disj)
qed

definition unlink_nx :: "ptr \<Rightarrow> ptr list \<Rightarrow> ptr list \<Rightarrow> (ptr \<Rightarrow> ptr) \<Rightarrow> ptr \<Rightarrow> ptr" where
  "unlink_nx x xs ys nx = (if xs = [] then nx else nx(last xs := hd (ys @ [NULL])))"

definition unlink_pv :: "ptr \<Rightarrow> ptr list \<Rightarrow> ptr list \<Rightarrow> (ptr \<Rightarrow> ptr) \<Rightarrow> ptr \<Rightarrow> ptr" where
  "unlink_pv x xs ys pv = (if ys = [] then pv else pv(hd ys := last (NULL # xs)))"

lemma dlseg_unlink:
  assumes seg: "dlseg pv nx NULL p (xs @ x # ys) NULL" and dist: "distinct (xs @ x # ys)"
  shows "dlseg (unlink_pv x xs ys pv) (unlink_nx x xs ys nx) NULL
           (if xs = [] then hd (ys @ [NULL]) else p) (xs @ ys) NULL"
proof -
  let ?pv = "unlink_pv x xs ys pv" and ?nx = "unlink_nx x xs ys nx"
  let ?m = "hd (ys @ [NULL])"
  have disj: "set xs \<inter> set ys = {}" "set ys \<inter> set xs = {}" using dist by auto
  have l: "dlseg pv nx NULL p xs x" and r0: "dlseg pv nx x (nx x) ys NULL"
    using seg by (auto simp: dlseg_append)
  have r: "dlseg pv nx x ?m ys NULL"
    using r0 dlseg_start [OF r0] by simp
  have left: "dlseg ?pv ?nx NULL (if xs = [] then ?m else p) xs ?m"
  proof (cases "xs = []")
    case False
    have upd: "dlseg pv (nx(last xs := ?m)) NULL p xs ?m"
      using dlseg_last_upd [OF l False] dist by simp
    have "?pv z = pv z" if "z \<in> set xs" for z
      using hd_notin [of ys xs] disj that by (auto simp: unlink_pv_def)
    moreover have "?nx z = (nx(last xs := ?m)) z" for z
      using False by (simp add: unlink_nx_def)
    ultimately have "dlseg ?pv ?nx NULL p xs ?m"
      by (intro dlseg_eq [OF upd]) simp_all
    with False show ?thesis by simp
  qed simp
  have right: "dlseg ?pv ?nx (last (NULL # xs)) ?m ys NULL"
  proof (cases "ys = []")
    case False
    have upd: "dlseg (pv(hd ys := last (NULL # xs))) nx (last (NULL # xs)) ?m ys NULL"
      using dlseg_first_upd [OF r False] dist by simp
    have "?nx z = nx z" if "z \<in> set ys" for z
      using last_notin [of xs ys] disj that by (auto simp: unlink_nx_def)
    moreover have "?pv z = (pv(hd ys := last (NULL # xs))) z" for z
      using False by (simp add: unlink_pv_def)
    ultimately show ?thesis
      by (intro dlseg_eq [OF upd]) simp_all
  qed simp
  show ?thesis using left right by (auto simp: dlseg_append)
qed

section \<open>Singly linked chains\<close>

primrec slseg :: "(ptr \<Rightarrow> ptr) \<Rightarrow> ptr \<Rightarrow> ptr list \<Rightarrow> ptr \<Rightarrow> bool" where
  "slseg nx p [] b = (p = b)"
| "slseg nx p (x # xs) b = (p = x \<and> x \<noteq> NULL \<and> slseg nx (nx x) xs b)"

lemma slseg_append [chain_simps]:
  "slseg nx p (xs @ ys) b \<longleftrightarrow> (\<exists>m. slseg nx p xs m \<and> slseg nx m ys b)"
  by (induction xs arbitrary: p) auto

lemma slseg_cong:
  "(\<And>x. x \<in> set xs \<Longrightarrow> nx' x = nx x) \<Longrightarrow> slseg nx' p xs b = slseg nx p xs b"
  by (induction xs arbitrary: p) auto

lemma slseg_eq:
  assumes "slseg nx p xs b" and "\<And>x. x \<in> set xs \<Longrightarrow> nx' x = nx x"
  shows "slseg nx' p xs b"
  using assms(1) slseg_cong [of xs nx' nx p b, OF assms(2)] by simp

lemma slseg_nonnull: "slseg nx p xs b \<Longrightarrow> NULL \<notin> set xs"
  by (induction xs arbitrary: p) auto

lemma slseg_start: "slseg nx p xs b \<Longrightarrow> p = hd (xs @ [b])"
  by (cases xs) auto

lemma slseg_last_upd:
  assumes "slseg nx p xs m" and "xs \<noteq> []" and "distinct xs"
  shows "slseg (nx(last xs := b)) p xs b"
  using assms
proof (induction xs arbitrary: p)
  case Nil
  then show ?case by simp
next
  case (Cons x xs)
  show ?case
  proof (cases "xs = []")
    case True
    with Cons.prems show ?thesis by simp
  next
    case False
    with Cons.prems have "x \<noteq> last xs" by auto
    with False Cons show ?thesis by simp
  qed
qed

lemma slseg_unique: "slseg nx p xs NULL \<Longrightarrow> slseg nx p ys NULL \<Longrightarrow> xs = ys"
proof (induction xs arbitrary: p ys)
  case Nil
  then show ?case by (cases ys) auto
next
  case (Cons x xs)
  then show ?case by (cases ys) auto
qed

lemma slseg_distinct: "slseg nx p xs NULL \<Longrightarrow> distinct xs"
proof (induction xs arbitrary: p)
  case Nil
  then show ?case by simp
next
  case (Cons x xs)
  then have tl: "slseg nx (nx x) xs NULL" by simp
  have "x \<notin> set xs"
  proof
    assume "x \<in> set xs"
    then obtain us vs where xs: "xs = us @ x # vs" by (meson split_list)
    with tl have "slseg nx (nx x) vs NULL" by (auto simp: slseg_append)
    with tl have "xs = vs" by (rule slseg_unique)
    with xs show False by simp
  qed
  with Cons.IH [OF tl] show ?case by simp
qed

text \<open>Appending one node at the end, taking one node out.\<close>

lemma slseg_snoc:
  assumes "slseg nx p xs NULL" and "x \<notin> set xs" and "x \<noteq> NULL"
  shows "slseg ((if xs = [] then nx else nx(last xs := x))(x := NULL))
           (if xs = [] then x else p) (xs @ [x]) NULL"
proof (cases "xs = []")
  case True
  with assms show ?thesis by simp
next
  case False
  have "slseg (nx(last xs := x)) p xs x"
    by (rule slseg_last_upd [OF assms(1) False slseg_distinct [OF assms(1)]])
  then have "slseg ((nx(last xs := x))(x := NULL)) p xs x"
    by (rule slseg_eq) (use assms(2) in auto)
  with False assms show ?thesis by (auto simp: slseg_append)
qed

lemma slseg_remove:
  assumes "slseg nx p (xs @ x # ys) NULL"
  shows "slseg ((if xs = [] then nx else nx(last xs := nx x))(x := NULL))
           (if xs = [] then nx x else p) (xs @ ys) NULL"
proof -
  have dist: "distinct (xs @ x # ys)" using assms by (rule slseg_distinct)
  have l: "slseg nx p xs x" and r: "slseg nx (nx x) ys NULL"
    using assms by (auto simp: slseg_append)
  show ?thesis
  proof (cases "xs = []")
    case True
    have "slseg (nx(x := NULL)) (nx x) ys NULL"
      by (rule slseg_eq [OF r]) (use dist in auto)
    with True show ?thesis by simp
  next
    case False
    let ?f = "(nx(last xs := nx x))(x := NULL)"
    have "slseg (nx(last xs := nx x)) p xs (nx x)"
      using slseg_last_upd [OF l False] dist by simp
    then have "slseg ?f p xs (nx x)"
      by (rule slseg_eq) (use dist in auto)
    moreover have "last xs \<notin> set ys" using False dist by (intro last_notin) auto
    then have "slseg ?f (nx x) ys NULL"
      by (intro slseg_eq [OF r]) (use dist in auto)
    ultimately show ?thesis using False by (auto simp: slseg_append)
  qed
qed

section \<open>Words\<close>

lemma mask_bit:
  "(m OR b) AND b = (b :: 'a::len word)" "(m AND NOT b) AND b = (0 :: 'a::len word)"
  by (rule bit_eqI; auto simp: bit_simps)+

lemma word_sum_list_unat:
  "sum_list (map (\<lambda>x. unat (f x :: u32)) xs) < 2 ^ 32 \<Longrightarrow>
     unat (sum_list (map f xs)) = sum_list (map (\<lambda>x. unat (f x)) xs)"
  by (induction xs) (auto simp: unat_word_ariths)

section \<open>Small numbers\<close>

lemma below_8: "n < 8 \<Longrightarrow> n \<in> ({0, 1, 2, 3, 4, 5, 6, 7} :: nat set)"
  unfolding insert_iff empty_iff by presburger

lemma below_11: "n < 11 \<Longrightarrow> n \<in> ({0, 1, 2, 3, 4, 5, 6, 7, 8, 9, 10} :: nat set)"
  unfolding insert_iff empty_iff by presburger

lemma below_16: "n < 16 \<Longrightarrow> n \<in> ({0, 1, 2, 3, 4, 5, 6, 7, 8, 9, 10, 11, 12, 13, 14, 15} :: nat set)"
  unfolding insert_iff empty_iff by presburger

lemmas below_cases = insertE emptyE

end
