(* ===== verification/MK_State.thy ===== *)
theory MK_State
  imports MK_Prelude
begin

text \<open>
  The kernel's data (\<^verbatim>\<open>kernel/types.h\<close>, \<^verbatim>\<open>kernel/external.h\<close>, the static tables of
  \<^verbatim>\<open>kernel/utilities_C.c\<close>) as records, and the primitive accesses every component uses.

  The task-state segments are the objects the kernel's pointers refer to; they form a typed
  store \<open>tsss\<close> from addresses to records, undefined at every address that is not a
  task-state segment (in particular at \<open>NULL\<close>).  Everything else the kernel touches through
  raw addresses (process memory, the descriptor table, the allocation bitmaps) is the byte
  memory \<open>mem\<close>.  Input from devices is a parameter of the operations that read a port.
\<close>

section \<open>Constants\<close>

definition EMPTY :: u8 where "EMPTY = 1"
definition RECEIVING :: u8 where "RECEIVING = 2"
definition SENDING :: u8 where "SENDING = 4"
definition ENQUEUED :: u8 where "ENQUEUED = 1"
abbreviation (input) ANYPROC :: ptr where "ANYPROC \<equiv> NULL"

lemmas flag_defs = EMPTY_def RECEIVING_def SENDING_def ENQUEUED_def

text \<open>Result codes of \<^verbatim>\<open>include/const.h\<close>, as they are stored in a 32-bit register.\<close>

definition OK :: u32 where "OK = 0"
definition UNKNOWNSYSCALL :: u32 where "UNKNOWNSYSCALL = - 1"
definition INVALIDBUFFER :: u32 where "INVALIDBUFFER = - 2"
definition CIRCULARSEND :: u32 where "CIRCULARSEND = - 3"
definition WOULDBLOCK :: u32 where "WOULDBLOCK = - 4"
definition INVALIDFEATURE :: u32 where "INVALIDFEATURE = - 5"
definition INVALIDIRQ :: u32 where "INVALIDIRQ = - 6"
definition IRQINUSE :: u32 where "IRQINUSE = - 7"
definition PROCESSDIED :: u32 where "PROCESSDIED = - 8"
definition NOPERMS :: u32 where "NOPERMS = - 9"
definition UNAVAILABLE :: u32 where "UNAVAILABLE = - 10"
definition FEATUREBUSY :: u32 where "FEATUREBUSY = - 11"
definition BEYONDENDOFDEVICE :: u32 where "BEYONDENDOFDEVICE = - 12"
definition NOTATA :: u32 where "NOTATA = - 13"
definition INVALIDADDRESS :: u32 where "INVALIDADDRESS = - 14"

lemmas err_defs = OK_def UNKNOWNSYSCALL_def INVALIDBUFFER_def CIRCULARSEND_def WOULDBLOCK_def
  INVALIDFEATURE_def INVALIDIRQ_def IRQINUSE_def PROCESSDIED_def NOPERMS_def UNAVAILABLE_def
  FEATUREBUSY_def BEYONDENDOFDEVICE_def NOTATA_def INVALIDADDRESS_def

abbreviation (input) MAX_IRQ :: nat where "MAX_IRQ \<equiv> 15"
abbreviation (input) GDT_BASE :: u32 where "GDT_BASE \<equiv> 0x10700"
abbreviation (input) KERNEL_BASE :: u32 where "KERNEL_BASE \<equiv> 0x14800"
abbreviation (input) NO_BASE :: u32 where "NO_BASE \<equiv> 0xffffffff"
abbreviation (input) NO_AVL_DSCRPTS :: u32 where "NO_AVL_DSCRPTS \<equiv> 8192"
abbreviation (input) INVALID_GDT_IDX :: u32 where "INVALID_GDT_IDX \<equiv> 65536"
abbreviation (input) MAX_NO_PROCS :: nat where "MAX_NO_PROCS \<equiv> 100"
abbreviation (input) SIZEOF_TSS :: u32 where "SIZEOF_TSS \<equiv> 148"

section \<open>Task-state segments\<close>

record tss =
  backlink :: u16
  interrupts :: u16
  esp0 :: u32
  ss0 :: u16
  zeroes2 :: u16
  schedticks :: u32
  tss_state :: u8
  misc :: u8
  zeroes3 :: u16
  ticksleft :: u32
  pid :: u16
  zeroes4 :: u16
  cr3_reg :: u32
  eip_reg :: u32
  eflag_reg :: u32
  eax_reg :: u32
  ecx_reg :: u32
  edx_reg :: u32
  ebx_reg :: u32
  esp_reg :: u32
  ebp_reg :: u32
  esi_reg :: u32
  edi_reg :: u32
  es_reg :: u16
  zeroes5 :: u16
  cs_reg :: u16
  zeroes6 :: u16
  ss_reg :: u16
  zeroes7 :: u16
  ds_reg :: u16
  zeroes8 :: u16
  fs_reg :: u16
  zeroes9 :: u16
  gs_reg :: u16
  zeroes10 :: u16
  ldt_sel :: u16
  zeroes11 :: u16
  debug :: u8
  zeroes12 :: u8
  iomap_base :: u16
  tss_next :: ptr
  idx_tss :: u16
  callMask :: u32
  tss_previous :: ptr
  firstSender :: ptr
  nextSender :: ptr
  receivingFrom :: ptr
  procname :: "u8 list"

definition enqueued :: "tss \<Rightarrow> bool" where
  "enqueued t \<longleftrightarrow> misc t AND ENQUEUED \<noteq> 0"

section \<open>The kernel's global state\<close>

record schedqueue_t =
  sq_head :: ptr
  sq_ticksleft :: u32
  sq_schedticks :: u32

record feature_t =
  supplier :: ptr
  waiter :: ptr

text \<open>Port traffic and console output are logs of what the kernel issued, oldest first.\<close>

datatype io_event =
    InB u32 u32 | InW u32 u32 | OutB u32 u32 | OutW u32 u32

datatype kout = KString string | KBytes "u8 list" | KChar u8 | KHex u32 | KUnsint u32

text \<open>
  The value a device presents on a port, given the port traffic so far.  The devices are not
  part of the program: every operation that reads a port takes them as an argument.
\<close>

type_synonym device = "io_event list \<Rightarrow> u32 \<Rightarrow> u16"

record kstate =
  tsss :: "ptr \<rightharpoonup> tss"
  schedqueue :: schedqueue_t
  curptr :: ptr
  nextptr :: ptr
  featureTable :: "feature_t list"
  irqs :: "ptr list"
  port_accessers :: "u32 \<Rightarrow> ptr"
  mem :: memory
  gdt_limit :: u16
  hours :: u32
  minutes :: u8
  seconds :: u8
  in_kernel :: u32
  flag :: u32
  io_trace :: "io_event list"
  console :: "kout list"
  \<comment> \<open>addresses fixed when the kernel image is linked\<close>
  idlestate :: ptr
  intrrptstate :: "ptr list"
  pproctab :: "ptr list"
  pproctab_end :: ptr
  gdtBitmap :: ptr
  pidBitmap :: ptr

section \<open>Access to a task-state segment through a pointer\<close>

definition tss_upd :: "ptr \<Rightarrow> (tss \<Rightarrow> tss) \<Rightarrow> kstate \<Rightarrow> kstate option" where
  "tss_upd p f s =
     (case tsss s p of None \<Rightarrow> None | Some t \<Rightarrow> Some (s\<lparr>tsss := (tsss s)(p \<mapsto> f t)\<rparr>))"

definition set_err :: "ptr \<Rightarrow> u32 \<Rightarrow> kstate \<Rightarrow> kstate option" where
  "set_err p err = tss_upd p (\<lambda>t. t\<lparr>esi_reg := err\<rparr>)"

definition set_head :: "ptr \<Rightarrow> kstate \<Rightarrow> kstate" where
  "set_head p s = s\<lparr>schedqueue := (schedqueue s)\<lparr>sq_head := p\<rparr>\<rparr>"

text \<open>The field \<open>f\<close> of the task-state segment at \<open>p\<close>, for statements about the store.\<close>

definition fld :: "(tss \<Rightarrow> 'a) \<Rightarrow> kstate \<Rightarrow> ptr \<Rightarrow> 'a" where
  "fld f s p = f (the (tsss s p))"

lemma tss_upd_Some: "tsss s p = Some t \<Longrightarrow> tss_upd p f s = Some (s\<lparr>tsss := (tsss s)(p \<mapsto> f t)\<rparr>)"
  by (simp add: tss_upd_def)

lemma tss_upd_iff:
  "tss_upd p f s = Some s' \<longleftrightarrow>
     (\<exists>t. tsss s p = Some t \<and> s' = s\<lparr>tsss := (tsss s)(p \<mapsto> f t)\<rparr>)"
  by (auto simp: tss_upd_def split: option.splits)

lemma fld_upd [simp]: "fld f (s\<lparr>tsss := (tsss s)(p \<mapsto> t)\<rparr>) = (fld f s)(p := f t)"
  by (auto simp: fld_def)

lemma fld_Some: "tsss s p = Some t \<Longrightarrow> fld f s p = f t"
  by (simp add: fld_def)

lemma enqueued_set [simp]:
  "enqueued (t\<lparr>misc := m OR ENQUEUED\<rparr>)" "\<not> enqueued (t\<lparr>misc := m AND NOT ENQUEUED\<rparr>)"
  by (simp_all add: enqueued_def mask_bit) (simp add: ENQUEUED_def)

lemma enqueued_other [simp]:
  "enqueued (t\<lparr>tss_next := a\<rparr>) = enqueued t" "enqueued (t\<lparr>tss_previous := a\<rparr>) = enqueued t"
  "enqueued (t\<lparr>ticksleft := b\<rparr>) = enqueued t" "enqueued (t\<lparr>tss_state := c\<rparr>) = enqueued t"
  "enqueued (t\<lparr>nextSender := a\<rparr>) = enqueued t" "enqueued (t\<lparr>firstSender := a\<rparr>) = enqueued t"
  "enqueued (t\<lparr>receivingFrom := a\<rparr>) = enqueued t" "enqueued (t\<lparr>esi_reg := b\<rparr>) = enqueued t"
  "enqueued (t\<lparr>eax_reg := b\<rparr>) = enqueued t" "enqueued (t\<lparr>ebx_reg := b\<rparr>) = enqueued t"
  "enqueued (t\<lparr>interrupts := d\<rparr>) = enqueued t" "enqueued (t\<lparr>backlink := d\<rparr>) = enqueued t"
  by (simp_all add: enqueued_def)

end
