(* ===== verification/MK_Sched.thy ===== *)
theory MK_Sched
  imports MK_State
begin

text \<open>
  The scheduler of \<^verbatim>\<open>kernel/utilities_C.c\<close>: the run queue \<open>schedqueue\<close> (a doubly linked list
  through the task-state segments, ordered by falling \<open>schedticks\<close>), its operations \<open>enqueue\<close>
  and \<open>dequeue\<close>, the accounting of clock ticks, and the choice of the next process.
\<close>

section \<open>The run queue\<close>

definition processEligibleFirst :: "kstate \<Rightarrow> tss \<Rightarrow> bool option" where
  "processEligibleFirst s t =
     (if sq_head (schedqueue s) = NULL then Some False
      else do {
        h \<leftarrow> tsss s (sq_head (schedqueue s));
        Some (schedticks h \<le> schedticks t)
      })"

definition processEligibleLast :: "kstate \<Rightarrow> tss \<Rightarrow> bool option" where
  "processEligibleLast s t =
     (if tss_previous t = NULL then Some False
      else do {
        pv \<leftarrow> tsss s (tss_previous t);
        Some (if \<not> enqueued pv then False else tss_next pv = NULL)
      })"

definition previousValid :: "kstate \<Rightarrow> tss \<Rightarrow> bool option" where
  "previousValid s t =
     (if tss_previous t = NULL then processEligibleFirst s t
      else do {
        pv \<leftarrow> tsss s (tss_previous t);
        Some (if \<not> enqueued pv then False
              else if tss_next pv \<noteq> tss_next t then False
              else schedticks t \<le> schedticks pv)
      })"

definition nextValid :: "kstate \<Rightarrow> tss \<Rightarrow> bool option" where
  "nextValid s t =
     (if tss_next t = NULL then processEligibleLast s t
      else do {
        nx \<leftarrow> tsss s (tss_next t);
        Some (if \<not> enqueued nx then False
              else if tss_previous nx \<noteq> tss_previous t then False
              else schedticks nx \<le> schedticks t)
      })"

definition lastNeighboursValid :: "kstate \<Rightarrow> tss \<Rightarrow> bool option" where
  "lastNeighboursValid s t =
     (if tss_previous t = NULL \<and> tss_next t = NULL then Some False
      else do {
        pok \<leftarrow> previousValid s t;
        if \<not> pok then Some False else nextValid s t
      })"

text \<open>
  The first branch of \<open>enqueue\<close>: the process goes back between the neighbours it had when it
  was last taken out.
\<close>

definition enqueue_back :: "ptr \<Rightarrow> kstate \<Rightarrow> kstate option" where
  "enqueue_back process s = do {
     t \<leftarrow> tsss s process;
     s \<leftarrow> (if tss_previous t \<noteq> NULL
           then tss_upd (tss_previous t) (\<lambda>pv. pv\<lparr>tss_next := process\<rparr>) s
           else Some (set_head process s));
     t \<leftarrow> tsss s process;
     if tss_next t \<noteq> NULL
     then tss_upd (tss_next t) (\<lambda>nx. nx\<lparr>tss_previous := process\<rparr>) s
     else Some s
   }"

text \<open>
  The scan of the second branch.  The C variable \<open>cur\<close> is the address of the link that is
  inspected; here it is the link's value, and \<open>previous\<close> tells which link it is (the queue's
  head for \<open>NULL\<close>, else the \<open>next\<close> field of \<open>previous\<close>).
\<close>

partial_function (option) enqueue_scan ::
    "(ptr \<rightharpoonup> tss) \<Rightarrow> u32 \<Rightarrow> ptr \<Rightarrow> ptr \<Rightarrow> (ptr \<times> ptr) option" where
  "enqueue_scan h ticks previous cur =
     (if cur = NULL then Some (previous, cur)
      else do {
        c \<leftarrow> h cur;
        if ticks < schedticks c then enqueue_scan h ticks cur (tss_next c)
        else Some (previous, cur)
      })"

definition enqueue_search :: "ptr \<Rightarrow> kstate \<Rightarrow> kstate option" where
  "enqueue_search process s = do {
     s \<leftarrow> tss_upd process (\<lambda>t. t\<lparr>tss_previous := NULL, tss_next := NULL\<rparr>) s;
     t \<leftarrow> tsss s process;
     (previous, cur) \<leftarrow> enqueue_scan (tsss s) (schedticks t) NULL (sq_head (schedqueue s));
     s \<leftarrow> tss_upd process (\<lambda>t. t\<lparr>tss_next := cur, tss_previous := previous\<rparr>) s;
     s \<leftarrow> (if cur \<noteq> NULL then tss_upd cur (\<lambda>c. c\<lparr>tss_previous := process\<rparr>) s else Some s);
     if previous = NULL then Some (set_head process s)
     else tss_upd previous (\<lambda>pv. pv\<lparr>tss_next := process\<rparr>) s
   }"

definition new_ticksleft :: "schedqueue_t \<Rightarrow> tss \<Rightarrow> u32" where
  "new_ticksleft q t =
     (if sq_schedticks q = 0 then schedticks t
      else let count1 = schedticks t -
                 ((sq_schedticks q - sq_ticksleft q) * schedticks t div sq_schedticks q);
               count2 = ticksleft t
           in if count1 < count2 then count1 else count2)"

definition enqueue_account :: "ptr \<Rightarrow> kstate \<Rightarrow> kstate option" where
  "enqueue_account process s = do {
     t \<leftarrow> tsss s process;
     let q = schedqueue s;
     let left = new_ticksleft q t;
     s \<leftarrow> tss_upd process (\<lambda>t. t\<lparr>ticksleft := left\<rparr>) s;
     Some (s\<lparr>schedqueue := q\<lparr>sq_schedticks := sq_schedticks q + schedticks t,
                             sq_ticksleft := sq_ticksleft q + left\<rparr>\<rparr>)
   }"

definition enqueue :: "ptr \<Rightarrow> kstate \<Rightarrow> kstate option" where
  "enqueue process s = do {
     t \<leftarrow> tsss s process;
     if enqueued t then Some s
     else do {
       s \<leftarrow> tss_upd process (\<lambda>t. t\<lparr>misc := misc t OR ENQUEUED\<rparr>) s;
       t \<leftarrow> tsss s process;
       valid \<leftarrow> lastNeighboursValid s t;
       s \<leftarrow> (if valid then enqueue_back process s else enqueue_search process s);
       enqueue_account process s
     }
   }"

section \<open>Clock ticks and the choice of the next process\<close>

definition charge_process :: "kstate \<Rightarrow> kstate option" where
  "charge_process s =
     (if curptr s = idlestate s then Some s
      else do {
        s \<leftarrow> tss_upd (curptr s) (\<lambda>t. t\<lparr>ticksleft := ticksleft t - 1\<rparr>) s;
        Some (s\<lparr>schedqueue := (schedqueue s)\<lparr>sq_ticksleft := sq_ticksleft (schedqueue s) - 1\<rparr>\<rparr>)
      })"

definition vft_numerator :: "u32 \<Rightarrow> u32 \<Rightarrow> u32" where
  "vft_numerator schedt left = schedt - left + 1"

definition vtrr_is_eligible :: "schedqueue_t \<Rightarrow> tss \<Rightarrow> tss \<Rightarrow> bool" where
  "vtrr_is_eligible sq p q \<longleftrightarrow>
     ticksleft p < ticksleft q \<or>
     (vft_numerator (schedticks q) (ticksleft q) * sq_schedticks sq)
       - (vft_numerator (sq_schedticks sq) (sq_ticksleft sq) * schedticks q) < sq_schedticks sq"

definition next_is_head :: "kstate \<Rightarrow> kstate option" where
  "next_is_head s = do {
     let s = s\<lparr>nextptr := sq_head (schedqueue s)\<rparr>;
     n \<leftarrow> tsss s (nextptr s);
     if ticksleft n = 0 then tss_upd (nextptr s) (\<lambda>n. n\<lparr>ticksleft := schedticks n\<rparr>) s
     else Some s
   }"

definition pick_next_proc :: "kstate \<Rightarrow> kstate option" where
  "pick_next_proc s =
     (if sq_head (schedqueue s) = NULL then Some (s\<lparr>nextptr := idlestate s\<rparr>)
      else
        let last = (if nextptr s = NULL then curptr s else nextptr s) in
        if last = NULL then Some (s\<lparr>nextptr := sq_head (schedqueue s)\<rparr>)
        else if last = idlestate s then Some (s\<lparr>nextptr := sq_head (schedqueue s)\<rparr>)
        else do {
          l \<leftarrow> tsss s last;
          if tss_next l = NULL then next_is_head s
          else if ticksleft l = schedticks l - 1 then
            tss_upd (tss_next l) (\<lambda>n. n\<lparr>ticksleft := schedticks n\<rparr>) (s\<lparr>nextptr := tss_next l\<rparr>)
          else do {
            n \<leftarrow> tsss s (tss_next l);
            if vtrr_is_eligible (schedqueue s) l n then Some (s\<lparr>nextptr := tss_next l\<rparr>)
            else next_is_head s
          }
        })"

section \<open>Taking a process out\<close>

text \<open>The loop of \<open>dequeue\<close> that moves the processor to another process first.\<close>

partial_function (option) dequeue_switch :: "ptr \<Rightarrow> kstate \<Rightarrow> kstate option" where
  "dequeue_switch process s = do {
     s \<leftarrow> charge_process s;
     s \<leftarrow> pick_next_proc s;
     let s = s\<lparr>curptr := nextptr s\<rparr>;
     if nextptr s = process then dequeue_switch process s else Some s
   }"

definition dequeue_unlink :: "ptr \<Rightarrow> kstate \<Rightarrow> kstate option" where
  "dequeue_unlink process s = do {
     t \<leftarrow> tsss s process;
     s \<leftarrow> (if tss_previous t \<noteq> NULL
           then tss_upd (tss_previous t) (\<lambda>pv. pv\<lparr>tss_next := tss_next t\<rparr>) s else Some s);
     t \<leftarrow> tsss s process;
     s \<leftarrow> (if tss_next t \<noteq> NULL
           then tss_upd (tss_next t) (\<lambda>nx. nx\<lparr>tss_previous := tss_previous t\<rparr>) s else Some s);
     t \<leftarrow> tsss s process;
     let s = (if sq_head (schedqueue s) = process then set_head (tss_next t) s else s);
     let q = schedqueue s;
     Some (s\<lparr>schedqueue := q\<lparr>sq_schedticks := sq_schedticks q - schedticks t,
                             sq_ticksleft := sq_ticksleft q - ticksleft t\<rparr>\<rparr>)
   }"

definition dequeue :: "ptr \<Rightarrow> kstate \<Rightarrow> kstate option" where
  "dequeue process s = do {
     t \<leftarrow> tsss s process;
     if \<not> enqueued t then Some s
     else do {
       s \<leftarrow> tss_upd process (\<lambda>t. t\<lparr>misc := misc t AND NOT ENQUEUED\<rparr>) s;
       if sq_schedticks (schedqueue s) = schedticks t
       then Some (s\<lparr>schedqueue := \<lparr>sq_head = NULL, sq_ticksleft = 0, sq_schedticks = 0\<rparr>\<rparr>)
       else do {
         s \<leftarrow> (if curptr s = process then dequeue_switch process s else Some s);
         dequeue_unlink process s
       }
     }
   }"

end
