(* ===== verification/MK_Memory.thy ===== *)
theory MK_Memory
  imports MK_State
begin

text \<open>
  Physical memory: little-endian words in the byte memory, the allocation bitmaps of
  \<^verbatim>\<open>kernel/utilities_HLA.hla\<close> and the segment descriptors of \<^verbatim>\<open>kernel/lowlevel.hla\<close>, which
  the C code reads and writes through these routines.
\<close>

section \<open>Words in memory\<close>

definition rd16 :: "memory \<Rightarrow> u32 \<Rightarrow> u16" where
  "rd16 m a = word_cat (m (a + 1)) (m a)"

definition rd32 :: "memory \<Rightarrow> u32 \<Rightarrow> u32" where
  "rd32 m a = word_cat (rd16 m (a + 2)) (rd16 m a)"

definition wr16 :: "u32 \<Rightarrow> u16 \<Rightarrow> memory \<Rightarrow> memory" where
  "wr16 a v m = m(a := ucast v, a + 1 := ucast (drop_bit 8 v))"

definition wr32 :: "u32 \<Rightarrow> u32 \<Rightarrow> memory \<Rightarrow> memory" where
  "wr32 a v m = wr16 (a + 2) (ucast (drop_bit 16 v)) (wr16 a (ucast v) m)"

section \<open>Allocation bitmaps\<close>

text \<open>A bitmap is an offset in the kernel's data segment, which starts at \<open>KERNEL_BASE\<close>.\<close>

function free_bit_loop :: "memory \<Rightarrow> u32 \<Rightarrow> u32 \<Rightarrow> u32 \<Rightarrow> u32 \<Rightarrow> u32" where
  "free_bit_loop m bits eax ebx edx =
     (if eax = bits then eax
      else if ebx AND rd32 m (KERNEL_BASE + edx) = 0 then eax
      else let ebx' = word_rotl 1 ebx
           in free_bit_loop m bits (eax + 1) ebx' (if ebx' = 1 then edx + 4 else edx))"
  by pat_completeness auto

termination free_bit_loop
proof (relation "measure (\<lambda>(m, bits, eax, ebx, edx). unat (bits - eax))")
  fix bits eax :: u32
  assume "eax \<noteq> bits"
  then have "bits - eax \<noteq> 0" by simp
  then have "unat (bits - eax - 1) < unat (bits - eax)"
    by (simp add: unat_minus_one unat_gt_0)
  then have "unat (bits - (eax + 1)) < unat (bits - eax)" by (simp add: diff_diff_eq)
  then show "((m, bits, eax + 1, x, if x = 1 then edx + 4 else edx), (m, bits, eax, ebx, edx))
      \<in> measure (\<lambda>(m, bits, eax, ebx, edx). unat (bits - eax))" for m x ebx edx
    by simp
qed simp

declare free_bit_loop.simps [simp del]

definition getFreeBitInBitfield :: "memory \<Rightarrow> u32 \<Rightarrow> u32 \<Rightarrow> u32" where
  "getFreeBitInBitfield m bitfield bits = free_bit_loop m bits 0 1 bitfield"

definition unfreeBitInBitfield :: "u32 \<Rightarrow> u32 \<Rightarrow> memory \<Rightarrow> memory" where
  "unfreeBitInBitfield bitfield what m =
     (let a = KERNEL_BASE + (bitfield + what div 8)
      in m(a := push_bit (unat (what mod 8)) 1 OR m a))"

text \<open>The routine that is to clear a bit computes the address of its byte, and then uses another.\<close>

definition freeBitInBitfield :: "u32 \<Rightarrow> u32 \<Rightarrow> memory \<Rightarrow> memory" where
  "freeBitInBitfield bitfield what m =
     (let a = KERNEL_BASE + what div 8
      in m(a := word_rotl (unat (what mod 8)) 0xfe AND m a))"

definition get_free_gdt_idx :: "kstate \<Rightarrow> u32" where
  "get_free_gdt_idx s = getFreeBitInBitfield (mem s) (gdtBitmap s) NO_AVL_DSCRPTS * 8"

definition unfree_gdt_idx :: "u32 \<Rightarrow> kstate \<Rightarrow> kstate" where
  "unfree_gdt_idx what s = s\<lparr>mem := unfreeBitInBitfield (gdtBitmap s) (what div 8) (mem s)\<rparr>"

definition free_gdt_idx :: "u32 \<Rightarrow> kstate \<Rightarrow> kstate" where
  "free_gdt_idx what s = s\<lparr>mem := freeBitInBitfield (gdtBitmap s) (what div 8) (mem s)\<rparr>"

definition free_pid :: "u32 \<Rightarrow> kstate \<Rightarrow> kstate" where
  "free_pid what s = s\<lparr>mem := freeBitInBitfield (pidBitmap s) what (mem s)\<rparr>"

section \<open>Segment descriptors\<close>

definition get_limit :: "memory \<Rightarrow> u32 \<Rightarrow> u32" where
  "get_limit m gdtIndex =
     (let a = GDT_BASE + gdtIndex;
          eax = ucast (rd16 m a);
          ebx = push_bit 16 (ucast (m (a + 6)));
          eax = ebx OR eax
      in if ebx AND 0x800000 = 0 then eax AND 0xfffff
         else push_bit 12 (eax AND 0xfffff))"

definition get_base :: "memory \<Rightarrow> u32 \<Rightarrow> u32" where
  "get_base m gdtIndex =
     (let a = GDT_BASE + gdtIndex
      in push_bit 24 (ucast (m (a + 7))) OR push_bit 16 (ucast (m (a + 4))) OR ucast (rd16 m (a + 2)))"

definition grow_gdt :: "u32 \<Rightarrow> kstate \<Rightarrow> kstate" where
  "grow_gdt index s =
     (if gdt_limit s < ucast index then s\<lparr>gdt_limit := ucast (index + 8 - 1)\<rparr> else s)"

definition put_descriptor :: "u32 \<Rightarrow> u32 \<Rightarrow> u32 \<Rightarrow> u8 \<Rightarrow> u8 \<Rightarrow> memory \<Rightarrow> memory" where
  "put_descriptor index limit base props1 props2 m =
     (let a = GDT_BASE + index;
          m = wr16 a (ucast limit) m;
          m = m(a + 6 := props2);
          m = wr16 (a + 2) (ucast base) m;
          m = m(a + 4 := ucast (drop_bit 16 base));
          m = m(a + 7 := ucast (drop_bit 24 base))
      in m(a + 5 := props1))"

definition write_segment_desc ::
    "u32 \<Rightarrow> u32 \<Rightarrow> u32 \<Rightarrow> u32 \<Rightarrow> u32 \<Rightarrow> u32 \<Rightarrow> u32 \<Rightarrow> kstate \<Rightarrow> kstate" where
  "write_segment_desc index limit base present privilege ty granularity s =
     (let s = grow_gdt index s;
          props2 = drop_bit 16 limit OR (push_bit 7 granularity OR 0x40);
          kind = (if (ucast ty :: u8) = 0 then 0x1a else if (ucast ty :: u8) = 1 then 0x12 else 0x16);
          props1 = ucast (push_bit 5 privilege OR push_bit 7 present) OR kind
      in unfree_gdt_idx index
           (s\<lparr>mem := put_descriptor index limit base props1 (ucast props2) (mem s)\<rparr>))"

text \<open>
  The assembly routine behind the C name \<open>write_tss_desc\<close> takes seven arguments, the C
  prototype six: see \<open>create_process\<close>.
\<close>

definition write_tss_desc ::
    "u32 \<Rightarrow> u32 \<Rightarrow> u32 \<Rightarrow> u32 \<Rightarrow> u32 \<Rightarrow> u32 \<Rightarrow> u32 \<Rightarrow> kstate \<Rightarrow> kstate" where
  "write_tss_desc index limit base present privilege busy granularity s =
     (let s = grow_gdt index s;
          props2 = drop_bit 16 limit OR push_bit 7 granularity;
          props1 = push_bit 1 busy OR push_bit 7 present OR 0x09
      in unfree_gdt_idx index
           (s\<lparr>mem := put_descriptor index limit base (ucast props1) (ucast props2) (mem s)\<rparr>))"

section \<open>Bitmaps, bit by bit\<close>

lemma bit_rd16: "j < 16 \<Longrightarrow> bit (rd16 m a) j = bit (m (a + of_nat (j div 8))) (j mod 8)"
proof (cases "j < 8")
  case False
  then have "j div 8 = 1" "j mod 8 = j - 8" if "j < 16" using that by presburger+
  with False show "j < 16 \<Longrightarrow> ?thesis" by (simp add: rd16_def bit_word_cat_iff)
qed (simp add: rd16_def bit_word_cat_iff)

lemma bit_rd32:
  assumes "j < 32"
  shows "bit (rd32 m a) j = bit (m (a + of_nat (j div 8))) (j mod 8)"
proof (cases "j < 16")
  case True
  then show ?thesis by (simp add: rd32_def bit_word_cat_iff bit_rd16)
next
  case False
  then obtain k where k: "j = 16 + k" by (metis le_Suc_ex not_less)
  have j: "(j - 16) mod 8 = j mod 8" "j div 8 = (j - 16) div 8 + 2"
    unfolding k using div_mult_self1 [of 8 k 2] mod_mult_self1 [of k 2 8] by (simp_all add: add.commute)
  have "bit (rd32 m a) j = bit (m (a + 2 + of_nat ((j - 16) div 8))) ((j - 16) mod 8)"
    using False assms by (simp add: rd32_def bit_word_cat_iff bit_rd16)
  moreover have "a + 2 + of_nat ((j - 16) div 8) = a + of_nat (j div 8)" unfolding j(2) by simp
  ultimately show ?thesis using j(1) by simp
qed

lemma single_bit_and: "n < LENGTH('a) \<Longrightarrow> (2 ^ n AND w = (0 :: 'a::len word)) = (\<not> bit w n)"
proof
  assume n: "n < LENGTH('a)" and "2 ^ n AND w = 0"
  then have "\<not> bit (2 ^ n AND w) n" by simp
  with n show "\<not> bit w n" by (simp add: bit_simps)
next
  assume "\<not> bit w n"
  then show "2 ^ n AND w = 0" by (intro bit_eqI) (auto simp: bit_simps)
qed

lemma rotl_single:
  assumes "j < 32"
  shows "word_rotl 1 (push_bit j 1 :: u32) = push_bit (Suc j mod 32) 1"
proof (rule bit_word_eqI)
  fix n assume n: "n < LENGTH(32)"
  have "((n + 31) mod 32 = j) = (n = Suc j mod 32)"
  proof (cases n)
    case 0
    with assms show ?thesis by (cases "j = 31") simp_all
  next
    case (Suc k)
    then have "(n + 31) mod 32 = k" using n mod_add_self2 [of k 32] by simp
    with Suc n assms show ?thesis by (cases "j = 31") auto
  qed
  then show "bit (word_rotl 1 (push_bit j 1 :: u32)) n = bit (push_bit (Suc j mod 32) 1 :: u32) n"
    using assms n by (auto simp: bit_word_rotl_iff bit_simps)
qed

definition bitmap_bit :: "memory \<Rightarrow> u32 \<Rightarrow> nat \<Rightarrow> bool" where
  "bitmap_bit m bf n \<longleftrightarrow> bit (m (KERNEL_BASE + (bf + of_nat (n div 8)))) (n mod 8)"

lemma bitmap_dword:
  assumes "n = 32 * k + j" and "j < 32"
  shows "bit (rd32 m (KERNEL_BASE + (bf + of_nat (4 * k)))) j = bitmap_bit m bf n"
proof -
  have "n div 8 = 4 * k + j div 8" "n mod 8 = j mod 8" using assms by presburger+
  then show ?thesis using assms(2) by (simp add: bitmap_bit_def bit_rd32 ac_simps)
qed

lemma free_bit_loop_spec:
  assumes "unat eax \<le> unat bits" and "ebx = push_bit (unat eax mod 32) 1"
    and "edx = bf + of_nat (4 * (unat eax div 32))"
  shows "let r = unat (free_bit_loop m bits eax ebx edx) in
    unat eax \<le> r \<and> r \<le> unat bits \<and> (\<forall>k. unat eax \<le> k \<and> k < r \<longrightarrow> bitmap_bit m bf k) \<and>
    (r < unat bits \<longrightarrow> \<not> bitmap_bit m bf r)"
  using assms
proof (induction m bits eax ebx edx rule: free_bit_loop.induct)
  case (1 m bits eax ebx edx)
  let ?n = "unat eax"
  have here: "(ebx AND rd32 m (KERNEL_BASE + edx) = 0) = (\<not> bitmap_bit m bf ?n)"
    using bitmap_dword [of ?n "?n div 32" "?n mod 32" m bf] "1.prems"(2,3)
    by (simp add: single_bit_and)
  show ?case
  proof (cases "eax = bits \<or> \<not> bitmap_bit m bf ?n")
    case True
    then show ?thesis using here "1.prems"(1) by (subst free_bit_loop.simps) (auto simp: Let_def)
  next
    case False
    let ?b = "word_rotl 1 ebx"
    let ?d = "if ?b = 1 then edx + 4 else edx"
    from False have ne: "eax \<noteq> bits" and set: "bitmap_bit m bf ?n" by auto
    have lt: "?n < unat bits" using ne "1.prems"(1) by (simp add: order_less_le word_unat_eq_iff)
    then have suc: "unat (eax + 1) = Suc ?n"
      using unsigned_less [of bits, where ?'a = nat] by (simp add: unat_word_ariths)
    have b: "?b = push_bit (Suc ?n mod 32) 1"
      unfolding "1.prems"(2) by (subst rotl_single) (simp_all add: mod_Suc_eq)
    have "(?b = 1) = (Suc ?n mod 32 = 0)"
    proof
      assume "?b = 1"
      then have "bit (push_bit (Suc ?n mod 32) (1::u32)) 0" using b by simp
      then show "Suc ?n mod 32 = 0" by (simp add: bit_simps)
    qed (use b in simp)
    then have d: "?d = bf + of_nat (4 * (Suc ?n div 32))"
      using "1.prems"(3) by (auto simp: div_Suc)
    have step: "free_bit_loop m bits eax ebx edx = free_bit_loop m bits (eax + 1) ?b ?d"
      using here set ne by (subst free_bit_loop.simps) (simp add: Let_def)
    define r where "r = unat (free_bit_loop m bits (eax + 1) ?b ?d)"
    have r: "Suc ?n \<le> r" "r \<le> unat bits" "\<forall>k. Suc ?n \<le> k \<and> k < r \<longrightarrow> bitmap_bit m bf k"
        "r < unat bits \<longrightarrow> \<not> bitmap_bit m bf r"
      using "1.IH" [of ?b] ne here set lt b d by (simp_all add: suc r_def Let_def)
    have "bitmap_bit m bf k" if "?n \<le> k" "k < r" for k
      using that set r(3) by (cases "k = ?n") auto
    then show ?thesis
      unfolding step r_def [symmetric] Let_def using r by auto
  qed
qed

lemma getFreeBit_spec:
  defines "r \<equiv> \<lambda>m bf bits. unat (getFreeBitInBitfield m bf bits)"
  shows "r m bf bits \<le> unat bits" "k < r m bf bits \<Longrightarrow> bitmap_bit m bf k"
    "r m bf bits < unat bits \<Longrightarrow> \<not> bitmap_bit m bf (r m bf bits)"
  using free_bit_loop_spec [of 0 bits 1 bf bf m]
  by (auto simp: r_def getFreeBitInBitfield_def Let_def)

lemma of_nat_div8: "n < 2 ^ 32 \<Longrightarrow> (of_nat (n div 8) = (w div 8 :: u32)) = (n div 8 = unat w div 8)"
  by (subst word_unat_eq_iff) (simp add: unat_div unat_of_nat take_bit_nat_eq_self less_mult_imp_div_less)

lemma bitmap_bit_unfree:
  assumes "n < 2 ^ 32"
  shows "bitmap_bit (unfreeBitInBitfield bf what m) bf n = (bitmap_bit m bf n \<or> n = unat what)"
proof (cases "n div 8 = unat what div 8")
  case True
  then have "(n = unat what) = (n mod 8 = unat what mod 8)"
    by (metis div_mod_decomp)
  then show ?thesis
    using True of_nat_div8 [OF assms, of what]
    by (simp add: bitmap_bit_def unfreeBitInBitfield_def Let_def bit_simps unat_mod) metis
next
  case False
  then show ?thesis
    using of_nat_div8 [OF assms, of what]
    by (auto simp: bitmap_bit_def unfreeBitInBitfield_def Let_def)
qed

section \<open>Descriptors read back\<close>

lemma word_join16: "(word_cat (ucast (drop_bit 8 w) :: u8) (ucast w :: u8) :: u16) = w"
  by (rule bit_word_eqI) (auto simp: bit_word_cat_iff bit_simps)

lemma rd16_wr16: "rd16 (wr16 a v m) a = v"
  by (simp add: rd16_def wr16_def word_join16)

lemma rd16_upd: "b \<noteq> a \<Longrightarrow> b \<noteq> a + 1 \<Longrightarrow> rd16 (m(b := v)) a = rd16 m a"
  by (simp add: rd16_def)

lemma rd16_put:
  "rd16 (put_descriptor i l b p q m) (GDT_BASE + i) = ucast l"
  "rd16 (put_descriptor i l b p q m) (GDT_BASE + i + 2) = ucast b"
  by (simp_all add: put_descriptor_def Let_def rd16_def wr16_def word_join16 add.assoc)

lemma get_base_put: "get_base (put_descriptor i l b p q m) i = b"
proof (rule bit_word_eqI)
  fix n assume "n < LENGTH(32)"
  then show "bit (get_base (put_descriptor i l b p q m) i) n = bit b n"
    unfolding get_base_def Let_def rd16_put
    by (simp add: put_descriptor_def Let_def wr16_def bit_simps add.assoc)
      (cases "n < 16"; cases "n < 24"; auto)
qed

lemma limit_word_bits:
  assumes l: "l < 0x100000" and g: "g = 0 \<or> g = 1" and x: "x = 0 \<or> x = 0x40"
  defines "v \<equiv> push_bit 16 (ucast (ucast (drop_bit 16 l OR (push_bit 7 g OR x)) :: u8)) :: u32"
  shows "bit v 23 = (g = 1)" "(v OR ucast (ucast l :: u16)) AND 0xfffff = l"
proof -
  have "unat l < 2 ^ 20" using l by (simp add: word_less_nat_alt)
  then have tb: "take_bit 20 (unat l) = unat l" by (rule take_bit_nat_eq_self)
  have small: "\<not> bit l n" if "20 \<le> n" for n
  proof (rule notI)
    assume "bit l n"
    then have "bit (unat l) n" by (auto simp: bit_unsigned_iff possible_bit_def dest: bit_imp_le_length)
    with tb have "bit (take_bit 20 (unat l)) n" by simp
    with that show False by (simp add: bit_take_bit_iff)
  qed
  then have low: "n < 20" if "bit l n" for n using that not_less by blast
  have gb: "bit g n = (g = 1 \<and> n = 0)" for n using g by (auto simp: bit_1_iff)
  have xb: "bit x n = (x = 0x40 \<and> n = 6)" for n
  proof -
    have "(0x40 :: u32) = push_bit 6 1" by simp
    then have "bit (0x40 :: u32) n = (n = 6)" by (simp only: bit_push_bit_iff) (auto simp: bit_1_iff)
    then show ?thesis using x by auto
  qed
  have bits: "bit v n = (16 \<le> n \<and> n < 24 \<and> (bit l n \<or> g = 1 \<and> n = 23 \<or> x = 0x40 \<and> n = 22))" for n
    by (auto simp: v_def bit_simps gb xb)
  show "bit v 23 = (g = 1)" by (simp add: bits small)
  have m: "(0xfffff :: u32) = mask 20" by (simp add: mask_eq_exp_minus_1)
  show "(v OR ucast (ucast l :: u16)) AND 0xfffff = l"
    unfolding m
  proof (rule bit_word_eqI)
    fix n
    show "bit ((v OR ucast (ucast l :: u16)) AND mask 20) n = bit l n"
      using low [of n] by (cases "bit l n") (auto simp: bit_simps bits)
  qed
qed

lemma get_limit_put:
  assumes "l < 0x100000" and "g = 0 \<or> g = 1" and "x = 0 \<or> x = 0x40"
  shows "get_limit (put_descriptor i l b p (ucast (drop_bit 16 l OR (push_bit 7 g OR x))) m) i =
    (if g = 1 then push_bit 12 l else l)"
proof -
  note bits = limit_word_bits [OF assms]
  have "(0x800000 :: u32) = 2 ^ 23" by simp
  then have and23: "(w AND 0x800000 = 0) = (\<not> bit w 23)" for w :: u32
    using single_bit_and [of 23 w] by (simp only: and.commute [of w]) simp
  have six: "put_descriptor i l b p q m (GDT_BASE + i + 6) = q" for q
    by (simp add: put_descriptor_def Let_def wr16_def add.assoc)
  show ?thesis
    unfolding get_limit_def Let_def rd16_put six and23 bits by simp
qed

text \<open>A descriptor does not depend on bytes outside its eight.\<close>

definition descriptor_bytes :: "u32 \<Rightarrow> u32 set" where
  "descriptor_bytes i = {GDT_BASE + i, GDT_BASE + i + 1, GDT_BASE + i + 2, GDT_BASE + i + 3,
     GDT_BASE + i + 4, GDT_BASE + i + 5, GDT_BASE + i + 6, GDT_BASE + i + 7}"

lemma descriptor_cong:
  assumes "\<And>a. a \<in> descriptor_bytes i \<Longrightarrow> m' a = m a"
  shows "get_base m' i = get_base m i" "get_limit m' i = get_limit m i"
  using assms by (simp_all add: get_base_def get_limit_def Let_def rd16_def descriptor_bytes_def add.assoc)

lemma put_descriptor_outside:
  "a \<notin> descriptor_bytes i \<Longrightarrow> put_descriptor i l b p q m a = m a"
  by (simp add: put_descriptor_def Let_def wr16_def descriptor_bytes_def add.assoc)

definition bitmap_byte :: "kstate \<Rightarrow> u32 \<Rightarrow> u32" where
  "bitmap_byte s i = KERNEL_BASE + (gdtBitmap s + i div 8 div 8)"

lemma unfree_other: "a \<noteq> bitmap_byte s i \<Longrightarrow> mem (unfree_gdt_idx i s) a = mem s a"
  by (simp add: unfree_gdt_idx_def unfreeBitInBitfield_def Let_def bitmap_byte_def)

lemma write_segment_desc_mem:
  "\<exists>p1. \<forall>a. a \<noteq> bitmap_byte s i \<longrightarrow> mem (write_segment_desc i l b pr pv ty g s) a =
     put_descriptor i l b p1 (ucast (drop_bit 16 l OR (push_bit 7 g OR 0x40))) (mem s) a"
proof -
  have "bitmap_byte (grow_gdt i s) i = bitmap_byte s i" "mem (grow_gdt i s) = mem s" for s
    by (simp_all add: grow_gdt_def bitmap_byte_def)
  then show ?thesis
    unfolding write_segment_desc_def Let_def
    by (intro exI allI impI) (subst unfree_other, simp_all add: bitmap_byte_def)
qed

section \<open>The contract of a bit allocator\<close>

text \<open>
  \<open>get\<close> proposes a free number below the bound (or the bound, when none is left), \<open>take\<close>
  marks one as used.  A client that always takes what it got never gets a number twice.
\<close>

fun allocate :: "('s \<Rightarrow> nat) \<Rightarrow> (nat \<Rightarrow> 's \<Rightarrow> 's) \<Rightarrow> nat \<Rightarrow> 's \<Rightarrow> nat list \<times> 's" where
  "allocate get mark 0 s = ([], s)"
| "allocate get mark (Suc n) s =
     (let i = get s; (is, s') = allocate get mark n (mark i s) in (i # is, s'))"

locale bit_allocator =
  fixes get :: "'s \<Rightarrow> nat" and mark :: "nat \<Rightarrow> 's \<Rightarrow> 's" and used :: "'s \<Rightarrow> nat \<Rightarrow> bool"
    and bound :: nat
  assumes get_bound: "get s \<le> bound"
    and get_unused: "get s < bound \<Longrightarrow> \<not> used s (get s)"
    and get_least: "k < get s \<Longrightarrow> used s k"
    and used_mark: "i < bound \<Longrightarrow> k < bound \<Longrightarrow> used (mark i s) k = (used s k \<or> k = i)"
begin

lemma get_full: "get s = bound \<longleftrightarrow> (\<forall>k < bound. used s k)"
  using get_bound [of s] get_unused [of s] get_least [of _ s] by (metis nat_less_le)

lemma get_exhausted:
  assumes "get s = bound" and "i < bound"
  shows "get (mark i s) = bound"
  using assms used_mark by (simp add: get_full)

lemma allocate_fresh:
  "allocate get mark n s = (is, s') \<Longrightarrow> \<forall>i \<in> set is. i < bound \<Longrightarrow>
     distinct is \<and> (\<forall>i \<in> set is. \<not> used s i) \<and> length is = n"
proof (induction n arbitrary: s "is")
  case 0
  then show ?case by simp
next
  case (Suc n)
  let ?i = "get s"
  obtain js where js: "allocate get mark n (mark ?i s) = (js, s')" "is = ?i # js"
    using Suc.prems(1) by (auto simp: Let_def split: prod.splits)
  then have bd: "?i < bound" "\<forall>j \<in> set js. j < bound" using Suc.prems(2) by auto
  have "distinct js \<and> (\<forall>j \<in> set js. \<not> used (mark ?i s) j) \<and> length js = n"
    using Suc.IH [OF js(1) bd(2)] .
  then show ?case
    using bd used_mark [OF bd(1)] get_unused [OF bd(1)] js(2) by auto
qed

lemma allocate_succeeds:
  "n \<le> card {k. k < bound \<and> \<not> used s k} \<Longrightarrow> allocate get mark n s = (is, s') \<Longrightarrow>
     \<forall>i \<in> set is. i < bound"
proof (induction n arbitrary: s "is")
  case 0
  then show ?case by simp
next
  case (Suc n)
  let ?i = "get s" and ?F = "\<lambda>s. {k. k < bound \<and> \<not> used s k}"
  obtain js where js: "allocate get mark n (mark ?i s) = (js, s')" "is = ?i # js"
    using Suc.prems(2) by (auto simp: Let_def split: prod.splits)
  have "?F s \<noteq> {}" using Suc.prems(1) by (metis card.empty not_less_eq_eq zero_le)
  then have i: "?i < bound" using get_full [of s] get_bound [of s] by (auto simp: le_less)
  have "?F (mark ?i s) = ?F s - {?i}" using used_mark [OF i] by auto
  moreover have "?i \<in> ?F s" using i get_unused [OF i] by simp
  ultimately have "n \<le> card (?F (mark ?i s))" using Suc.prems(1) by (simp add: card_Diff_singleton)
  from Suc.IH [OF this js(1)] i js(2) show ?case by simp
qed

end

interpretation gdtbits: bit_allocator
  "\<lambda>s. unat (get_free_gdt_idx s) div 8"
  "\<lambda>i s. unfree_gdt_idx (of_nat (8 * i)) s"
  "\<lambda>s i. bitmap_bit (mem s) (gdtBitmap s) i" 8192
proof unfold_locales
  fix s :: kstate and i k :: nat
  let ?r = "getFreeBitInBitfield (mem s) (gdtBitmap s) 8192"
  note spec = getFreeBit_spec [where m = "mem s" and bf = "gdtBitmap s" and bits = 8192]
  have le: "unat ?r \<le> 8192" using spec(1) by simp
  have "unat (?r * 8) = unat ?r * 8"
    using le by (simp add: unat_word_ariths)
  then have get: "unat (get_free_gdt_idx s) div 8 = unat ?r" by (simp add: get_free_gdt_idx_def)
  show "unat (get_free_gdt_idx s) div 8 \<le> 8192" using le get by simp
  show "unat (get_free_gdt_idx s) div 8 < 8192 \<Longrightarrow>
      \<not> bitmap_bit (mem s) (gdtBitmap s) (unat (get_free_gdt_idx s) div 8)"
    unfolding get using spec(3) by simp
  show "k < unat (get_free_gdt_idx s) div 8 \<Longrightarrow> bitmap_bit (mem s) (gdtBitmap s) k"
    unfolding get using spec(2) by simp
  show "bitmap_bit (mem (unfree_gdt_idx (of_nat (8 * i)) s)) (gdtBitmap (unfree_gdt_idx (of_nat (8 * i)) s)) k =
      (bitmap_bit (mem s) (gdtBitmap s) k \<or> k = i)" if "i < 8192" "k < 8192"
  proof -
    have "unat (of_nat (8 * i) :: u32) = 8 * i"
      using that by (simp only: unat_of_nat) (simp add: take_bit_nat_eq_self)
    then have "unat (of_nat (8 * i) div 8 :: u32) = i" by (simp add: unat_div)
    then show ?thesis
      using bitmap_bit_unfree [of k "gdtBitmap s" "of_nat (8 * i) div 8" "mem s"] that
      by (simp add: unfree_gdt_idx_def)
  qed
qed

section \<open>Giving a bit back\<close>

lemma freeBit_byte: "a \<noteq> KERNEL_BASE + what div 8 \<Longrightarrow> freeBitInBitfield bf what m a = m a"
  by (simp add: freeBitInBitfield_def Let_def)

lemma bitmap_bit_free:
  assumes "what div 8 \<noteq> bf + of_nat (n div 8)"
  shows "bitmap_bit (freeBitInBitfield bf what m) bf n = bitmap_bit m bf n"
  using assms by (subst bitmap_bit_def, subst freeBit_byte) (auto simp: bitmap_bit_def)

lemma unat_div_8: "unat (w div 8 :: u32) = unat w div 8"
  by (simp add: unat_div)

lemma unat_bitmap_byte:
  assumes "unat bf + 1024 \<le> 2 ^ 32" and "n < 8192"
  shows "unat (bf + of_nat (n div 8) :: u32) = unat bf + n div 8"
proof -
  have "n div 8 < 1024" using assms(2) by presburger
  then have "unat (of_nat (n div 8) :: u32) = n div 8" by (simp add: unat_of_nat take_bit_nat_eq_self)
  then show ?thesis using assms(1) \<open>n div 8 < 1024\<close> by (simp add: unat_word_ariths)
qed

lemma bitmap_free_low:
  assumes "1024 \<le> unat bf" and "unat bf + 1024 \<le> 2 ^ 32" and "unat what < 8192" and "n < 8192"
  shows "bitmap_bit (freeBitInBitfield bf what m) bf n = bitmap_bit m bf n"
proof (rule bitmap_bit_free, rule notI)
  assume "what div 8 = bf + of_nat (n div 8)"
  then have "unat (what div 8) = unat (bf + of_nat (n div 8))" by (rule arg_cong)
  then have "unat what div 8 = unat bf + n div 8"
    unfolding unat_bitmap_byte [OF assms(2,4)] unat_div_8 .
  moreover have "unat what div 8 < 1024" using assms(3) by (intro less_mult_imp_div_less) simp
  ultimately show False using assms(1) by linarith
qed

section \<open>Descriptors do not overlap\<close>

lemma descriptor_bytesD: "x \<in> descriptor_bytes i \<Longrightarrow> \<exists>k < 8. x = GDT_BASE + i + of_nat k"
  unfolding descriptor_bytes_def insert_iff empty_iff
  by (elim disjE FalseE)
    (((rule exI [of _ 0]; simp); fail) | ((rule exI [of _ 1]; simp); fail) | ((rule exI [of _ 2]; simp); fail) |
     ((rule exI [of _ 3]; simp); fail) | ((rule exI [of _ 4]; simp); fail) | ((rule exI [of _ 5]; simp); fail) |
     ((rule exI [of _ 6]; simp); fail) | ((rule exI [of _ 7]; simp); fail))+

definition selector :: "nat \<Rightarrow> u32" where
  "selector n = of_nat (8 * n)"

lemma descriptor_number:
  assumes "x \<in> descriptor_bytes (selector n)" and "n < 8192"
  shows "unat (x - GDT_BASE) div 8 = n"
proof -
  obtain k where k: "k < 8" "x = GDT_BASE + selector n + of_nat k"
    using descriptor_bytesD [OF assms(1)] by blast
  then have "x - GDT_BASE = of_nat (8 * n + k)" by (simp add: selector_def)
  then have "unat (x - GDT_BASE) = 8 * n + k"
    using k(1) assms(2) by (simp only: unat_of_nat) (simp add: take_bit_nat_eq_self)
  then show ?thesis using k(1) by simp
qed

lemma descriptor_bytes_disjoint:
  "m < 8192 \<Longrightarrow> n < 8192 \<Longrightarrow> m \<noteq> n \<Longrightarrow> x \<in> descriptor_bytes (selector m) \<Longrightarrow>
     x \<notin> descriptor_bytes (selector n)"
  using descriptor_number by blast

lemma unfree_selector: "n < 8192 \<Longrightarrow> unat (selector n div 8) = n"
proof -
  assume n: "n < 8192"
  then have "unat (selector n) = 8 * n"
    unfolding selector_def by (simp only: unat_of_nat) (simp add: take_bit_nat_eq_self)
  then show ?thesis by (simp add: unat_div)
qed

text \<open>
  The kernel's image, which holds the bitmap, begins behind the descriptor number 2079.  The
  bitmap does not wrap around the address space.
\<close>

definition below_kernel :: "nat \<Rightarrow> bool" where
  "below_kernel n \<longleftrightarrow> n < 2080"

definition bitmap_fits :: "kstate \<Rightarrow> bool" where
  "bitmap_fits s \<longleftrightarrow> gdtBitmap s \<le> 0xf0000000"

lemma descriptor_address:
  assumes "x \<in> descriptor_bytes (selector n)" and "n < 8192"
  shows "unat x div 8 = 0x10700 div 8 + n"
proof -
  obtain k where k: "k < 8" "x = GDT_BASE + selector n + of_nat k"
    using descriptor_bytesD [OF assms(1)] by blast
  then have "x = of_nat (0x10700 + 8 * n + k)" by (simp add: selector_def)
  then have "unat x = 0x10700 + 8 * n + k"
    using k(1) assms(2) by (simp only: unat_of_nat) (simp add: take_bit_nat_eq_self)
  then show ?thesis using k(1) by simp
qed

lemma bitmap_byte_address:
  assumes "bitmap_fits s" and "m < 8192"
  shows "0x14800 \<le> unat (bitmap_byte s (selector m))"
proof -
  have b: "unat (gdtBitmap s) \<le> 0xf0000000"
    using assms(1) by (simp add: bitmap_fits_def word_le_nat_alt)
  have "unat (selector m div 8 div 8) = m div 8"
    using unfree_selector [OF assms(2)] by (simp add: unat_div)
  moreover have "m div 8 < 1024" using assms(2) by (intro less_mult_imp_div_less) simp
  ultimately have "unat (gdtBitmap s + selector m div 8 div 8) = unat (gdtBitmap s) + m div 8"
    using b by (simp add: unat_word_ariths)
  with b \<open>m div 8 < 1024\<close> show ?thesis by (simp add: bitmap_byte_def unat_word_ariths)
qed

lemma bitmap_apart:
  assumes "bitmap_fits s" and "below_kernel n" and "m < 8192"
  shows "bitmap_byte s (selector m) \<notin> descriptor_bytes (selector n)"
proof
  assume "bitmap_byte s (selector m) \<in> descriptor_bytes (selector n)"
  then have "unat (bitmap_byte s (selector m)) div 8 = 0x10700 div 8 + n"
    using descriptor_address assms(2) by (simp add: below_kernel_def)
  moreover have "0x14800 div 8 \<le> unat (bitmap_byte s (selector m)) div 8"
    by (rule div_le_mono [OF bitmap_byte_address [OF assms(1,3)]])
  ultimately show False using assms(2) by (simp add: below_kernel_def)
qed

lemma write_segment_desc_same:
  fixes b pr pv ty g :: u32
  assumes "bitmap_fits s" and "below_kernel n" and l: "l < 0x100000" and g: "g = 0 \<or> g = 1"
  defines "m \<equiv> mem (write_segment_desc (selector n) l b pr pv ty g s)"
  shows "get_base m (selector n) = b" "get_limit m (selector n) = (if g = 1 then push_bit 12 l else l)"
proof -
  obtain p1 where p1: "\<And>a. a \<noteq> bitmap_byte s (selector n) \<Longrightarrow> m a =
      put_descriptor (selector n) l b p1 (ucast (drop_bit 16 l OR (push_bit 7 g OR 0x40))) (mem s) a"
    using write_segment_desc_mem [of s "selector n" l b pr pv ty g] unfolding m_def by blast
  have lt: "n < 8192" using assms(2) by (simp add: below_kernel_def)
  have same: "\<And>a. a \<in> descriptor_bytes (selector n) \<Longrightarrow> m a =
      put_descriptor (selector n) l b p1 (ucast (drop_bit 16 l OR (push_bit 7 g OR 0x40))) (mem s) a"
    using bitmap_apart [OF assms(1,2) lt] p1 by metis
  show "get_base m (selector n) = b"
    using descriptor_cong(1) [of "selector n", OF same] get_base_put by simp
  show "get_limit m (selector n) = (if g = 1 then push_bit 12 l else l)"
    using descriptor_cong(2) [of "selector n", OF same] get_limit_put [OF l g, of "0x40"] by simp
qed

lemma write_segment_desc_other:
  fixes l b pr pv ty g :: u32
  assumes "bitmap_fits s" and "below_kernel n" and "below_kernel k" and "k \<noteq> n"
  defines "m \<equiv> mem (write_segment_desc (selector n) l b pr pv ty g s)"
  shows "get_base m (selector k) = get_base (mem s) (selector k)"
    "get_limit m (selector k) = get_limit (mem s) (selector k)"
proof -
  obtain p1 where p1: "\<And>a. a \<noteq> bitmap_byte s (selector n) \<Longrightarrow> m a =
      put_descriptor (selector n) l b p1 (ucast (drop_bit 16 l OR (push_bit 7 g OR 0x40))) (mem s) a"
    using write_segment_desc_mem [of s "selector n" l b pr pv ty g] unfolding m_def by blast
  have lt: "n < 8192" "k < 8192" using assms(2,3) by (simp_all add: below_kernel_def)
  have same: "m a = mem s a" if "a \<in> descriptor_bytes (selector k)" for a
  proof -
    have "a \<noteq> bitmap_byte s (selector n)" using that bitmap_apart [OF assms(1,3)] lt by blast
    moreover have "a \<notin> descriptor_bytes (selector n)"
      using descriptor_bytes_disjoint [OF lt(2,1) assms(4) that] .
    ultimately show ?thesis using p1 put_descriptor_outside by simp
  qed
  show "get_base m (selector k) = get_base (mem s) (selector k)"
    "get_limit m (selector k) = get_limit (mem s) (selector k)"
    by (rule descriptor_cong, rule same, assumption)+
qed

end
