(* ===== verification/MK_Ipc.thy ===== *)
theory MK_Ipc
  imports MK_Sched MK_Memory
begin

text \<open>
  Message passing and the kernel's bookkeeping of \<^verbatim>\<open>kernel/utilities_C.c\<close>: state flags, the
  lists of blocked senders, the feature table, the interrupt table, and the copy of a message
  (\<open>_exchange_data\<close> of \<^verbatim>\<open>kernel/utilities_HLA.hla\<close>).
\<close>

section \<open>State flags\<close>

definition unsetStateFlag :: "ptr \<Rightarrow> u8 \<Rightarrow> kstate \<Rightarrow> kstate option" where
  "unsetStateFlag p f s = do {
     s \<leftarrow> tss_upd p (\<lambda>t. t\<lparr>tss_state := tss_state t AND NOT f\<rparr>) s;
     t \<leftarrow> tsss s p;
     if tss_state t = 0 then enqueue p s else Some s
   }"

definition setStateFlag :: "ptr \<Rightarrow> u8 \<Rightarrow> kstate \<Rightarrow> kstate option" where
  "setStateFlag p f s = do {
     s \<leftarrow> tss_upd p (\<lambda>t. t\<lparr>tss_state := tss_state t OR f\<rparr>) s;
     dequeue p s
   }"

section \<open>Lists of blocked processes\<close>

text \<open>The search of \<open>get_sender\<close>: is the process \<open>desired\<close> on the chain that starts at \<open>cur\<close>?\<close>

partial_function (option) find_sender :: "(ptr \<rightharpoonup> tss) \<Rightarrow> ptr \<Rightarrow> ptr \<Rightarrow> ptr option" where
  "find_sender h desired cur =
     (if cur = NULL then Some NULL
      else if cur = desired then Some desired
      else do { c \<leftarrow> h cur; find_sender h desired (nextSender c) })"

definition get_sender :: "ptr \<Rightarrow> ptr \<Rightarrow> kstate \<Rightarrow> ptr option" where
  "get_sender desiredSender receiver s = do {
     r \<leftarrow> tsss s receiver;
     if firstSender r = NULL then Some NULL
     else if desiredSender = ANYPROC then Some (firstSender r)
     else find_sender (tsss s) desiredSender (firstSender r)
   }"

definition receiving_from :: "ptr \<Rightarrow> ptr \<Rightarrow> kstate \<Rightarrow> bool option" where
  "receiving_from receiver sender s = do {
     r \<leftarrow> tsss s receiver;
     Some (if tss_state r AND RECEIVING = 0 then False
           else if receivingFrom r = ANYPROC then True
           else receivingFrom r = sender)
   }"

text \<open>
  The scan of \<open>remove_from_senders_list\<close>: the predecessor of \<open>sender\<close> on the chain, \<open>NULL\<close> when
  it is the first.
\<close>

partial_function (option) sender_before :: "(ptr \<rightharpoonup> tss) \<Rightarrow> ptr \<Rightarrow> ptr \<Rightarrow> ptr \<Rightarrow> ptr option" where
  "sender_before h sender previous cur =
     (if cur = sender then Some previous
      else do { c \<leftarrow> h cur; sender_before h sender cur (nextSender c) })"

definition remove_from_senders_list :: "ptr \<Rightarrow> ptr \<Rightarrow> kstate \<Rightarrow> kstate option" where
  "remove_from_senders_list sender receiver s = do {
     r \<leftarrow> tsss s receiver;
     previous \<leftarrow> sender_before (tsss s) sender NULL (firstSender r);
     sd \<leftarrow> tsss s sender;
     s \<leftarrow> (if previous = NULL
           then tss_upd receiver (\<lambda>r. r\<lparr>firstSender := nextSender sd\<rparr>) s
           else tss_upd previous (\<lambda>pv. pv\<lparr>nextSender := nextSender sd\<rparr>) s);
     s \<leftarrow> tss_upd sender (\<lambda>sd. sd\<lparr>nextSender := NULL\<rparr>) s;
     unsetStateFlag sender SENDING s
   }"

definition mark_as_receiving_from :: "ptr \<Rightarrow> ptr \<Rightarrow> kstate \<Rightarrow> kstate option" where
  "mark_as_receiving_from receiver sender s = do {
     s \<leftarrow> tss_upd receiver (\<lambda>r. r\<lparr>receivingFrom := sender\<rparr>) s;
     setStateFlag receiver RECEIVING s
   }"

definition clear_receiving_from :: "ptr \<Rightarrow> kstate \<Rightarrow> kstate option" where
  "clear_receiving_from receiver s = do {
     s \<leftarrow> tss_upd receiver (\<lambda>r. r\<lparr>receivingFrom := NULL\<rparr>) s;
     unsetStateFlag receiver RECEIVING s
   }"

text \<open>The walk to the end of a chain: the last process on it, or \<open>previous\<close> when it is empty.\<close>

partial_function (option) last_sender :: "(ptr \<rightharpoonup> tss) \<Rightarrow> ptr \<Rightarrow> ptr \<Rightarrow> ptr option" where
  "last_sender h previous cur =
     (if cur = NULL then Some previous
      else do { c \<leftarrow> h cur; last_sender h cur (nextSender c) })"

definition add_to_senders_list :: "ptr \<Rightarrow> ptr \<Rightarrow> kstate \<Rightarrow> kstate option" where
  "add_to_senders_list sender receiver s = do {
     r \<leftarrow> tsss s receiver;
     previous \<leftarrow> last_sender (tsss s) NULL (firstSender r);
     s \<leftarrow> (if previous \<noteq> NULL
           then tss_upd previous (\<lambda>pv. pv\<lparr>nextSender := sender\<rparr>) s
           else tss_upd receiver (\<lambda>r. r\<lparr>firstSender := sender\<rparr>) s);
     s \<leftarrow> tss_upd sender (\<lambda>sd. sd\<lparr>nextSender := NULL\<rparr>) s;
     setStateFlag sender SENDING s
   }"

section \<open>Features\<close>

text \<open>
  A feature is a 32-bit word with one bit set; its index into \<open>featureTable\<close> is the number of
  that bit.  Indexing the table out of its range is the value \<open>None\<close>.
\<close>

partial_function (option) feature_scan :: "u32 \<Rightarrow> u32 \<Rightarrow> nat \<Rightarrow> nat option" where
  "feature_scan feature bitmask idx =
     (if bitmask AND feature \<noteq> bitmask then feature_scan feature (push_bit 1 bitmask) (idx + 1)
      else Some idx)"

definition feature_slot :: "u32 \<Rightarrow> kstate \<Rightarrow> (nat \<times> feature_t) option" where
  "feature_slot feature s = do {
     idx \<leftarrow> feature_scan feature 1 0;
     if idx < length (featureTable s) then Some (idx, featureTable s ! idx) else None
   }"

partial_function (option) check_scan :: "u32 \<Rightarrow> u32 \<Rightarrow> u8 \<Rightarrow> u8 option" where
  "check_scan feature bitmask found =
     (if bitmask = 0 then Some found
      else let found = (if feature AND bitmask \<noteq> 0 then found + 1 else found)
           in if 1 < found then Some found
              else check_scan feature (push_bit 1 bitmask) found)"

definition check_feature :: "u32 \<Rightarrow> int option" where
  "check_feature feature = do {
     found \<leftarrow> check_scan feature 1 0;
     Some (if found = 1 then 0 else - 1)
   }"

definition add_waiting_for_feature :: "ptr \<Rightarrow> u32 \<Rightarrow> kstate \<Rightarrow> kstate option" where
  "add_waiting_for_feature process feature s = do {
     (idx, slot) \<leftarrow> feature_slot feature s;
     previous \<leftarrow> last_sender (tsss s) NULL (waiter slot);
     s \<leftarrow> (if previous \<noteq> NULL
           then tss_upd previous (\<lambda>pv. pv\<lparr>nextSender := process\<rparr>) s
           else Some (s\<lparr>featureTable := (featureTable s)[idx := slot\<lparr>waiter := process\<rparr>]\<rparr>));
     tss_upd process (\<lambda>t. t\<lparr>nextSender := NULL\<rparr>) s
   }"

definition set_feature :: "ptr \<Rightarrow> u32 \<Rightarrow> kstate \<Rightarrow> (int \<times> kstate) option" where
  "set_feature process feature s = do {
     (idx, slot) \<leftarrow> feature_slot feature s;
     if supplier slot \<noteq> NULL then Some (1, s)
     else do {
       let s = s\<lparr>featureTable := (featureTable s)[idx := slot\<lparr>supplier := process\<rparr>]\<rparr>;
       s \<leftarrow> tss_upd process (\<lambda>t. t\<lparr>firstSender := waiter slot\<rparr>) s;
       let s = s\<lparr>featureTable := (featureTable s)[idx := \<lparr>supplier = process, waiter = NULL\<rparr>]\<rparr>;
       Some (0, s)
     }
   }"

definition get_process_by_feature :: "u32 \<Rightarrow> kstate \<Rightarrow> ptr option" where
  "get_process_by_feature feature s = do {
     (idx, slot) \<leftarrow> feature_slot feature s;
     Some (supplier slot)
   }"

section \<open>A process ends\<close>

definition release_irqs_taken :: "ptr \<Rightarrow> kstate \<Rightarrow> kstate" where
  "release_irqs_taken process s =
     s\<lparr>irqs := fold (\<lambda>i irqs. if irqs ! i = process then irqs[i := NULL] else irqs) [0..<MAX_IRQ] (irqs s)\<rparr>"

partial_function (option) unblock_waiting_senders :: "ptr \<Rightarrow> kstate \<Rightarrow> kstate option" where
  "unblock_waiting_senders process s = do {
     t \<leftarrow> tsss s process;
     if firstSender t = NULL then Some s
     else do {
       let cur = firstSender t;
       s \<leftarrow> set_err cur PROCESSDIED s;
       s \<leftarrow> unsetStateFlag cur SENDING s;
       c \<leftarrow> tsss s cur;
       s \<leftarrow> tss_upd process (\<lambda>t. t\<lparr>firstSender := nextSender c\<rparr>) s;
       s \<leftarrow> tss_upd cur (\<lambda>c. c\<lparr>nextSender := NULL\<rparr>) s;
       unblock_waiting_senders process s
     }
   }"

section \<open>The copy of a message\<close>

text \<open>
  The limit check compares with the sum of address and size, which wraps around at 32 bits.
\<close>

definition validate_data_area :: "tss \<Rightarrow> memory \<Rightarrow> u32 \<Rightarrow> u32 \<Rightarrow> u32" where
  "validate_data_area process m addr bytes =
     (let index = ucast (ds_reg process) AND 0xfff8
      in if get_limit m index < addr + bytes then - 1 else 0)"

function copy_dwords :: "u32 \<Rightarrow> u32 \<Rightarrow> u32 \<Rightarrow> memory \<Rightarrow> u32 \<times> u32 \<times> u32 \<times> memory" where
  "copy_dwords ecx edi esi m =
     (if 3 < ecx then copy_dwords (ecx - 4) (edi + 4) (esi + 4) (wr32 esi (rd32 m edi) m)
      else (ecx, edi, esi, m))"
  by pat_completeness auto

termination copy_dwords
proof (relation "measure (\<lambda>(ecx, edi, esi, m). unat ecx)")
  fix ecx edi esi :: u32 and m
  assume "3 < ecx"
  then have "unat (ecx - 4) < unat ecx" by (simp add: word_less_nat_alt unat_sub word_le_nat_alt)
  then show "((ecx - 4, edi + 4, esi + 4, wr32 esi (rd32 m edi) m), (ecx, edi, esi, m))
      \<in> measure (\<lambda>(ecx, edi, esi, m). unat ecx)" by simp
qed simp

declare copy_dwords.simps [simp del]

definition copy_bytes :: "u32 \<Rightarrow> u32 \<Rightarrow> u32 \<Rightarrow> memory \<Rightarrow> memory" where
  "copy_bytes ecx edi esi m =
     (let (ecx, edi, esi, m) = copy_dwords ecx edi esi m;
          (ecx, edi, esi, m) = (if 1 < ecx then (ecx - 2, edi + 2, esi + 2, wr16 esi (rd16 m edi) m)
                                else (ecx, edi, esi, m))
      in if 0 < ecx then m(esi := m edi) else m)"

text \<open>Here \<open>esi\<close> addresses the receiver's buffer and \<open>edi\<close> the sender's, as in the source.\<close>

definition exchange_data :: "ptr \<Rightarrow> ptr \<Rightarrow> kstate \<Rightarrow> (u32 \<times> kstate) option" where
  "exchange_data sender receiver s = do {
     a \<leftarrow> tsss s sender;
     b \<leftarrow> tsss s receiver;
     let ecx = (if ecx_reg b < ecx_reg a then ecx_reg b else ecx_reg a);
     let esi = get_base (mem s) (ucast (ds_reg b) AND 0xfff8) + edx_reg b;
     let edi = get_base (mem s) (ucast (ds_reg a) AND 0xfff8) + edx_reg a;
     s \<leftarrow> tss_upd sender (\<lambda>a. a\<lparr>eax_reg := ecx\<rparr>) s;
     s \<leftarrow> tss_upd receiver (\<lambda>b. b\<lparr>eax_reg := ecx\<rparr>) s;
     Some (ecx, s\<lparr>mem := copy_bytes ecx edi esi (mem s)\<rparr>)
   }"

end
