(* ===== verification/MK_Runqueue.thy ===== *)
theory MK_Runqueue
  imports MK_Sched
begin

text \<open>
  The invariant of the run queue and its preservation.  \<open>score\<close> is everything the scheduler
  never touches; \<open>chain_inv\<close> says that the queue is the chain \<open>qs\<close> through the task-state
  segments, ordered by falling ticks and with their sum in the queue's header; \<open>flags_inv\<close>
  says that the \<open>ENQUEUED\<close> flag marks exactly its members.  \<open>enqueue_Some\<close> and
  \<open>dequeue_Some\<close> show that the operations return and keep both.
\<close>

section \<open>What the scheduler never touches\<close>

definition core :: "tss \<Rightarrow> tss" where
  "core t = t\<lparr>tss_next := NULL, tss_previous := NULL, misc := 0, ticksleft := 0\<rparr>"

definition score :: "kstate \<Rightarrow> kstate" where
  "score s = s\<lparr>tsss := (\<lambda>p. map_option core (tsss s p)),
               schedqueue := \<lparr>sq_head = NULL, sq_ticksleft = 0, sq_schedticks = 0\<rparr>,
               curptr := NULL, nextptr := NULL\<rparr>"

lemma core_upd [simp]:
  "core (t\<lparr>tss_next := a\<rparr>) = core t" "core (t\<lparr>tss_previous := a\<rparr>) = core t"
  "core (t\<lparr>misc := b\<rparr>) = core t" "core (t\<lparr>ticksleft := c\<rparr>) = core t"
  by (simp_all add: core_def)

lemma score_upd [simp]:
  "score (s\<lparr>schedqueue := q\<rparr>) = score s" "score (s\<lparr>curptr := p\<rparr>) = score s"
  "score (s\<lparr>nextptr := p\<rparr>) = score s" "score (set_head p s) = score s"
  by (simp_all add: score_def set_head_def)

lemma score_tsss:
  "tsss s p = Some t \<Longrightarrow> core t' = core t \<Longrightarrow> score (s\<lparr>tsss := (tsss s)(p \<mapsto> t')\<rparr>) = score s"
  by (auto simp: score_def fun_eq_iff)

lemma score_eqD:
  assumes "score s' = score s"
  shows "dom (tsss s') = dom (tsss s)" "featureTable s' = featureTable s" "irqs s' = irqs s"
    "port_accessers s' = port_accessers s" "mem s' = mem s" "gdt_limit s' = gdt_limit s"
    "io_trace s' = io_trace s" "console s' = console s" "idlestate s' = idlestate s"
    "intrrptstate s' = intrrptstate s" "pproctab s' = pproctab s"
    "hours s' = hours s" "minutes s' = minutes s" "seconds s' = seconds s"
    "gdtBitmap s' = gdtBitmap s" "pidBitmap s' = pidBitmap s" "pproctab_end s' = pproctab_end s"
proof -
  have "map_option core (tsss s' p) = map_option core (tsss s p)" for p
    using arg_cong [OF assms, of "\<lambda>s. tsss s p"] by (simp add: score_def)
  then show "dom (tsss s') = dom (tsss s)"
    by (auto simp: dom_def) (metis map_option_is_None option.exhaust not_None_eq)+
qed (use arg_cong [OF assms, of featureTable] arg_cong [OF assms, of irqs]
  arg_cong [OF assms, of port_accessers] arg_cong [OF assms, of mem]
  arg_cong [OF assms, of gdt_limit] arg_cong [OF assms, of io_trace]
  arg_cong [OF assms, of console] arg_cong [OF assms, of idlestate]
  arg_cong [OF assms, of intrrptstate] arg_cong [OF assms, of pproctab]
  arg_cong [OF assms, of hours] arg_cong [OF assms, of minutes]
  arg_cong [OF assms, of seconds] arg_cong [OF assms, of gdtBitmap]
  arg_cong [OF assms, of pidBitmap] arg_cong [OF assms, of pproctab_end]
  in \<open>simp_all add: score_def\<close>)

lemma score_core:
  assumes "score s' = score s" and "tsss s p = Some t"
  obtains t' where "tsss s' p = Some t'" and "core t' = core t"
  using arg_cong [OF assms(1), of "\<lambda>s. tsss s p"] assms(2) by (auto simp: score_def)

lemma fld_via:
  assumes "map_option g (tsss s' p) = map_option g (tsss s p)" and "\<And>t. f t = h (g t)"
  shows "fld f s' p = fld f s p"
  using assms by (cases "tsss s p"; cases "tsss s' p") (auto simp: fld_def)

lemma score_fld:
  assumes "score s' = score s" and "\<And>t. f t = f (core t)"
  shows "fld f s' = fld f s"
proof
  fix p
  have "map_option core (tsss s' p) = map_option core (tsss s p)"
    using arg_cong [OF assms(1), of "\<lambda>s. tsss s p"] by (simp add: score_def)
  then show "fld f s' p = fld f s p" using assms(2) by (rule fld_via)
qed

lemma score_flds:
  assumes "score s' = score s"
  shows "fld tss_state s' = fld tss_state s" "fld schedticks s' = fld schedticks s"
    "fld firstSender s' = fld firstSender s" "fld nextSender s' = fld nextSender s"
    "fld receivingFrom s' = fld receivingFrom s" "fld esi_reg s' = fld esi_reg s"
    "fld eax_reg s' = fld eax_reg s" "fld ebx_reg s' = fld ebx_reg s"
    "fld ecx_reg s' = fld ecx_reg s" "fld edx_reg s' = fld edx_reg s"
    "fld edi_reg s' = fld edi_reg s" "fld ds_reg s' = fld ds_reg s"
    "fld interrupts s' = fld interrupts s" "fld idx_tss s' = fld idx_tss s"
  by (rule score_fld [OF assms]; simp add: core_def)+

section \<open>The run queue's invariant\<close>

definition link_ok :: "ptr set \<Rightarrow> (ptr \<Rightarrow> ptr) \<Rightarrow> bool" where
  "link_ok D g \<longleftrightarrow> (\<forall>p \<in> D. g p = NULL \<or> g p \<noteq> p \<and> g p \<in> D)"

lemma link_ok_upd:
  "link_ok D g \<Longrightarrow> a = NULL \<or> a \<noteq> q \<and> a \<in> D \<Longrightarrow> link_ok D (g(q := a))"
  by (simp add: link_ok_def)

lemma link_okD: "link_ok D g \<Longrightarrow> p \<in> D \<Longrightarrow> g p = NULL \<or> g p \<noteq> p \<and> g p \<in> D"
  by (simp add: link_ok_def)

definition links_ok :: "kstate \<Rightarrow> bool" where
  "links_ok s \<longleftrightarrow>
     link_ok (dom (tsss s)) (fld tss_next s) \<and> link_ok (dom (tsss s)) (fld tss_previous s)"

definition ticks_bounded :: "kstate \<Rightarrow> bool" where
  "ticks_bounded s \<longleftrightarrow> (\<Sum>p \<in> set (pproctab s). unat (fld schedticks s p)) < 2 ^ 32"

definition falling :: "kstate \<Rightarrow> ptr list \<Rightarrow> bool" where
  "falling s = sorted_wrt (\<lambda>a b. fld schedticks s b \<le> fld schedticks s a)"

definition chain_inv :: "kstate \<Rightarrow> ptr list \<Rightarrow> bool" where
  "chain_inv s qs \<longleftrightarrow>
     tsss s NULL = None \<and> idlestate s \<in> dom (tsss s) \<and> idlestate s \<notin> set (pproctab s) \<and>
     set (pproctab s) \<subseteq> dom (tsss s) \<and> set qs \<subseteq> set (pproctab s) \<and> distinct qs \<and>
     dlseg (fld tss_previous s) (fld tss_next s) NULL (sq_head (schedqueue s)) qs NULL \<and>
     links_ok s \<and> falling s qs \<and>
     sq_schedticks (schedqueue s) = sum_list (map (fld schedticks s) qs) \<and>
     (\<forall>p \<in> set qs. 0 < fld schedticks s p) \<and> ticks_bounded s"

definition flags_inv :: "kstate \<Rightarrow> ptr list \<Rightarrow> bool" where
  "flags_inv s qs \<longleftrightarrow> (\<forall>p \<in> dom (tsss s). fld enqueued s p \<longleftrightarrow> p \<in> set qs)"

definition sched_inv :: "kstate \<Rightarrow> ptr list \<Rightarrow> bool" where
  "sched_inv s qs \<longleftrightarrow> chain_inv s qs \<and> flags_inv s qs"

text \<open>The invariant reads only four fields of a task-state segment.\<close>

definition sview :: "tss \<Rightarrow> ptr \<times> ptr \<times> u32" where
  "sview t = (tss_previous t, tss_next t, schedticks t)"

lemma sview_flds:
  assumes "\<And>p. map_option sview (tsss s' p) = map_option sview (tsss s p)"
  shows "fld tss_previous s' = fld tss_previous s" "fld tss_next s' = fld tss_next s"
    "fld schedticks s' = fld schedticks s" "dom (tsss s') = dom (tsss s)"
    "links_ok s' = links_ok s"
proof -
  show p: "fld tss_previous s' = fld tss_previous s"
    by (rule ext, rule fld_via [OF assms, of _ fst]) (simp add: sview_def)
  show n: "fld tss_next s' = fld tss_next s"
    by (rule ext, rule fld_via [OF assms, of _ "fst \<circ> snd"]) (simp add: sview_def)
  show "fld schedticks s' = fld schedticks s"
    by (rule ext, rule fld_via [OF assms, of _ "snd \<circ> snd"]) (simp add: sview_def)
  have "(tsss s' p = None) = (tsss s p = None)" for p
    using assms [of p] by (metis map_option_is_None)
  then show d: "dom (tsss s') = dom (tsss s)" by (simp add: dom_def)
  show "links_ok s' = links_ok s"
    by (simp add: links_ok_def d p n)
qed

lemma chain_inv_sview:
  assumes "\<And>p. map_option sview (tsss s' p) = map_option sview (tsss s p)"
    and "sq_head (schedqueue s') = sq_head (schedqueue s)"
    and "sq_schedticks (schedqueue s') = sq_schedticks (schedqueue s)"
    and "idlestate s' = idlestate s" and "pproctab s' = pproctab s"
  shows "chain_inv s' qs = chain_inv s qs"
proof -
  have "(tsss s' NULL = None) = (tsss s NULL = None)"
    using assms(1) [of NULL] by (metis map_option_is_None)
  then show ?thesis
    using sview_flds [OF assms(1)] assms(2-)
    by (simp add: chain_inv_def ticks_bounded_def falling_def)
qed

lemma chain_inv_tss:
  assumes "tsss s p = Some t" and "sview t' = sview t"
  shows "chain_inv (s\<lparr>tsss := (tsss s)(p \<mapsto> t')\<rparr>) qs = chain_inv s qs"
  using assms by (intro chain_inv_sview) auto

lemma chain_inv_upd [simp]:
  "chain_inv (s\<lparr>curptr := a\<rparr>) qs = chain_inv s qs"
  "chain_inv (s\<lparr>nextptr := a\<rparr>) qs = chain_inv s qs"
  "chain_inv (s\<lparr>schedqueue := (schedqueue s)\<lparr>sq_ticksleft := b\<rparr>\<rparr>) qs = chain_inv s qs"
  by (intro chain_inv_sview; simp)+

lemma chain_inv_dom: "chain_inv s qs \<Longrightarrow> p \<in> set qs \<Longrightarrow> \<exists>t. tsss s p = Some t"
  by (auto simp: chain_inv_def)

lemma chain_inv_nonnull: "chain_inv s qs \<Longrightarrow> p \<in> set qs \<Longrightarrow> p \<noteq> NULL \<and> p \<noteq> idlestate s"
  by (auto simp: chain_inv_def)

lemma chain_inv_head: "chain_inv s qs \<Longrightarrow> sq_head (schedqueue s) = hd (qs @ [NULL])"
  by (auto simp: chain_inv_def dest: dlseg_start)

lemma chain_inv_neighbours:
  assumes "chain_inv s (xs @ p # ys)" and "tsss s p = Some t"
  shows "tss_next t = hd (ys @ [NULL])" and "tss_previous t = last (NULL # xs)"
  using assms by (auto simp: chain_inv_def fld_def dest!: dlseg_nx_split)

lemma chain_inv_sum:
  assumes "chain_inv s qs"
  shows "unat (sq_schedticks (schedqueue s)) = sum_list (map (\<lambda>p. unat (fld schedticks s p)) qs)"
proof -
  have "sum_list (map (\<lambda>p. unat (fld schedticks s p)) qs) = (\<Sum>p \<in> set qs. unat (fld schedticks s p))"
    using assms by (simp add: chain_inv_def sum_list_distinct_conv_sum_set)
  also have "\<dots> \<le> (\<Sum>p \<in> set (pproctab s). unat (fld schedticks s p))"
    using assms by (intro sum_mono2) (auto simp: chain_inv_def)
  finally have "sum_list (map (\<lambda>p. unat (fld schedticks s p)) qs) < 2 ^ 32"
    using assms by (simp add: chain_inv_def ticks_bounded_def)
  then show ?thesis
    using assms word_sum_list_unat [of "fld schedticks s" qs] by (simp add: chain_inv_def)
qed

text \<open>A process whose ticks are all the ticks of the queue is alone in it.\<close>

lemma chain_inv_alone:
  assumes inv: "chain_inv s qs" and p: "p \<in> set qs"
    and eq: "sq_schedticks (schedqueue s) = fld schedticks s p"
  shows "qs = [p]"
proof -
  let ?u = "\<lambda>p. unat (fld schedticks s p)"
  from p obtain xs ys where qs: "qs = xs @ p # ys" by (meson split_list)
  have "sum_list (map ?u qs) = ?u p" using chain_inv_sum [OF inv] eq by simp
  then have "sum_list (map ?u (xs @ ys)) = 0" by (simp add: qs)
  then have "\<forall>x \<in> set (xs @ ys). ?u x = 0" by (simp only: sum_list_eq_0_iff set_map) blast
  moreover have "\<forall>x \<in> set (xs @ ys). 0 < ?u x"
    using inv qs by (auto simp: chain_inv_def unat_gt_0 word_gt_0)
  ultimately have "\<forall>x \<in> set (xs @ ys). False" by (metis less_irrefl)
  then have "xs = []" and "ys = []" by (cases xs; cases ys; simp)+
  then show ?thesis by (simp add: qs)
qed

section \<open>Ticks and the next process\<close>

text \<open>Everything except the remaining ticks, the current and the next process.\<close>

definition tcore :: "kstate \<Rightarrow> kstate" where
  "tcore s = s\<lparr>tsss := (\<lambda>p. map_option (\<lambda>t. t\<lparr>ticksleft := 0\<rparr>) (tsss s p)),
               schedqueue := (schedqueue s)\<lparr>sq_ticksleft := 0\<rparr>,
               curptr := NULL, nextptr := NULL\<rparr>"

lemma tcore_upd [simp]:
  "tcore (s\<lparr>curptr := p\<rparr>) = tcore s" "tcore (s\<lparr>nextptr := p\<rparr>) = tcore s"
  "tcore (s\<lparr>schedqueue := (schedqueue s)\<lparr>sq_ticksleft := n\<rparr>\<rparr>) = tcore s"
  by (simp_all add: tcore_def)

lemma tcore_tsss:
  "tsss s p = Some t \<Longrightarrow>
     tcore (s\<lparr>tsss := (tsss s)(p \<mapsto> t\<lparr>ticksleft := n\<rparr>)\<rparr>) = tcore s"
  by (auto simp: tcore_def fun_eq_iff)

lemma tcore_map:
  assumes "tcore s' = tcore s" and "\<And>t. f t = f (t\<lparr>ticksleft := 0\<rparr>)"
  shows "map_option f (tsss s' p) = map_option f (tsss s p)"
proof -
  have "map_option (\<lambda>t. t\<lparr>ticksleft := 0\<rparr>) (tsss s' p) =
        map_option (\<lambda>t. t\<lparr>ticksleft := 0\<rparr>) (tsss s p)"
    using arg_cong [OF assms(1), of "\<lambda>s. tsss s p"] by (simp add: tcore_def)
  then have "map_option (\<lambda>t. f (t\<lparr>ticksleft := 0\<rparr>)) (tsss s' p) =
             map_option (\<lambda>t. f (t\<lparr>ticksleft := 0\<rparr>)) (tsss s p)"
    by (cases "tsss s p"; cases "tsss s' p") (auto dest!: arg_cong [of _ _ f])
  then show ?thesis using assms(2) by (cases "tsss s p"; cases "tsss s' p") auto
qed

lemma tcore_fld:
  assumes "tcore s' = tcore s" and "\<And>t. f t = f (t\<lparr>ticksleft := 0\<rparr>)"
  shows "fld f s' = fld f s"
proof
  fix p
  have "map_option f (tsss s' p) = map_option f (tsss s p)"
    using assms by (rule tcore_map)
  then show "fld f s' p = fld f s p" by (rule fld_via [where h = id]) simp
qed

lemma tcore_score: "tcore s' = tcore s \<Longrightarrow> score s' = score s"
proof -
  assume a: "tcore s' = tcore s"
  have "score s = score (tcore s)" for s
    by (simp add: score_def tcore_def option.map_comp comp_def core_def [abs_def])
  then show ?thesis using a by metis
qed

lemma tcore_sq:
  assumes "tcore s' = tcore s"
  shows "sq_head (schedqueue s') = sq_head (schedqueue s)"
    "sq_schedticks (schedqueue s') = sq_schedticks (schedqueue s)"
  using arg_cong [OF assms, of "\<lambda>s. sq_head (schedqueue s)"]
    arg_cong [OF assms, of "\<lambda>s. sq_schedticks (schedqueue s)"]
  by (simp_all add: tcore_def)

lemma tcore_chain_inv: "tcore s' = tcore s \<Longrightarrow> chain_inv s' qs = chain_inv s qs"
proof (rule chain_inv_sview)
  assume a: "tcore s' = tcore s"
  show "map_option sview (tsss s' p) = map_option sview (tsss s p)" for p
    using a by (rule tcore_map) (simp add: sview_def)
next
  assume a: "tcore s' = tcore s"
  show "sq_head (schedqueue s') = sq_head (schedqueue s)"
    "sq_schedticks (schedqueue s') = sq_schedticks (schedqueue s)"
    "idlestate s' = idlestate s" "pproctab s' = pproctab s"
    by (rule tcore_sq [OF a] score_eqD [OF tcore_score [OF a]])+
qed

lemma tcore_flags_inv:
  assumes "tcore s' = tcore s"
  shows "flags_inv s' qs = flags_inv s qs"
proof -
  have "fld enqueued s' = fld enqueued s"
    using assms by (rule tcore_fld) simp
  then show ?thesis
    using score_eqD(1) [OF tcore_score [OF assms]] by (simp add: flags_inv_def)
qed

lemma tcore_sched_inv:
  assumes "tcore s' = tcore s"
  shows "sched_inv s' qs = sched_inv s qs"
  using tcore_chain_inv [OF assms] tcore_flags_inv [OF assms] by (simp add: sched_inv_def)

definition current_ok :: "kstate \<Rightarrow> ptr list \<Rightarrow> bool" where
  "current_ok s qs \<longleftrightarrow> (let last = if nextptr s = NULL then curptr s else nextptr s in
     last = NULL \<or> last = idlestate s \<or> last \<in> set qs)"

lemma charge_process_Some:
  assumes "curptr s \<noteq> idlestate s \<Longrightarrow> curptr s \<in> dom (tsss s)"
  shows "\<exists>s'. charge_process s = Some s' \<and> tcore s' = tcore s \<and>
    curptr s' = curptr s \<and> nextptr s' = nextptr s \<and>
    (curptr s \<noteq> idlestate s \<longrightarrow>
       fld ticksleft s' = (fld ticksleft s)(curptr s := fld ticksleft s (curptr s) - 1))"
proof (cases "curptr s = idlestate s")
  case True
  then show ?thesis by (simp add: charge_process_def)
next
  case False
  then obtain t where t: "tsss s (curptr s) = Some t" using assms by auto
  let ?s = "s\<lparr>tsss := (tsss s)(curptr s \<mapsto> t\<lparr>ticksleft := ticksleft t - 1\<rparr>)\<rparr>"
  let ?s' = "?s\<lparr>schedqueue := (schedqueue ?s)\<lparr>sq_ticksleft := sq_ticksleft (schedqueue s) - 1\<rparr>\<rparr>"
  have "charge_process s = Some ?s'"
    using False t by (simp add: charge_process_def tss_upd_def)
  moreover have "tcore ?s' = tcore s"
    using tcore_tsss [OF t] by (simp only: tcore_upd)
  moreover have "fld ticksleft ?s' = (fld ticksleft s)(curptr s := fld ticksleft s (curptr s) - 1)"
    by (auto simp: fld_def t)
  ultimately show ?thesis by (intro exI [of _ ?s']) simp
qed

lemma next_is_head_Some:
  assumes inv: "chain_inv s qs" and ne: "qs \<noteq> []"
  obtains s' where "next_is_head s = Some s'" "tcore s' = tcore s" "curptr s' = curptr s"
    "nextptr s' = hd qs" "schedqueue s' = schedqueue s"
    "fld ticksleft s' = (fld ticksleft s)(hd qs :=
       (if fld ticksleft s (hd qs) = 0 then fld schedticks s (hd qs) else fld ticksleft s (hd qs)))"
proof -
  have h: "sq_head (schedqueue s) = hd qs"
    using chain_inv_head [OF inv] ne by simp
  obtain t where t: "tsss s (hd qs) = Some t"
    using chain_inv_dom [OF inv] ne hd_in_set by blast
  let ?s = "s\<lparr>nextptr := hd qs\<rparr>"
  let ?s' = "if ticksleft t = 0 then ?s\<lparr>tsss := (tsss ?s)(hd qs \<mapsto> t\<lparr>ticksleft := schedticks t\<rparr>)\<rparr> else ?s"
  have "next_is_head s = Some ?s'"
    using t h by (simp add: next_is_head_def tss_upd_def)
  moreover have "tcore ?s' = tcore s"
    using tcore_tsss [of ?s "hd qs" t] t by simp
  moreover have "fld ticksleft ?s' = (fld ticksleft s)(hd qs :=
       (if fld ticksleft s (hd qs) = 0 then fld schedticks s (hd qs) else fld ticksleft s (hd qs)))"
    by (auto simp: fld_def t)
  ultimately show ?thesis using that [of ?s'] by simp
qed

text \<open>The next process is one of the queue, or the idle task when the queue is empty.\<close>

lemma pick_next_proc_empty:
  "chain_inv s [] \<Longrightarrow> pick_next_proc s = Some (s\<lparr>nextptr := idlestate s\<rparr>)"
  by (auto simp: pick_next_proc_def dest!: chain_inv_head)

lemma pick_next_proc_Some:
  assumes inv: "chain_inv s qs" and ne: "qs \<noteq> []" and cur: "current_ok s qs"
  shows "\<exists>s'. pick_next_proc s = Some s' \<and> tcore s' = tcore s \<and> curptr s' = curptr s \<and>
    schedqueue s' = schedqueue s \<and> nextptr s' \<in> set qs"
proof -
  have h: "sq_head (schedqueue s) = hd qs" "hd qs \<noteq> NULL" "hd qs \<in> set qs"
    using chain_inv_head [OF inv] ne chain_inv_nonnull [OF inv, of "hd qs"] by auto
  define last where "last = (if nextptr s = NULL then curptr s else nextptr s)"
  obtain n where n: "next_is_head s = Some n" "tcore n = tcore s" "curptr n = curptr s"
      "nextptr n = hd qs" "schedqueue n = schedqueue s"
    by (rule next_is_head_Some [OF inv ne])
  show ?thesis
  proof (cases "last = NULL \<or> last = idlestate s")
    case True
    then have "pick_next_proc s = Some (s\<lparr>nextptr := hd qs\<rparr>)"
      using h by (auto simp: pick_next_proc_def last_def [symmetric] Let_def)
    then show ?thesis using h by simp
  next
    case False
    then have "last \<in> set qs"
      using cur by (auto simp: current_ok_def last_def Let_def)
    then obtain xs ys where qs: "qs = xs @ last # ys" by (meson split_list)
    obtain l where l: "tsss s last = Some l"
      using chain_inv_dom [OF inv \<open>last \<in> set qs\<close>] by blast
    have nx: "tss_next l = hd (ys @ [NULL])"
      using chain_inv_neighbours(1) inv l qs by blast
    show ?thesis
    proof (cases "tss_next l = NULL")
      case True
      then have "pick_next_proc s = next_is_head s"
        using h l False by (simp add: pick_next_proc_def last_def [symmetric])
      with n h show ?thesis by simp
    next
      case nn: False
      then have in_ys: "tss_next l \<in> set qs" using nx qs by (cases ys) auto
      then obtain m where m: "tsss s (tss_next l) = Some m"
        using chain_inv_dom [OF inv] by blast
      have eq: "pick_next_proc s =
        (if ticksleft l = schedticks l - 1 then
           Some (s\<lparr>nextptr := tss_next l, tsss := (tsss s)(tss_next l \<mapsto> m\<lparr>ticksleft := schedticks m\<rparr>)\<rparr>)
         else if vtrr_is_eligible (schedqueue s) l m then Some (s\<lparr>nextptr := tss_next l\<rparr>)
         else next_is_head s)"
        using h l False nn m
        by (simp add: pick_next_proc_def last_def [symmetric] tss_upd_def)
      let ?a = "s\<lparr>nextptr := tss_next l\<rparr>"
      have "tcore (?a\<lparr>tsss := (tsss ?a)(tss_next l \<mapsto> m\<lparr>ticksleft := schedticks m\<rparr>)\<rparr>) = tcore ?a"
        by (rule tcore_tsss) (simp add: m)
      then have "tcore (s\<lparr>nextptr := tss_next l,
            tsss := (tsss s)(tss_next l \<mapsto> m\<lparr>ticksleft := schedticks m\<rparr>)\<rparr>) = tcore s"
        by simp
      with eq n in_ys h show ?thesis
        by (cases "ticksleft l = schedticks l - 1"; cases "vtrr_is_eligible (schedqueue s) l m") simp_all
    qed
  qed
qed

text \<open>
  The process just charged is picked again only when it is the head and has not used the
  first tick of its turn.
\<close>

lemma pick_next_proc_same:
  assumes inv: "chain_inv s qs" and p: "p \<in> set qs" "qs \<noteq> [p]"
    and cur: "(if nextptr s = NULL then curptr s else nextptr s) = p"
    and pick: "pick_next_proc s = Some s'" "nextptr s' = p"
  shows "fld ticksleft s p \<noteq> fld schedticks s p - 1 \<and>
    fld ticksleft s' p = (if fld ticksleft s p = 0 then fld schedticks s p else fld ticksleft s p)"
proof -
  from p(1) obtain xs ys where qs: "qs = xs @ p # ys" by (meson split_list)
  have ne: "qs \<noteq> []" using qs by simp
  have h: "sq_head (schedqueue s) = hd qs" "hd qs \<noteq> NULL"
    using chain_inv_head [OF inv] ne chain_inv_nonnull [OF inv, of "hd qs"] by auto
  have pn: "p \<noteq> NULL" "p \<noteq> idlestate s" using chain_inv_nonnull [OF inv p(1)] by auto
  obtain t where t: "tsss s p = Some t" using chain_inv_dom [OF inv p(1)] by blast
  have nx: "tss_next t = hd (ys @ [NULL])"
    using chain_inv_neighbours(1) inv t qs by blast
  have dist: "distinct qs" using inv by (simp add: chain_inv_def)
  obtain n where n: "next_is_head s = Some n" "nextptr n = hd qs"
    "fld ticksleft n = (fld ticksleft s)(hd qs :=
       (if fld ticksleft s (hd qs) = 0 then fld schedticks s (hd qs) else fld ticksleft s (hd qs)))"
    by (rule next_is_head_Some [OF inv ne])
  have pne: "tss_next t \<noteq> p" using nx dist qs pn by (cases ys) auto
  have eq: "pick_next_proc s =
    (if tss_next t = NULL then next_is_head s
     else if ticksleft t = schedticks t - 1 then
       tss_upd (tss_next t) (\<lambda>n. n\<lparr>ticksleft := schedticks n\<rparr>) (s\<lparr>nextptr := tss_next t\<rparr>)
     else do {
       m \<leftarrow> tsss s (tss_next t);
       if vtrr_is_eligible (schedqueue s) t m then Some (s\<lparr>nextptr := tss_next t\<rparr>)
       else next_is_head s
     })"
    using h t pn by (simp add: pick_next_proc_def cur [unfolded Let_def])
  have nn: "tss_next t \<noteq> NULL"
  proof
    assume a: "tss_next t = NULL"
    then have "ys = []" using nx chain_inv_nonnull [OF inv] qs by (cases ys) auto
    moreover have "hd qs = p" using eq a n pick by simp
    ultimately show False using qs dist p(2) by (cases xs) auto
  qed
  have tl: "ticksleft t \<noteq> schedticks t - 1"
  proof
    assume "ticksleft t = schedticks t - 1"
    then have "tss_upd (tss_next t) (\<lambda>n. n\<lparr>ticksleft := schedticks n\<rparr>) (s\<lparr>nextptr := tss_next t\<rparr>) = Some s'"
      using eq nn pick by simp
    then have "nextptr s' = tss_next t" by (auto simp: tss_upd_iff)
    with pne pick show False by simp
  qed
  then have "do {
       m \<leftarrow> tsss s (tss_next t);
       if vtrr_is_eligible (schedqueue s) t m then Some (s\<lparr>nextptr := tss_next t\<rparr>)
       else next_is_head s
     } = Some s'"
    using eq nn pick(1) by (simp only: if_False)
  then have "next_is_head s = Some s'"
    using pick pne by (auto split: if_splits)
  with n pick tl t show ?thesis by (auto simp: fld_def)
qed

lemma dequeue_switch_Some:
  assumes "chain_inv s qs" and "p \<in> set qs" and "qs \<noteq> [p]"
    and "curptr s = p" and "nextptr s = NULL \<or> nextptr s = p"
  shows "\<exists>s'. dequeue_switch p s = Some s' \<and> tcore s' = tcore s \<and>
           nextptr s' \<in> set qs - {p} \<and> curptr s' = nextptr s'"
  using assms
proof (induction "unat (fld ticksleft s p - fld schedticks s p)" arbitrary: s rule: less_induct)
  case less
  note inv = less.prems(1)
  have pn: "p \<noteq> NULL" "p \<noteq> idlestate s" using chain_inv_nonnull [OF inv less.prems(2)] by auto
  have "curptr s \<in> dom (tsss s)"
    using chain_inv_dom [OF inv less.prems(2)] less.prems(4) by auto
  then obtain a where a: "charge_process s = Some a" "tcore a = tcore s" "curptr a = curptr s"
      "nextptr a = nextptr s" and a5: "curptr s \<noteq> idlestate s \<longrightarrow>
      fld ticksleft a = (fld ticksleft s)(curptr s := fld ticksleft s (curptr s) - 1)"
    using charge_process_Some [of s] by blast
  have ainv: "chain_inv a qs" using inv by (simp add: tcore_chain_inv [OF a(2)])
  have acur: "(if nextptr a = NULL then curptr a else nextptr a) = p"
    using a less.prems(4,5) by auto
  have "current_ok a qs" using acur less.prems(2) by (simp add: current_ok_def)
  moreover have "qs \<noteq> []" using less.prems(2) by auto
  ultimately obtain b where b: "pick_next_proc a = Some b" "tcore b = tcore a" "nextptr b \<in> set qs"
    using pick_next_proc_Some [OF ainv] by blast
  let ?c = "b\<lparr>curptr := nextptr b\<rparr>"
  have eq: "dequeue_switch p s = (if nextptr b = p then dequeue_switch p ?c else Some ?c)"
    using a b by (subst dequeue_switch.simps) (simp add: Let_def)
  show ?case
  proof (cases "nextptr b = p")
    case False
    with eq a b show ?thesis by auto
  next
    case True
    have fs: "fld schedticks a = fld schedticks s"
      using a(2) by (rule tcore_fld) simp
    have "fld schedticks b = fld schedticks a"
      using b(2) by (rule tcore_fld) simp
    then have fc: "fld schedticks ?c = fld schedticks s" using fs by (simp add: fld_def fun_eq_iff)
    have same: "fld ticksleft a p \<noteq> fld schedticks a p - 1"
        "fld ticksleft b p = (if fld ticksleft a p = 0 then fld schedticks a p else fld ticksleft a p)"
      using pick_next_proc_same [OF ainv less.prems(2,3) acur b(1) True] by auto
    let ?d = "fld ticksleft s p - fld schedticks s p"
    have al: "fld ticksleft a p = fld ticksleft s p - 1" using a5 less.prems(4) pn by simp
    have d0: "?d \<noteq> 0" using same(1) al fs by auto
    have "fld ticksleft ?c p - fld schedticks ?c p = (if fld ticksleft a p = 0 then 0 else ?d - 1)"
      using same(2) al fs fc by (simp add: fld_def fun_eq_iff)
    then have "unat (fld ticksleft ?c p - fld schedticks ?c p) < unat ?d"
      using d0 by (auto simp: unat_minus_one unat_gt_0)
    moreover have "chain_inv ?c qs" using ainv by (simp add: tcore_chain_inv [OF b(2)])
    ultimately have "\<exists>s'. dequeue_switch p ?c = Some s' \<and> tcore s' = tcore ?c \<and>
        nextptr s' \<in> set qs - {p} \<and> curptr s' = nextptr s'"
      using less.hyps [of ?c] less.prems(2,3) True by simp
    with eq True a(2) b(2) show ?thesis by auto
  qed
qed

section \<open>Taking a process out of the queue\<close>

lemma fld_other [simp]:
  "fld f (s\<lparr>schedqueue := q\<rparr>) = fld f s" "fld f (s\<lparr>curptr := p\<rparr>) = fld f s"
  "fld f (s\<lparr>nextptr := p\<rparr>) = fld f s" "fld f (s\<lparr>featureTable := a\<rparr>) = fld f s"
  "fld f (s\<lparr>irqs := b\<rparr>) = fld f s" "fld f (s\<lparr>port_accessers := c\<rparr>) = fld f s"
  "fld f (s\<lparr>mem := d\<rparr>) = fld f s" "fld f (s\<lparr>io_trace := e\<rparr>) = fld f s"
  "fld f (s\<lparr>console := g\<rparr>) = fld f s" "fld f (set_head p s) = fld f s"
  "fld f (s\<lparr>hours := h\<rparr>) = fld f s" "fld f (s\<lparr>minutes := m\<rparr>) = fld f s"
  "fld f (s\<lparr>seconds := m\<rparr>) = fld f s" "fld f (s\<lparr>gdt_limit := k\<rparr>) = fld f s"
  "fld f (s\<lparr>in_kernel := n\<rparr>) = fld f s" "fld f (s\<lparr>flag := n\<rparr>) = fld f s"
  by (simp_all add: fld_def fun_eq_iff set_head_def)

lemma fld_triv: "tsss s p = Some t \<Longrightarrow> (fld f s)(p := f t) = fld f s"
  by (simp add: fun_eq_iff fld_def)

text \<open>Updating one link, or none when the pointer is null.\<close>

lemma upd_next_Some:
  assumes "tsss s p = Some t"
  shows "\<exists>s'. tss_upd p (\<lambda>t. t\<lparr>tss_next := a\<rparr>) s = Some s' \<and> score s' = score s \<and>
    fld tss_next s' = (fld tss_next s)(p := a) \<and> fld tss_previous s' = fld tss_previous s \<and>
    fld enqueued s' = fld enqueued s \<and> fld ticksleft s' = fld ticksleft s \<and>
    schedqueue s' = schedqueue s \<and> curptr s' = curptr s \<and> nextptr s' = nextptr s"
  using score_tsss [OF assms, of "t\<lparr>tss_next := a\<rparr>"]
  by (simp add: tss_upd_Some [OF assms] fld_triv [OF assms])

lemma upd_previous_Some:
  assumes "tsss s p = Some t"
  shows "\<exists>s'. tss_upd p (\<lambda>t. t\<lparr>tss_previous := a\<rparr>) s = Some s' \<and> score s' = score s \<and>
    fld tss_previous s' = (fld tss_previous s)(p := a) \<and> fld tss_next s' = fld tss_next s \<and>
    fld enqueued s' = fld enqueued s \<and> fld ticksleft s' = fld ticksleft s \<and>
    schedqueue s' = schedqueue s \<and> curptr s' = curptr s \<and> nextptr s' = nextptr s"
  using score_tsss [OF assms, of "t\<lparr>tss_previous := a\<rparr>"]
  by (simp add: tss_upd_Some [OF assms] fld_triv [OF assms])

lemma score_None: "score s' = score s \<Longrightarrow> (tsss s' p = None) = (tsss s p = None)"
  using score_eqD(1) [of s' s] by (metis domIff)

lemma score_dom:
  "score s' = score s \<Longrightarrow> tsss s p = Some t \<Longrightarrow>
     \<exists>t'. tsss s' p = Some t' \<and> core t' = core t"
  using score_core by blast

lemma dequeue_unlink_Some:
  assumes inv: "chain_inv s (xs @ p # ys)" and t: "tsss s p = Some t"
  shows "\<exists>s'. dequeue_unlink p s = Some s' \<and> score s' = score s \<and>
    fld tss_previous s' = unlink_pv p xs ys (fld tss_previous s) \<and>
    fld tss_next s' = unlink_nx p xs ys (fld tss_next s) \<and>
    fld enqueued s' = fld enqueued s \<and>
    sq_head (schedqueue s') = (if xs = [] then hd (ys @ [NULL]) else sq_head (schedqueue s)) \<and>
    sq_schedticks (schedqueue s') = sq_schedticks (schedqueue s) - schedticks t \<and>
    curptr s' = curptr s \<and> nextptr s' = nextptr s"
proof -
  have nb: "fld tss_next s p = hd (ys @ [NULL])" "fld tss_previous s p = last (NULL # xs)"
    using chain_inv_neighbours [OF inv t] by (simp_all add: fld_Some [OF t])
  have nn: "NULL \<notin> set (xs @ p # ys)" using chain_inv_nonnull [OF inv] by blast
  have dist: "distinct (xs @ p # ys)" using inv by (simp add: chain_inv_def)
  let ?st1 = "(if tss_previous t \<noteq> NULL
      then tss_upd (tss_previous t) (\<lambda>pv. pv\<lparr>tss_next := tss_next t\<rparr>) s else Some s)"
  have "\<exists>a. ?st1 = Some a \<and> score a = score s \<and>
      fld tss_next a = unlink_nx p xs ys (fld tss_next s) \<and> fld tss_previous a = fld tss_previous s \<and>
      fld enqueued a = fld enqueued s \<and> fld ticksleft a = fld ticksleft s \<and>
      schedqueue a = schedqueue s \<and> curptr a = curptr s \<and> nextptr a = nextptr s"
  proof (cases "xs = []")
    case True
    then show ?thesis using nb by (simp add: fld_Some [OF t] unlink_nx_def)
  next
    case False
    then have l: "last xs \<in> set (xs @ p # ys)" "last xs \<noteq> NULL"
      using nn last_neq [of xs NULL] by auto
    then obtain l where "tsss s (last xs) = Some l" using chain_inv_dom [OF inv] by blast
    from upd_next_Some [OF this, of "tss_next t"] show ?thesis
      using False nb nn l by (auto simp: fld_Some [OF t] unlink_nx_def)
  qed
  then obtain a where a: "?st1 = Some a" "score a = score s"
      "fld tss_next a = unlink_nx p xs ys (fld tss_next s)" "fld tss_previous a = fld tss_previous s"
      "fld enqueued a = fld enqueued s" "schedqueue a = schedqueue s"
      "curptr a = curptr s" "nextptr a = nextptr s" by blast
  obtain ta where ta: "tsss a p = Some ta" using score_dom [OF a(2) t] by blast
  have "p \<noteq> last xs" if "xs \<noteq> []" using that dist last_neq [of xs p] by auto
  then have nba: "tss_next ta = hd (ys @ [NULL])" "tss_previous ta = last (NULL # xs)"
    using nb a(3,4) by (auto simp: fld_Some [OF ta, symmetric] unlink_nx_def)
  let ?st2 = "(if tss_next ta \<noteq> NULL
      then tss_upd (tss_next ta) (\<lambda>nx. nx\<lparr>tss_previous := tss_previous ta\<rparr>) a else Some a)"
  have "\<exists>b. ?st2 = Some b \<and> score b = score a \<and>
      fld tss_previous b = unlink_pv p xs ys (fld tss_previous s) \<and> fld tss_next b = fld tss_next a \<and>
      fld enqueued b = fld enqueued a \<and> fld ticksleft b = fld ticksleft a \<and>
      schedqueue b = schedqueue a \<and> curptr b = curptr a \<and> nextptr b = nextptr a"
  proof (cases "ys = []")
    case True
    then show ?thesis using nba a(4) by (simp add: unlink_pv_def)
  next
    case False
    then have h: "hd ys \<in> set (xs @ p # ys)" "hd ys \<noteq> NULL"
      using nn hd_neq [of ys NULL] by auto
    then obtain h where "tsss s (hd ys) = Some h" using chain_inv_dom [OF inv] by blast
    then obtain h' where "tsss a (hd ys) = Some h'" using score_dom [OF a(2)] by blast
    from upd_previous_Some [OF this, of "tss_previous ta"] show ?thesis
      using False nba nn h a(4) by (auto simp: unlink_pv_def)
  qed
  then obtain b where b: "?st2 = Some b" "score b = score a"
      "fld tss_previous b = unlink_pv p xs ys (fld tss_previous s)" "fld tss_next b = fld tss_next a"
      "fld enqueued b = fld enqueued a" "schedqueue b = schedqueue a"
      "curptr b = curptr a" "nextptr b = nextptr a" by blast
  obtain tb where tb: "tsss b p = Some tb" using score_dom [OF b(2) ta] by blast
  have "p \<noteq> hd ys" if "ys \<noteq> []" using that dist hd_neq [of ys p] by auto
  moreover have "p \<noteq> last xs" if "xs \<noteq> []" using that dist last_neq [of xs p] by auto
  ultimately have tn: "tss_next tb = hd (ys @ [NULL])"
    using nb b(4) a(3) by (auto simp: fld_Some [OF tb, symmetric] unlink_nx_def)
  have ts: "schedticks tb = schedticks t"
    using score_flds(2) [OF b(2)] score_flds(2) [OF a(2)]
    by (simp add: fld_Some [OF tb, symmetric] fld_Some [OF t, symmetric])
  have hd: "(sq_head (schedqueue s) = p) = (xs = [])"
    using chain_inv_head [OF inv] dist hd_neq [of xs p] by (cases "xs = []") auto
  let ?c = "if sq_head (schedqueue b) = p then set_head (tss_next tb) b else b"
  let ?d = "?c\<lparr>schedqueue := (schedqueue ?c)\<lparr>
      sq_schedticks := sq_schedticks (schedqueue ?c) - schedticks tb,
      sq_ticksleft := sq_ticksleft (schedqueue ?c) - ticksleft tb\<rparr>\<rparr>"
  have "dequeue_unlink p s = Some ?d"
    using t a(1) ta b(1) tb by (simp add: dequeue_unlink_def Let_def)
  moreover have "score ?d = score s" using a(2) b(2) by simp
  ultimately show ?thesis
    using a b tn ts hd by (intro exI [of _ ?d]) (simp add: set_head_def)
qed

lemma last_dom: "set xs \<subseteq> dom m \<Longrightarrow> xs \<noteq> [] \<Longrightarrow> \<exists>y. m (last xs) = Some y"
  by (simp add: subset_iff in_dom_conv)

lemma hd_dom: "set xs \<subseteq> dom m \<Longrightarrow> xs \<noteq> [] \<Longrightarrow> \<exists>y. m (hd xs) = Some y"
  by (simp add: subset_iff in_dom_conv)

lemma falling_sub:
  "falling s (xs @ p # ys) \<Longrightarrow> falling s (xs @ ys)"
  by (auto simp: falling_def sorted_wrt_append)

lemma chain_inv_unlinked:
  assumes inv: "chain_inv s (xs @ p # ys)" and sc: "score s' = score s"
    and pv: "fld tss_previous s' = unlink_pv p xs ys (fld tss_previous s)"
    and nx: "fld tss_next s' = unlink_nx p xs ys (fld tss_next s)"
    and hd: "sq_head (schedqueue s') = (if xs = [] then hd (ys @ [NULL]) else sq_head (schedqueue s))"
    and sq: "sq_schedticks (schedqueue s') = sq_schedticks (schedqueue s) - fld schedticks s p"
  shows "chain_inv s' (xs @ ys)"
proof -
  note i = inv [unfolded chain_inv_def]
  note eqs = score_eqD [OF sc] score_flds(2) [OF sc]
  have dist: "distinct (xs @ p # ys)" and nn: "NULL \<notin> set (xs @ p # ys)"
    using i chain_inv_nonnull [OF inv] by auto
  have sub: "set (xs @ p # ys) \<subseteq> dom (tsss s)" using i by blast
  have "dlseg (fld tss_previous s') (fld tss_next s') NULL (sq_head (schedqueue s')) (xs @ ys) NULL"
    unfolding pv nx hd using i by (intro dlseg_unlink) auto
  moreover have "links_ok s'"
  proof -
    have ok: "link_ok (dom (tsss s)) (fld tss_next s)" "link_ok (dom (tsss s)) (fld tss_previous s)"
      using i by (simp_all add: links_ok_def)
    have "link_ok (dom (tsss s)) (fld tss_next s')"
      unfolding nx unlink_nx_def using dist sub ok(1)
      by (cases "xs = []"; cases ys) (auto intro!: link_ok_upd)
    moreover have "link_ok (dom (tsss s)) (fld tss_previous s')"
      unfolding pv unlink_pv_def using dist sub ok(2) last_in_set [of xs]
      by (cases "xs = []"; cases ys) (auto intro!: link_ok_upd dest: last_dom)
    ultimately show ?thesis by (simp add: links_ok_def eqs(1))
  qed
  moreover have "falling s' (xs @ ys)"
    using i falling_sub [of s xs p ys] by (simp add: falling_def eqs)
  moreover have "sq_schedticks (schedqueue s') = sum_list (map (fld schedticks s') (xs @ ys))"
    using i sq by (simp add: eqs)
  moreover have "tsss s' NULL = None" using i score_None [OF sc] by simp
  ultimately show ?thesis
    using i by (simp add: chain_inv_def eqs ticks_bounded_def)
qed

lemma upd_misc_Some:
  assumes "tsss s p = Some t" and "\<And>t. enqueued (f t) = b"
    and "\<And>t. core (f t) = core t" and "\<And>t. sview (f t) = sview t"
  shows "\<exists>s'. tss_upd p f s = Some s' \<and> score s' = score s \<and>
    fld enqueued s' = (fld enqueued s)(p := b) \<and> (\<forall>qs. chain_inv s' qs = chain_inv s qs) \<and>
    fld tss_next s' = fld tss_next s \<and> fld tss_previous s' = fld tss_previous s \<and>
    schedqueue s' = schedqueue s \<and> curptr s' = curptr s \<and> nextptr s' = nextptr s"
proof -
  have v: "tss_next (f t) = tss_next t" "tss_previous (f t) = tss_previous t"
    using assms(4) [of t] by (simp_all add: sview_def)
  show ?thesis
    using score_tsss [OF assms(1,3)] chain_inv_tss [OF assms(1,4)]
    by (simp add: tss_upd_Some [OF assms(1)] assms(2) v fld_triv [OF assms(1)])
qed

lemma chain_inv_empty:
  assumes "chain_inv s qs"
  shows "chain_inv (s\<lparr>schedqueue := \<lparr>sq_head = NULL, sq_ticksleft = n, sq_schedticks = 0\<rparr>\<rparr>) []"
  using assms by (simp add: chain_inv_def falling_def links_ok_def ticks_bounded_def)

lemma dequeue_Some:
  assumes inv: "sched_inv s qs" and p: "p \<in> set qs"
    and cur: "curptr s = p \<Longrightarrow> nextptr s = NULL \<or> nextptr s = p"
  shows "\<exists>s'. dequeue p s = Some s' \<and> sched_inv s' (remove1 p qs) \<and> score s' = score s \<and>
    (if curptr s = p \<and> qs \<noteq> [p] then curptr s' = nextptr s' \<and> nextptr s' \<in> set (remove1 p qs)
     else curptr s' = curptr s \<and> nextptr s' = nextptr s)"
proof -
  have ci: "chain_inv s qs" and fi: "flags_inv s qs" using inv by (auto simp: sched_inv_def)
  from p obtain xs ys where qs: "qs = xs @ p # ys" by (meson split_list)
  have dist: "distinct qs" using ci by (simp add: chain_inv_def)
  have rm: "remove1 p qs = xs @ ys" using qs dist by (simp add: remove1_append)
  obtain t where t: "tsss s p = Some t" using chain_inv_dom [OF ci p] by blast
  have enq: "enqueued t" using fi p t by (force simp: flags_inv_def fld_def)
  let ?f = "\<lambda>t. t\<lparr>misc := misc t AND NOT ENQUEUED\<rparr>"
  obtain a where a: "tss_upd p ?f s = Some a" "score a = score s"
      "fld enqueued a = (fld enqueued s)(p := False)" "\<And>qs. chain_inv a qs = chain_inv s qs"
      "schedqueue a = schedqueue s" "curptr a = curptr s" "nextptr a = nextptr s"
    using upd_misc_Some [OF t, of ?f False] by (auto simp: sview_def)
  have afl: "fld enqueued a q = (q \<in> set (xs @ ys))" if "q \<in> dom (tsss s)" for q
    using a(3) fi that qs dist by (auto simp: flags_inv_def)
  have flags: "flags_inv s' (xs @ ys)" if "fld enqueued s' = fld enqueued a" "score s' = score a" for s'
    using afl that score_eqD(1) [OF that(2)] score_eqD(1) [OF a(2)] by (simp add: flags_inv_def)
  show ?thesis
  proof (cases "sq_schedticks (schedqueue s) = schedticks t")
    case True
    then have "qs = [p]"
      using chain_inv_alone [OF ci p] t by (simp add: fld_Some)
    let ?s' = "a\<lparr>schedqueue := \<lparr>sq_head = NULL, sq_ticksleft = 0, sq_schedticks = 0\<rparr>\<rparr>"
    have "dequeue p s = Some ?s'" using t enq a True by (simp add: dequeue_def)
    moreover have "chain_inv ?s' []" using a(4) ci by (intro chain_inv_empty) simp
    moreover have "flags_inv ?s' (xs @ ys)" by (rule flags) simp_all
    moreover have "xs = []" "ys = []" using qs \<open>qs = [p]\<close> by (cases xs; simp)+
    ultimately show ?thesis
      using a \<open>qs = [p]\<close> by (simp add: sched_inv_def)
  next
    case False
    have many: "qs \<noteq> [p]"
      using False ci t by (auto simp: chain_inv_def fld_Some)
    let ?sw = "if curptr a = p then dequeue_switch p a else Some a"
    have aci: "chain_inv a qs" using a(4) ci by simp
    have "\<exists>b. ?sw = Some b \<and> tcore b = tcore a \<and>
        (if curptr s = p then curptr b = nextptr b \<and> nextptr b \<in> set qs - {p} else b = a)"
    proof (cases "curptr a = p")
      case True
      then show ?thesis
        using dequeue_switch_Some [OF aci p many True] cur a(6,7) by auto
    qed (use a(6) in simp)
    then obtain b where b: "?sw = Some b" "tcore b = tcore a"
        "if curptr s = p then curptr b = nextptr b \<and> nextptr b \<in> set qs - {p} else b = a" by blast
    note bs = tcore_score [OF b(2)]
    have bci: "chain_inv b (xs @ p # ys)"
      using aci qs by (simp add: tcore_chain_inv [OF b(2)])
    obtain ta where "tsss a p = Some ta" using score_dom [OF a(2) t] by blast
    then obtain tb where tb: "tsss b p = Some tb" using score_dom [OF bs] by blast
    obtain c where c: "dequeue_unlink p b = Some c" "score c = score b"
        "fld tss_previous c = unlink_pv p xs ys (fld tss_previous b)"
        "fld tss_next c = unlink_nx p xs ys (fld tss_next b)"
        "fld enqueued c = fld enqueued b"
        "sq_head (schedqueue c) = (if xs = [] then hd (ys @ [NULL]) else sq_head (schedqueue b))"
        "sq_schedticks (schedqueue c) = sq_schedticks (schedqueue b) - schedticks tb"
        "curptr c = curptr b" "nextptr c = nextptr b"
      using dequeue_unlink_Some [OF bci tb] by blast
    have "dequeue p s = Some c"
      using t enq a b(1) c(1) False by (simp add: dequeue_def)
    moreover have "chain_inv c (xs @ ys)"
      using chain_inv_unlinked [OF bci c(2-4,6)] c(7) by (simp add: fld_Some [OF tb])
    moreover have "fld enqueued b = fld enqueued a"
      using b(2) by (rule tcore_fld) simp
    then have "flags_inv c (xs @ ys)"
      using c(2,5) bs by (intro flags) simp_all
    moreover have "score c = score s" using c(2) bs a(2) by simp
    ultimately show ?thesis
      using b(3) c(8,9) a(6,7) many rm qs dist by (auto simp: sched_inv_def)
  qed
qed

lemma sched_inv_flag:
  "sched_inv s qs \<Longrightarrow> tsss s p = Some t \<Longrightarrow> enqueued t = (p \<in> set qs)"
  by (force simp: sched_inv_def flags_inv_def fld_def)

lemma dequeue_skip:
  assumes "sched_inv s qs" and "p \<in> dom (tsss s)" and "p \<notin> set qs"
  shows "dequeue p s = Some s"
proof -
  obtain t where t: "tsss s p = Some t" using assms(2) by auto
  then have "\<not> enqueued t" using sched_inv_flag [OF assms(1)] assms(3) by blast
  with t show ?thesis by (simp add: dequeue_def)
qed

lemma enqueue_skip:
  assumes "sched_inv s qs" and "p \<in> set qs"
  shows "enqueue p s = Some s"
proof -
  obtain t where t: "tsss s p = Some t"
    using assms chain_inv_dom unfolding sched_inv_def by blast
  then have "enqueued t" using sched_inv_flag [OF assms(1)] assms(2) by blast
  with t show ?thesis by (simp add: enqueue_def)
qed

section \<open>Putting a process in\<close>

lemma enqueue_scan_chain:
  assumes "dlseg pv (fld tss_next s) a p zs NULL" and "set zs \<subseteq> dom (tsss s)"
  shows "enqueue_scan (tsss s) k a p =
    Some (last (a # takeWhile (\<lambda>x. k < fld schedticks s x) zs),
          hd (dropWhile (\<lambda>x. k < fld schedticks s x) zs @ [NULL]))"
  using assms
proof (induction zs arbitrary: a p)
  case Nil
  then show ?case by (simp add: enqueue_scan.simps)
next
  case (Cons z zs)
  then obtain t where "tsss s z = Some t" by auto
  with Cons show ?case
    by (subst enqueue_scan.simps) (simp add: fld_def)
qed

lemma falling_split:
  assumes "falling s qs"
  shows "falling s (takeWhile (\<lambda>x. k < fld schedticks s x) qs @
           dropWhile (\<lambda>x. k < fld schedticks s x) qs)"
    "\<forall>y \<in> set (dropWhile (\<lambda>x. k < fld schedticks s x) qs). fld schedticks s y \<le> k"
proof -
  show "falling s (takeWhile (\<lambda>x. k < fld schedticks s x) qs @
           dropWhile (\<lambda>x. k < fld schedticks s x) qs)"
    using assms by simp
  show "\<forall>y \<in> set (dropWhile (\<lambda>x. k < fld schedticks s x) qs). fld schedticks s y \<le> k"
    using assms by (induction qs) (auto simp: falling_def)
qed

text \<open>Linking \<open>p\<close> in between \<open>xs\<close> and \<open>ys\<close>: what both branches of \<open>enqueue\<close> do.\<close>

definition linked :: "ptr \<Rightarrow> ptr list \<Rightarrow> ptr list \<Rightarrow> kstate \<Rightarrow> kstate \<Rightarrow> bool" where
  "linked p xs ys s s' \<longleftrightarrow> score s' = score s \<and>
    fld tss_previous s' = splice_pv p xs ys (fld tss_previous s) \<and>
    fld tss_next s' = splice_nx p xs ys (fld tss_next s) \<and>
    fld enqueued s' = fld enqueued s \<and>
    schedqueue s' = (if xs = [] then (schedqueue s)\<lparr>sq_head := p\<rparr> else schedqueue s) \<and>
    curptr s' = curptr s \<and> nextptr s' = nextptr s"


lemma enqueue_back_linked:
  assumes inv: "chain_inv s (xs @ ys)" and t: "tsss s p = Some t" and p: "p \<notin> set (xs @ ys)"
    and pv: "tss_previous t = last (NULL # xs)" and nx: "tss_next t = hd (ys @ [NULL])"
  shows "\<exists>s'. enqueue_back p s = Some s' \<and> linked p xs ys s s'"
proof -
  have nn: "NULL \<notin> set (xs @ ys)" using chain_inv_nonnull [OF inv] by blast
  let ?st1 = "if tss_previous t \<noteq> NULL
      then tss_upd (tss_previous t) (\<lambda>pv. pv\<lparr>tss_next := p\<rparr>) s else Some (set_head p s)"
  have "\<exists>a. ?st1 = Some a \<and> score a = score s \<and>
      fld tss_next a = splice_nx p xs ys (fld tss_next s) \<and> fld tss_previous a = fld tss_previous s \<and>
      fld enqueued a = fld enqueued s \<and>
      schedqueue a = (if xs = [] then (schedqueue s)\<lparr>sq_head := p\<rparr> else schedqueue s) \<and>
      curptr a = curptr s \<and> nextptr a = nextptr s"
  proof (cases "xs = []")
    case True
    then show ?thesis
      using pv nx fld_triv [OF t, of tss_next] by (simp add: set_head_def splice_nx_def)
  next
    case False
    then have l: "last xs \<in> set (xs @ ys)" "last xs \<noteq> NULL"
      using nn last_neq [of xs NULL] by auto
    then obtain l where "tsss s (last xs) = Some l" using chain_inv_dom [OF inv] by blast
    from upd_next_Some [OF this, of p] show ?thesis
      using False l pv nx fld_triv [OF t, of tss_next] by (auto simp: splice_nx_def Let_def)
  qed
  then obtain a where a: "?st1 = Some a" "score a = score s"
      "fld tss_next a = splice_nx p xs ys (fld tss_next s)" "fld tss_previous a = fld tss_previous s"
      "fld enqueued a = fld enqueued s"
      "schedqueue a = (if xs = [] then (schedqueue s)\<lparr>sq_head := p\<rparr> else schedqueue s)"
      "curptr a = curptr s" "nextptr a = nextptr s" by blast
  obtain ta where ta: "tsss a p = Some ta" using score_dom [OF a(2) t] by blast
  have tn: "tss_next ta = hd (ys @ [NULL])"
    using a(3) p splice_at(1) [of p xs ys "fld tss_next s"]
    by (simp add: fld_Some [OF ta, symmetric])
  have pvs: "(fld tss_previous s)(p := last (NULL # xs)) = fld tss_previous s"
    using fld_triv [OF t, of tss_previous] pv by simp
  let ?st2 = "if tss_next ta \<noteq> NULL
      then tss_upd (tss_next ta) (\<lambda>nx. nx\<lparr>tss_previous := p\<rparr>) a else Some a"
  have "\<exists>b. ?st2 = Some b \<and> score b = score a \<and>
      fld tss_previous b = splice_pv p xs ys (fld tss_previous s) \<and> fld tss_next b = fld tss_next a \<and>
      fld enqueued b = fld enqueued a \<and> schedqueue b = schedqueue a \<and>
      curptr b = curptr a \<and> nextptr b = nextptr a"
  proof (cases "ys = []")
    case True
    then show ?thesis using tn a(4) pvs by (simp add: splice_pv_def)
  next
    case False
    then have h: "hd ys \<in> set (xs @ ys)" "hd ys \<noteq> NULL"
      using nn hd_neq [of ys NULL] by auto
    then obtain h where "tsss s (hd ys) = Some h" using chain_inv_dom [OF inv] by blast
    then obtain h' where "tsss a (hd ys) = Some h'" using score_dom [OF a(2)] by blast
    from upd_previous_Some [OF this, of p] show ?thesis
      using False tn h a(4) pvs by (auto simp: splice_pv_def Let_def)
  qed
  then obtain b where b: "?st2 = Some b" "score b = score a"
      "fld tss_previous b = splice_pv p xs ys (fld tss_previous s)" "fld tss_next b = fld tss_next a"
      "fld enqueued b = fld enqueued a" "schedqueue b = schedqueue a"
      "curptr b = curptr a" "nextptr b = nextptr a" by blast
  have "enqueue_back p s = Some b"
    using t a(1) ta b(1) by (simp add: enqueue_back_def)
  then show ?thesis using a b by (auto simp: linked_def)
qed

lemma upd_links_Some:
  assumes "tsss s p = Some t"
  shows "\<exists>s'. tss_upd p (\<lambda>t. t\<lparr>tss_next := a, tss_previous := b\<rparr>) s = Some s' \<and> score s' = score s \<and>
    fld tss_next s' = (fld tss_next s)(p := a) \<and> fld tss_previous s' = (fld tss_previous s)(p := b) \<and>
    fld enqueued s' = fld enqueued s \<and>
    schedqueue s' = schedqueue s \<and> curptr s' = curptr s \<and> nextptr s' = nextptr s"
  using score_tsss [OF assms, of "t\<lparr>tss_next := a, tss_previous := b\<rparr>"]
  by (simp add: tss_upd_Some [OF assms] fld_triv [OF assms])

lemma enqueue_search_linked:
  fixes s p
  defines "before \<equiv> \<lambda>x. fld schedticks s p < fld schedticks s x"
  assumes inv: "chain_inv s qs" and t: "tsss s p = Some t" and p: "p \<notin> set qs"
  shows "\<exists>s'. enqueue_search p s = Some s' \<and>
    linked p (takeWhile before qs) (dropWhile before qs) s s'"
proof -
  define xs where "xs = takeWhile before qs"
  define ys where "ys = dropWhile before qs"
  let ?l = "last (NULL # xs)" and ?h = "hd (ys @ [NULL])"
  have nn: "NULL \<notin> set qs" using chain_inv_nonnull [OF inv] by blast
  have sub: "set qs \<subseteq> dom (tsss s)" using inv by (auto simp: chain_inv_def)
  have xin: "set xs \<subseteq> set qs" and yin: "set ys \<subseteq> set qs"
    unfolding xs_def ys_def by (auto dest: set_takeWhileD set_dropWhileD)
  obtain a where a: "tss_upd p (\<lambda>t. t\<lparr>tss_next := NULL, tss_previous := NULL\<rparr>) s = Some a"
      "score a = score s"
      "fld tss_next a = (fld tss_next s)(p := NULL)" "fld tss_previous a = (fld tss_previous s)(p := NULL)"
      "fld enqueued a = fld enqueued s" "schedqueue a = schedqueue s"
      "curptr a = curptr s" "nextptr a = nextptr s"
    using upd_links_Some [OF t] by blast
  obtain ta where ta: "tsss a p = Some ta" using score_dom [OF a(2) t] by blast
  have tk: "fld schedticks a = fld schedticks s" using score_flds(2) [OF a(2)] .
  have "dlseg (fld tss_previous s) (fld tss_next s) NULL (sq_head (schedqueue s)) qs NULL"
    using inv by (simp add: chain_inv_def)
  then have "dlseg (fld tss_previous a) (fld tss_next a) NULL (sq_head (schedqueue a)) qs NULL"
    unfolding a(6) by (rule dlseg_eq) (use p a(3,4) in auto)
  then have scan: "enqueue_scan (tsss a) (schedticks ta) NULL (sq_head (schedqueue a)) = Some (?l, ?h)"
    using enqueue_scan_chain [of "fld tss_previous a" a NULL "sq_head (schedqueue a)" qs "schedticks ta"]
      sub score_eqD(1) [OF a(2)] tk
    by (simp add: before_def xs_def ys_def fld_Some [OF ta, symmetric])
  obtain b where b: "tss_upd p (\<lambda>t. t\<lparr>tss_next := ?h, tss_previous := ?l\<rparr>) a = Some b"
      "score b = score a"
      "fld tss_next b = (fld tss_next a)(p := ?h)" "fld tss_previous b = (fld tss_previous a)(p := ?l)"
      "fld enqueued b = fld enqueued a" "schedqueue b = schedqueue a"
      "curptr b = curptr a" "nextptr b = nextptr a"
    using upd_links_Some [OF ta] by blast
  have db: "\<exists>u. tsss b q = Some u" if "q \<in> set qs" for q
    using that sub score_eqD(1) [OF a(2)] score_eqD(1) [OF b(2)] by blast
  let ?st3 = "if ?h \<noteq> NULL then tss_upd ?h (\<lambda>c. c\<lparr>tss_previous := p\<rparr>) b else Some b"
  have "\<exists>c. ?st3 = Some c \<and> score c = score b \<and>
      fld tss_previous c = splice_pv p xs ys (fld tss_previous s) \<and> fld tss_next c = fld tss_next b \<and>
      fld enqueued c = fld enqueued b \<and> schedqueue c = schedqueue b \<and>
      curptr c = curptr b \<and> nextptr c = nextptr b"
  proof (cases "ys = []")
    case True
    then show ?thesis using b(4) a(4) by (simp add: splice_pv_def)
  next
    case False
    then have h: "hd ys \<in> set qs" using yin hd_in_set by blast
    then have hn: "hd ys \<noteq> NULL" using nn by auto
    obtain u where "tsss b (hd ys) = Some u" using db [OF h] by blast
    from upd_previous_Some [OF this, of p] show ?thesis
      using False hn b(4) a(4) by (auto simp: splice_pv_def Let_def)
  qed
  then obtain c where c: "?st3 = Some c" "score c = score b"
      "fld tss_previous c = splice_pv p xs ys (fld tss_previous s)" "fld tss_next c = fld tss_next b"
      "fld enqueued c = fld enqueued b" "schedqueue c = schedqueue b"
      "curptr c = curptr b" "nextptr c = nextptr b" by blast
  let ?st4 = "if ?l = NULL then Some (set_head p c) else tss_upd ?l (\<lambda>pv. pv\<lparr>tss_next := p\<rparr>) c"
  have "\<exists>d. ?st4 = Some d \<and> score d = score c \<and>
      fld tss_next d = splice_nx p xs ys (fld tss_next s) \<and> fld tss_previous d = fld tss_previous c \<and>
      fld enqueued d = fld enqueued c \<and>
      schedqueue d = (if xs = [] then (schedqueue c)\<lparr>sq_head := p\<rparr> else schedqueue c) \<and>
      curptr d = curptr c \<and> nextptr d = nextptr c"
  proof (cases "xs = []")
    case True
    then show ?thesis using c(4) b(3) a(3) by (simp add: set_head_def splice_nx_def)
  next
    case False
    then have l: "last xs \<in> set qs" using xin last_in_set by blast
    then have ln: "last xs \<noteq> NULL" using nn by auto
    obtain u where "tsss c (last xs) = Some u"
      using db [OF l] score_dom [OF c(2)] by blast
    from upd_next_Some [OF this, of p] show ?thesis
      using False ln c(4) b(3) a(3) by (auto simp: splice_nx_def Let_def)
  qed
  then obtain d where d: "?st4 = Some d" "score d = score c"
      "fld tss_next d = splice_nx p xs ys (fld tss_next s)" "fld tss_previous d = fld tss_previous c"
      "fld enqueued d = fld enqueued c"
      "schedqueue d = (if xs = [] then (schedqueue c)\<lparr>sq_head := p\<rparr> else schedqueue c)"
      "curptr d = curptr c" "nextptr d = nextptr c" by blast
  have comm: "(\<lambda>t. t\<lparr>tss_previous := NULL, tss_next := NULL\<rparr>) =
      (\<lambda>t. t\<lparr>tss_next := NULL, tss_previous := NULL\<rparr>)" by auto
  have "enqueue_search p s = Some d"
    unfolding enqueue_search_def comm a(1)
    using ta scan b(1) c(1) d(1) by (cases "xs = []"; cases "last xs = NULL") simp_all
  then show ?thesis
    unfolding xs_def [symmetric] ys_def [symmetric] using a b c d by (auto simp: linked_def)
qed

text \<open>Linking keeps the invariant when the ticks of \<open>p\<close> fit between its neighbours'.\<close>

lemma chain_inv_linked:
  assumes inv: "chain_inv s (xs @ ys)" and lk: "linked p xs ys s s'"
    and p: "p \<in> set (pproctab s)" "p \<notin> set (xs @ ys)" and pos: "0 < fld schedticks s p"
    and above: "\<forall>x \<in> set xs. fld schedticks s p \<le> fld schedticks s x"
    and below: "\<forall>y \<in> set ys. fld schedticks s y \<le> fld schedticks s p"
  shows "chain_inv (s'\<lparr>schedqueue := (schedqueue s')\<lparr>
      sq_schedticks := sq_schedticks (schedqueue s') + fld schedticks s p, sq_ticksleft := n\<rparr>\<rparr>)
    (xs @ p # ys)" (is "chain_inv ?s' _")
proof -
  note i = inv [unfolded chain_inv_def]
  have sc: "score s' = score s" and lpv: "fld tss_previous s' = splice_pv p xs ys (fld tss_previous s)"
    and lnx: "fld tss_next s' = splice_nx p xs ys (fld tss_next s)"
    and lsq: "schedqueue s' = (if xs = [] then (schedqueue s)\<lparr>sq_head := p\<rparr> else schedqueue s)"
    using lk by (simp_all add: linked_def)
  note eqs = score_eqD [OF sc] score_flds(2) [OF sc]
  have dist: "distinct (xs @ p # ys)" using i p by auto
  have sub: "set (pproctab s) \<subseteq> dom (tsss s)" using i by blast
  have pn: "p \<noteq> NULL" using sub p i by auto
  have nn: "NULL \<notin> set (xs @ ys)" using chain_inv_nonnull [OF inv] by blast
  have xd: "set xs \<subseteq> dom (tsss s)" and yd: "set ys \<subseteq> dom (tsss s)" and pd: "p \<in> dom (tsss s)"
    using i p sub by auto
  have "dlseg (fld tss_previous s') (fld tss_next s') NULL
      (if xs = [] then p else sq_head (schedqueue s)) (xs @ p # ys) NULL"
    unfolding lpv lnx using i by (intro dlseg_splice [OF _ dist pn]) blast
  moreover have "sq_head (schedqueue s') = (if xs = [] then p else sq_head (schedqueue s))"
    by (simp add: lsq)
  moreover have "links_ok s'"
  proof -
    have ok: "link_ok (dom (tsss s)) (fld tss_next s)" "link_ok (dom (tsss s)) (fld tss_previous s)"
      using i by (simp_all add: links_ok_def)
    have h: "hd (ys @ [NULL]) = NULL \<or> hd (ys @ [NULL]) \<noteq> p \<and> hd (ys @ [NULL]) \<in> dom (tsss s)"
      using p(2) yd by (cases ys) auto
    have l: "last (NULL # xs) = NULL \<or> last (NULL # xs) \<noteq> p \<and> last (NULL # xs) \<in> dom (tsss s)"
      using p(2) xd last_in_set [of xs] last_dom [of xs "tsss s"] by (cases "xs = []") auto
    have "link_ok (dom (tsss s)) (fld tss_next s')"
      unfolding lnx splice_nx_def Let_def using p(2) pd ok(1) h last_in_set [of xs]
      by (cases "xs = []") (auto intro!: link_ok_upd)
    moreover have "link_ok (dom (tsss s)) (fld tss_previous s')"
      unfolding lpv splice_pv_def Let_def using p(2) pd ok(2) l hd_in_set [of ys]
      by (cases "ys = []") (auto intro!: link_ok_upd)
    ultimately show ?thesis by (simp add: links_ok_def eqs(1))
  qed
  moreover have "falling s' (xs @ p # ys)"
  proof -
    have f: "falling s (xs @ ys)" using i by blast
    then have "\<forall>x \<in> set xs. \<forall>y \<in> set ys. fld schedticks s y \<le> fld schedticks s x"
      by (simp add: falling_def sorted_wrt_append)
    with f above below show ?thesis by (simp add: falling_def eqs sorted_wrt_append)
  qed
  moreover have "sq_schedticks (schedqueue s') + fld schedticks s p =
      sum_list (map (fld schedticks s') (xs @ p # ys))"
    using i by (simp add: eqs lsq)
  moreover have "tsss s' NULL = None" using i score_None [OF sc] by simp
  ultimately show ?thesis
    using i p pos dist by (simp add: chain_inv_def eqs ticks_bounded_def falling_def links_ok_def)
qed

text \<open>The neighbours that \<open>lastNeighboursValid\<close> accepts are a place in the queue.\<close>

definition fits :: "kstate \<Rightarrow> u32 \<Rightarrow> ptr list \<Rightarrow> ptr list \<Rightarrow> bool" where
  "fits s k xs ys \<longleftrightarrow> (\<forall>x \<in> set xs. k \<le> fld schedticks s x) \<and> (\<forall>y \<in> set ys. fld schedticks s y \<le> k)"

lemma fits_previous:
  assumes "falling s (us @ a # vs)" and "k \<le> fld schedticks s a"
    and "vs \<noteq> [] \<Longrightarrow> fld schedticks s (hd vs) \<le> k"
  shows "fits s k (us @ [a]) vs"
proof -
  have "\<forall>x \<in> set us. fld schedticks s a \<le> fld schedticks s x"
    using assms(1) by (auto simp: falling_def sorted_wrt_append)
  moreover have "\<forall>y \<in> set vs. fld schedticks s y \<le> k"
  proof (cases vs)
    case (Cons b ws)
    then have "\<forall>y \<in> set ws. fld schedticks s y \<le> fld schedticks s b"
      using assms(1) by (auto simp: falling_def sorted_wrt_append)
    with Cons assms(3) show ?thesis by (auto intro: order_trans)
  qed simp
  ultimately show ?thesis using assms(2) by (auto simp: fits_def intro: order_trans)
qed

lemma fits_first:
  assumes "falling s (a # vs)" and "fld schedticks s a \<le> k"
  shows "fits s k [] (a # vs)"
  using assms by (auto simp: fits_def falling_def intro: order_trans)

lemma in_queue:
  assumes "chain_inv s qs" and "fld enqueued s = fe" "\<And>q. q \<in> dom (tsss s) \<Longrightarrow> fe q = (q \<in> set qs \<or> q = p)"
    and "tsss s q = Some t" and "enqueued t" and "q \<noteq> p"
  shows "\<exists>us vs. qs = us @ q # vs \<and> tss_next t = hd (vs @ [NULL]) \<and> tss_previous t = last (NULL # us)"
proof -
  have "q \<in> set qs" using assms(3) [of q] assms(2,4,5,6) by (force simp: fld_def)
  then obtain us vs where qs: "qs = us @ q # vs" by (meson split_list)
  with assms(1,4) show ?thesis using chain_inv_neighbours [of s us q vs t] by auto
qed

lemma lastNeighboursValid_split:
  assumes inv: "chain_inv s qs" and fe: "\<And>q. q \<in> dom (tsss s) \<Longrightarrow> fld enqueued s q = (q \<in> set qs \<or> q = p)"
    and t: "tsss s p = Some t" and p: "p \<notin> set qs"
  shows "\<exists>b. lastNeighboursValid s t = Some b \<and>
    (b \<longrightarrow> (\<exists>xs ys. qs = xs @ ys \<and> tss_previous t = last (NULL # xs) \<and> tss_next t = hd (ys @ [NULL]) \<and>
                  fits s (schedticks t) xs ys))"
proof -
  let ?pv = "tss_previous t" and ?nx = "tss_next t"
  let ?k = "schedticks t"
  have fall: "falling s qs" and nn: "NULL \<notin> set qs" and lk: "links_ok s"
    using inv chain_inv_nonnull [OF inv] by (auto simp: chain_inv_def)
  have pd: "p \<in> dom (tsss s)" using t by auto
  have pv: "?pv = NULL \<or> ?pv \<noteq> p \<and> (\<exists>u. tsss s ?pv = Some u)"
    and nx: "?nx = NULL \<or> ?nx \<noteq> p \<and> (\<exists>u. tsss s ?nx = Some u)"
    using lk pd link_okD [of "dom (tsss s)" "fld tss_previous s" p] link_okD [of "dom (tsss s)" "fld tss_next s" p]
    by (simp_all add: links_ok_def fld_Some [OF t] in_dom_conv)
  note inq = in_queue [OF inv refl fe]
  consider (none) "?pv = NULL" "?nx = NULL" | (first) "?pv = NULL" "?nx \<noteq> NULL"
    | (last) "?pv \<noteq> NULL" "?nx = NULL" | (mid) "?pv \<noteq> NULL" "?nx \<noteq> NULL" by blast
  then show ?thesis
  proof cases
    case none
    then show ?thesis by (intro exI [of _ False]) (simp add: lastNeighboursValid_def)
  next
    case first
    then obtain n where n: "tsss s ?nx = Some n" "?nx \<noteq> p" using nx by blast
    obtain b1 where b1: "previousValid s t = Some b1"
    proof (cases "qs = []")
      case True
      then show ?thesis
        using that chain_inv_head [OF inv] first by (simp add: previousValid_def processEligibleFirst_def)
    next
      case False
      then have "hd qs \<in> set qs" by simp
      then obtain h where "tsss s (hd qs) = Some h" "hd qs \<noteq> NULL"
        using chain_inv_dom [OF inv] nn by fastforce
      then show ?thesis
        using that chain_inv_head [OF inv] first False
        by (simp add: previousValid_def processEligibleFirst_def)
    qed
    let ?b2 = "enqueued n \<and> tss_previous n = ?pv \<and> schedticks n \<le> ?k"
    have b2: "nextValid s t = Some ?b2" using first n by (auto simp: nextValid_def)
    have "\<exists>xs ys. qs = xs @ ys \<and> ?pv = last (NULL # xs) \<and> ?nx = hd (ys @ [NULL]) \<and> fits s ?k xs ys"
      if b: ?b2
    proof -
      obtain us vs where qs: "qs = us @ ?nx # vs" "tss_previous n = last (NULL # us)"
        using inq [OF _ n(1) _ n(2)] b by blast
      have "us = []"
        using qs nn b first last_in_set [of us] by (cases "us = []") auto
      then show ?thesis
        using qs first fall b fld_Some [OF n(1), of schedticks] fits_first [of s ?nx vs ?k]
        by (intro exI [of _ "[]"] exI [of _ qs]) auto
    qed
    then show ?thesis using b1 b2 first by (auto simp: lastNeighboursValid_def)
  next
    case last
    then obtain m where m: "tsss s ?pv = Some m" "?pv \<noteq> p" using pv by blast
    let ?b1 = "enqueued m \<and> tss_next m = ?nx \<and> ?k \<le> schedticks m"
    have "previousValid s t = Some ?b1" using last m by (auto simp: previousValid_def)
    moreover have "nextValid s t = Some (enqueued m \<and> tss_next m = NULL)"
      using last m by (auto simp: nextValid_def processEligibleLast_def)
    moreover have "\<exists>xs ys. qs = xs @ ys \<and> ?pv = last (NULL # xs) \<and> ?nx = hd (ys @ [NULL]) \<and> fits s ?k xs ys"
      if b: ?b1
    proof -
      obtain us vs where qs: "qs = us @ ?pv # vs" "tss_next m = hd (vs @ [NULL])"
        using inq [OF _ m(1) _ m(2)] b by blast
      have "vs = []" using qs nn b last by (cases vs) auto
      then show ?thesis
        using qs last fall b fld_Some [OF m(1), of schedticks] fits_previous [of s us ?pv "[]" ?k]
        by (intro exI [of _ qs] exI [of _ "[]"]) auto
    qed
    ultimately show ?thesis using last by (auto simp: lastNeighboursValid_def)
  next
    case mid
    then obtain m n where m: "tsss s ?pv = Some m" "?pv \<noteq> p" and n: "tsss s ?nx = Some n" "?nx \<noteq> p"
      using pv nx by blast
    let ?b1 = "enqueued m \<and> tss_next m = ?nx \<and> ?k \<le> schedticks m"
    let ?b2 = "enqueued n \<and> tss_previous n = ?pv \<and> schedticks n \<le> ?k"
    have "previousValid s t = Some ?b1" using mid m by (auto simp: previousValid_def)
    moreover have "nextValid s t = Some ?b2" using mid n by (auto simp: nextValid_def)
    moreover have "\<exists>xs ys. qs = xs @ ys \<and> ?pv = last (NULL # xs) \<and> ?nx = hd (ys @ [NULL]) \<and> fits s ?k xs ys"
      if b: ?b1 ?b2
    proof -
      obtain us vs where qs: "qs = us @ ?pv # vs" "tss_next m = hd (vs @ [NULL])"
        using inq [OF _ m(1) _ m(2)] b by blast
      have h: "hd vs = ?nx" if "vs \<noteq> []" using that qs b by simp
      have "fits s ?k (us @ [?pv]) vs"
        using qs fall b fld_Some [OF m(1), of schedticks] fld_Some [OF n(1), of schedticks] h
        by (intro fits_previous) auto
      then show ?thesis
        using qs b by (intro exI [of _ "us @ [?pv]"] exI [of _ vs]) auto
    qed
    ultimately show ?thesis using mid by (auto simp: lastNeighboursValid_def)
  qed
qed

lemma enqueue_account_Some:
  assumes t: "tsss s p = Some t"
  shows "\<exists>s' n. enqueue_account p s = Some s' \<and> score s' = score s \<and>
    fld enqueued s' = fld enqueued s \<and> curptr s' = curptr s \<and> nextptr s' = nextptr s \<and>
    (\<forall>qs. chain_inv s' qs = chain_inv (s\<lparr>schedqueue := (schedqueue s)\<lparr>
      sq_schedticks := sq_schedticks (schedqueue s) + schedticks t, sq_ticksleft := n\<rparr>\<rparr>) qs)"
proof -
  let ?l = "new_ticksleft (schedqueue s) t" and ?q = "schedqueue s"
  let ?a = "s\<lparr>tsss := (tsss s)(p \<mapsto> t\<lparr>ticksleft := ?l\<rparr>)\<rparr>"
  let ?s' = "?a\<lparr>schedqueue := ?q\<lparr>sq_schedticks := sq_schedticks ?q + schedticks t,
                              sq_ticksleft := sq_ticksleft ?q + ?l\<rparr>\<rparr>"
  have "enqueue_account p s = Some ?s'"
    using t by (simp add: enqueue_account_def tss_upd_Some [OF t] Let_def)
  moreover have "score ?s' = score s" using score_tsss [OF t] by simp
  moreover have "fld enqueued ?s' = fld enqueued s"
    using fld_triv [OF t, of enqueued] by simp
  moreover have "chain_inv ?s' qs = chain_inv (s\<lparr>schedqueue := ?q\<lparr>
      sq_schedticks := sq_schedticks ?q + schedticks t, sq_ticksleft := sq_ticksleft ?q + ?l\<rparr>\<rparr>) qs" for qs
    using t by (intro chain_inv_sview) (auto simp: sview_def)
  ultimately show ?thesis
    by (intro exI [of _ ?s'] exI [of _ "sq_ticksleft ?q + ?l"]) simp
qed

lemma enqueue_Some:
  assumes inv: "sched_inv s qs" and p: "p \<in> set (pproctab s)" "p \<notin> set qs"
    and pos: "0 < fld schedticks s p"
  shows "\<exists>s' xs ys. enqueue p s = Some s' \<and> qs = xs @ ys \<and> sched_inv s' (xs @ p # ys) \<and>
    score s' = score s \<and> curptr s' = curptr s \<and> nextptr s' = nextptr s"
proof -
  have ci: "chain_inv s qs" and fi: "flags_inv s qs" using inv by (auto simp: sched_inv_def)
  obtain t where t: "tsss s p = Some t" using ci p(1) by (force simp: chain_inv_def)
  have ne: "\<not> enqueued t" using sched_inv_flag [OF inv t] p(2) by blast
  let ?f = "\<lambda>t. t\<lparr>misc := misc t OR ENQUEUED\<rparr>"
  obtain a where a: "tss_upd p ?f s = Some a" "score a = score s"
      "fld enqueued a = (fld enqueued s)(p := True)" "\<And>qs. chain_inv a qs = chain_inv s qs"
      "schedqueue a = schedqueue s" "curptr a = curptr s" "nextptr a = nextptr s"
    using upd_misc_Some [OF t, of ?f True] by (auto simp: sview_def)
  have aci: "chain_inv a qs" using a(4) ci by simp
  obtain ta where ta: "tsss a p = Some ta" using score_dom [OF a(2) t] by blast
  have st: "fld schedticks a = fld schedticks s" using score_flds(2) [OF a(2)] .
  have fe: "fld enqueued a q = (q \<in> set qs \<or> q = p)" if "q \<in> dom (tsss a)" for q
    using that fi score_eqD(1) [OF a(2)] a(3) by (simp add: flags_inv_def)
  obtain v where v: "lastNeighboursValid a ta = Some v"
      "v \<Longrightarrow> \<exists>xs ys. qs = xs @ ys \<and> tss_previous ta = last (NULL # xs) \<and>
               tss_next ta = hd (ys @ [NULL]) \<and> fits a (schedticks ta) xs ys"
    using lastNeighboursValid_split [OF aci fe ta p(2)] by blast
  let ?in = "if v then enqueue_back p a else enqueue_search p a"
  have "\<exists>b xs ys. ?in = Some b \<and> qs = xs @ ys \<and> linked p xs ys a b \<and> fits a (schedticks ta) xs ys"
  proof (cases v)
    case True
    then obtain xs ys where sp: "qs = xs @ ys" "tss_previous ta = last (NULL # xs)"
        "tss_next ta = hd (ys @ [NULL])" "fits a (schedticks ta) xs ys" using v(2) by blast
    then show ?thesis
      using True enqueue_back_linked [of a xs ys p ta] aci ta p(2) by auto
  next
    case False
    let ?before = "\<lambda>x. fld schedticks a p < fld schedticks a x"
    have "falling a qs" using aci by (simp add: chain_inv_def)
    then have "fits a (schedticks ta) (takeWhile ?before qs) (dropWhile ?before qs)"
      using falling_split(2) by (auto simp: fits_def fld_Some [OF ta] dest!: set_takeWhileD)
    moreover obtain b where "enqueue_search p a = Some b"
        "linked p (takeWhile ?before qs) (dropWhile ?before qs) a b"
      using enqueue_search_linked [OF aci ta p(2)] by blast
    ultimately show ?thesis using False
      by (intro exI [of _ b] exI [of _ "takeWhile ?before qs"] exI [of _ "dropWhile ?before qs"]) simp
  qed
  then obtain b xs ys where b: "?in = Some b" "qs = xs @ ys" "linked p xs ys a b"
      "fits a (schedticks ta) xs ys" by blast
  have bs: "score b = score a" "fld enqueued b = fld enqueued a" "curptr b = curptr a"
      "nextptr b = nextptr a" using b(3) by (simp_all add: linked_def)
  obtain tb where tb: "tsss b p = Some tb" using score_dom [OF bs(1) ta] by blast
  have tks: "schedticks tb = fld schedticks a p" "schedticks ta = fld schedticks a p"
    using score_flds(2) [OF bs(1)] by (simp_all add: fld_Some [OF tb, symmetric] fld_Some [OF ta])
  obtain c n where c: "enqueue_account p b = Some c" "score c = score b"
      "fld enqueued c = fld enqueued b" "curptr c = curptr b" "nextptr c = nextptr b"
      "\<And>qs. chain_inv c qs = chain_inv (b\<lparr>schedqueue := (schedqueue b)\<lparr>
        sq_schedticks := sq_schedticks (schedqueue b) + schedticks tb, sq_ticksleft := n\<rparr>\<rparr>) qs"
    using enqueue_account_Some [OF tb] by blast
  have "chain_inv c (xs @ p # ys)"
    unfolding c(6) tks
  proof (rule chain_inv_linked [OF _ b(3)])
    show "chain_inv a (xs @ ys)" using aci b(2) by simp
    show "p \<in> set (pproctab a)" using p(1) score_eqD(11) [OF a(2)] by simp
    show "p \<notin> set (xs @ ys)" using p(2) b(2) by simp
    show "0 < fld schedticks a p" using pos st by simp
  qed (use b(4) tks in \<open>simp_all add: fits_def\<close>)
  moreover have "flags_inv c (xs @ p # ys)"
    using fe c(2,3) bs(1,2) b(2) score_eqD(1) [OF c(2)] score_eqD(1) [OF bs(1)]
    by (auto simp: flags_inv_def)
  moreover have "enqueue p s = Some c"
    using t ne a(1) ta v(1) b(1) c(1) by (simp add: enqueue_def)
  ultimately show ?thesis
    using b(2) c bs a by (intro exI [of _ c] exI [of _ xs] exI [of _ ys]) (simp add: sched_inv_def)
qed

section \<open>The contract of a run queue\<close>

text \<open>
  What the rest of the kernel relies on: putting a process in or taking it out always returns,
  changes the membership by that process alone and keeps the queue's invariant.
\<close>

datatype 'p qop = Enq 'p | Deq 'p

fun qop_target :: "'p qop \<Rightarrow> 'p" where
  "qop_target (Enq p) = p"
| "qop_target (Deq p) = p"

fun qop_effect :: "'p set \<Rightarrow> 'p qop \<Rightarrow> 'p set" where
  "qop_effect S (Enq p) = insert p S"
| "qop_effect S (Deq p) = S - {p}"

fun run_qops :: "('p \<Rightarrow> 's \<Rightarrow> 's option) \<Rightarrow> ('p \<Rightarrow> 's \<Rightarrow> 's option) \<Rightarrow> 'p qop list \<Rightarrow> 's \<Rightarrow> 's option" where
  "run_qops enq deq [] s = Some s"
| "run_qops enq deq (Enq p # ops) s = do { s \<leftarrow> enq p s; run_qops enq deq ops s }"
| "run_qops enq deq (Deq p # ops) s = do { s \<leftarrow> deq p s; run_qops enq deq ops s }"

locale run_queue =
  fixes enq :: "'p \<Rightarrow> 's \<Rightarrow> 's option" and deq :: "'p \<Rightarrow> 's \<Rightarrow> 's option"
    and inv :: "'s \<Rightarrow> 'p list \<Rightarrow> bool" and admissible :: "'s \<Rightarrow> 'p \<Rightarrow> bool"
  assumes enq_new: "inv s qs \<Longrightarrow> admissible s p \<Longrightarrow> p \<notin> set qs \<Longrightarrow>
      \<exists>s' xs ys. enq p s = Some s' \<and> qs = xs @ ys \<and> inv s' (xs @ p # ys) \<and> admissible s' = admissible s"
    and enq_old: "inv s qs \<Longrightarrow> p \<in> set qs \<Longrightarrow> enq p s = Some s"
    and deq_in: "inv s qs \<Longrightarrow> p \<in> set qs \<Longrightarrow>
      \<exists>s'. deq p s = Some s' \<and> inv s' (remove1 p qs) \<and> admissible s' = admissible s"
    and deq_out: "inv s qs \<Longrightarrow> admissible s p \<Longrightarrow> p \<notin> set qs \<Longrightarrow> deq p s = Some s"
    and inv_distinct: "inv s qs \<Longrightarrow> distinct qs"
begin

lemma enq_set:
  assumes "inv s qs" and "admissible s p"
  shows "\<exists>s' qs'. enq p s = Some s' \<and> inv s' qs' \<and> set qs' = insert p (set qs) \<and>
    admissible s' = admissible s"
proof (cases "p \<in> set qs")
  case True
  then show ?thesis using enq_old [OF assms(1)] assms(1) by auto
next
  case False
  then obtain s' xs ys where "enq p s = Some s'" "qs = xs @ ys" "inv s' (xs @ p # ys)"
      "admissible s' = admissible s"
    using enq_new [OF assms] by blast
  then show ?thesis by (intro exI [of _ s'] exI [of _ "xs @ p # ys"]) auto
qed

lemma deq_set:
  assumes "inv s qs" and "admissible s p"
  shows "\<exists>s' qs'. deq p s = Some s' \<and> inv s' qs' \<and> set qs' = set qs - {p} \<and>
    admissible s' = admissible s"
proof (cases "p \<in> set qs")
  case True
  then obtain s' where "deq p s = Some s'" "inv s' (remove1 p qs)" "admissible s' = admissible s"
    using deq_in [OF assms(1)] by blast
  then show ?thesis using inv_distinct [OF assms(1)]
    by (intro exI [of _ s'] exI [of _ "remove1 p qs"]) (simp add: set_remove1_eq)
next
  case False
  then show ?thesis using deq_out [OF assms] assms(1) by auto
qed

lemma run_qops_total:
  assumes "inv s qs" and "\<forall>op \<in> set ops. admissible s (qop_target op)"
  shows "\<exists>s' qs'. run_qops enq deq ops s = Some s' \<and> inv s' qs' \<and>
    set qs' = foldl qop_effect (set qs) ops"
  using assms
proof (induction ops arbitrary: s qs)
  case Nil
  then show ?case by auto
next
  case (Cons op ops)
  have "\<exists>s1 qs1. (\<forall>ops'. run_qops enq deq (op # ops') s = run_qops enq deq ops' s1) \<and> inv s1 qs1 \<and>
      set qs1 = qop_effect (set qs) op \<and> admissible s1 = admissible s"
  proof (cases op)
    case (Enq p)
    then show ?thesis using enq_set [OF Cons.prems(1), of p] Cons.prems(2) by fastforce
  next
    case (Deq p)
    then show ?thesis using deq_set [OF Cons.prems(1), of p] Cons.prems(2) by fastforce
  qed
  then obtain s1 qs1 where s1: "\<And>ops'. run_qops enq deq (op # ops') s = run_qops enq deq ops' s1"
      "inv s1 qs1" "set qs1 = qop_effect (set qs) op" "admissible s1 = admissible s" by blast
  show ?case using Cons.IH [OF s1(2)] Cons.prems(2) by (simp add: s1)
qed

end

definition admissible_proc :: "kstate \<Rightarrow> ptr \<Rightarrow> bool" where
  "admissible_proc s p \<longleftrightarrow> p \<in> set (pproctab s) \<and> 0 < fld schedticks s p"

definition queue_inv :: "kstate \<Rightarrow> ptr list \<Rightarrow> bool" where
  "queue_inv s qs \<longleftrightarrow> sched_inv s qs \<and> (nextptr s = NULL \<or> nextptr s = curptr s)"

lemma admissible_score: "score s' = score s \<Longrightarrow> admissible_proc s' = admissible_proc s"
  by (simp add: admissible_proc_def fun_eq_iff score_flds(2) [of s' s] score_eqD(11) [of s' s])

interpretation rq: run_queue enqueue dequeue queue_inv admissible_proc
proof unfold_locales
  fix s qs p
  show "queue_inv s qs \<Longrightarrow> admissible_proc s p \<Longrightarrow> p \<notin> set qs \<Longrightarrow>
      \<exists>s' xs ys. enqueue p s = Some s' \<and> qs = xs @ ys \<and> queue_inv s' (xs @ p # ys) \<and>
        admissible_proc s' = admissible_proc s"
    using enqueue_Some [of s qs p] admissible_score unfolding queue_inv_def admissible_proc_def
    by (metis (no_types, lifting) admissible_proc_def)
  show "queue_inv s qs \<Longrightarrow> p \<in> set qs \<Longrightarrow> enqueue p s = Some s"
    using enqueue_skip [of s qs p] by (simp add: queue_inv_def)
  show "\<exists>s'. dequeue p s = Some s' \<and> queue_inv s' (remove1 p qs) \<and> admissible_proc s' = admissible_proc s"
    if "queue_inv s qs" "p \<in> set qs"
  proof -
    have "sched_inv s qs" "curptr s = p \<Longrightarrow> nextptr s = NULL \<or> nextptr s = p"
      using that by (auto simp: queue_inv_def)
    from dequeue_Some [OF this(1) that(2) this(2)]
    obtain s' where s': "dequeue p s = Some s'" "sched_inv s' (remove1 p qs)" "score s' = score s"
        "if curptr s = p \<and> qs \<noteq> [p] then curptr s' = nextptr s' \<and> nextptr s' \<in> set (remove1 p qs)
         else curptr s' = curptr s \<and> nextptr s' = nextptr s" by blast
    have "nextptr s' = NULL \<or> nextptr s' = curptr s'"
      using s'(4) that(1) by (auto simp: queue_inv_def split: if_splits)
    then show ?thesis using s'(1,2) admissible_score [OF s'(3)] by (simp add: queue_inv_def)
  qed
  show "queue_inv s qs \<Longrightarrow> admissible_proc s p \<Longrightarrow> p \<notin> set qs \<Longrightarrow> dequeue p s = Some s"
    using dequeue_skip [of s qs p]
    by (auto simp: queue_inv_def admissible_proc_def sched_inv_def chain_inv_def)
  show "queue_inv s qs \<Longrightarrow> distinct qs"
    by (simp add: queue_inv_def sched_inv_def chain_inv_def)
qed

end
