(* ===== verification/MK_Chains.thy ===== *)
theory MK_Chains
  imports MK_Ipc MK_Runqueue
begin

text \<open>
  The kernel's invariant and the operations on chains of blocked processes.  \<open>kinv_g X s qs L\<close>
  says that \<open>qs\<close> is the run queue, \<open>L i\<close> the processes on chain \<open>i\<close> (the blocked senders of a
  receiver, the processes that wait for a feature), that no process is on two of them, and that
  the state flags agree; the processes in \<open>X\<close> are in the middle of a change.  The operations of
  \<open>MK_Ipc\<close> are shown to return and to keep it.
\<close>

section \<open>Chains of blocked processes\<close>

text \<open>
  A blocked sender is on the chain of its receiver, a process that waits for a feature nobody
  supplies on the chain of that feature.  Both run through the field \<open>nextSender\<close>.
\<close>

datatype chain_id = Senders ptr | Waiters nat

definition chain_ids :: "kstate \<Rightarrow> chain_id set" where
  "chain_ids s = Senders ` set (pproctab s) \<union> Waiters ` {..<4}"

definition chain_head :: "kstate \<Rightarrow> chain_id \<Rightarrow> ptr" where
  "chain_head s i = (case i of Senders p \<Rightarrow> fld firstSender s p
                             | Waiters f \<Rightarrow> waiter (featureTable s ! f))"

definition chains_inv :: "kstate \<Rightarrow> (chain_id \<Rightarrow> ptr list) \<Rightarrow> bool" where
  "chains_inv s L \<longleftrightarrow>
     (\<forall>i \<in> chain_ids s. slseg (fld nextSender s) (chain_head s i) (L i) NULL \<and>
                        set (L i) \<subseteq> set (pproctab s)) \<and>
     (\<forall>i \<in> chain_ids s. \<forall>j \<in> chain_ids s. i \<noteq> j \<longrightarrow> set (L i) \<inter> set (L j) = {})"

definition tables_inv :: "kstate \<Rightarrow> bool" where
  "tables_inv s \<longleftrightarrow>
     length (featureTable s) = 4 \<and>
     (\<forall>e \<in> set (featureTable s). supplier e = NULL \<or> supplier e \<in> set (pproctab s)) \<and>
     length (irqs s) = 16 \<and> (\<forall>p \<in> set (irqs s). p = NULL \<or> p \<in> set (pproctab s))"

text \<open>
  \<open>X\<close> are processes in the middle of a change, which the invariant does not constrain.
\<close>

definition states_inv :: "ptr set \<Rightarrow> kstate \<Rightarrow> ptr list \<Rightarrow> (chain_id \<Rightarrow> ptr list) \<Rightarrow> bool" where
  "states_inv X s qs L \<longleftrightarrow>
     (\<forall>p \<in> set (pproctab s) - X.
        fld tss_state s p \<in> {0, EMPTY, RECEIVING, SENDING} \<and>
        (fld tss_state s p \<noteq> EMPTY \<longrightarrow> 0 < fld schedticks s p) \<and>
        (p \<in> set qs \<longrightarrow> fld tss_state s p = 0)) \<and>
     (\<forall>i \<in> chain_ids s. \<forall>p \<in> set (L i) - X. p \<notin> set qs \<and> fld tss_state s p \<in> {0, SENDING})"

definition kinv_g :: "ptr set \<Rightarrow> kstate \<Rightarrow> ptr list \<Rightarrow> (chain_id \<Rightarrow> ptr list) \<Rightarrow> bool" where
  "kinv_g X s qs L \<longleftrightarrow> sched_inv s qs \<and> chains_inv s L \<and> tables_inv s \<and> states_inv X s qs L"

subsection \<open>What the invariant reads\<close>

definition kview :: "tss \<Rightarrow> (ptr \<times> ptr \<times> u32) \<times> bool \<times> u8 \<times> ptr \<times> ptr" where
  "kview t = (sview t, enqueued t, tss_state t, firstSender t, nextSender t)"

lemma kview_fld:
  assumes "\<And>p. map_option kview (tsss s' p) = map_option kview (tsss s p)"
  shows "fld enqueued s' = fld enqueued s" "fld tss_state s' = fld tss_state s"
    "fld firstSender s' = fld firstSender s" "fld nextSender s' = fld nextSender s"
    "fld schedticks s' = fld schedticks s"
    "dom (tsss s') = dom (tsss s)"
proof -
  show "fld enqueued s' = fld enqueued s"
    by (rule ext, rule fld_via [OF assms, of _ "fst \<circ> snd"]) (simp add: kview_def)
  show "fld tss_state s' = fld tss_state s"
    by (rule ext, rule fld_via [OF assms, of _ "fst \<circ> snd \<circ> snd"]) (simp add: kview_def)
  show "fld firstSender s' = fld firstSender s"
    by (rule ext, rule fld_via [OF assms, of _ "fst \<circ> snd \<circ> snd \<circ> snd"]) (simp add: kview_def)
  show "fld nextSender s' = fld nextSender s"
    by (rule ext, rule fld_via [OF assms, of _ "snd \<circ> snd \<circ> snd \<circ> snd"]) (simp add: kview_def)
  show "fld schedticks s' = fld schedticks s"
    by (rule ext, rule fld_via [OF assms, of _ "snd \<circ> snd \<circ> fst"]) (simp add: kview_def sview_def)
  have "(tsss s' p = None) = (tsss s p = None)" for p
    using assms [of p] by (metis map_option_is_None)
  then show "dom (tsss s') = dom (tsss s)" by (simp add: dom_def)
qed

lemma kview_sview:
  assumes "map_option kview a = map_option kview b"
  shows "map_option sview a = map_option sview b"
  using assms by (cases a; cases b) (auto simp: kview_def)

lemma kinv_g_cong:
  assumes v: "\<And>p. map_option kview (tsss s' p) = map_option kview (tsss s p)"
    and "schedqueue s' = schedqueue s" and "featureTable s' = featureTable s"
    and "irqs s' = irqs s" and "pproctab s' = pproctab s" and "idlestate s' = idlestate s"
  shows "kinv_g X s' qs L = kinv_g X s qs L"
proof -
  have "chain_inv s' qs = chain_inv s qs"
    using assms(2,5,6) by (intro chain_inv_sview kview_sview [OF v]) simp_all
  then have "sched_inv s' qs = sched_inv s qs"
    by (simp add: sched_inv_def flags_inv_def kview_fld [OF v])
  moreover have "chain_ids s' = chain_ids s" "chain_head s' = chain_head s"
    using assms by (auto simp: chain_ids_def chain_head_def kview_fld [OF v] fun_eq_iff split: chain_id.splits)
  ultimately show ?thesis
    using assms(2-) by (simp add: kinv_g_def chains_inv_def tables_inv_def states_inv_def kview_fld [OF v])
qed

lemma kinv_g_tss:
  assumes "tsss s p = Some t" and "kview t' = kview t"
  shows "kinv_g X (s\<lparr>tsss := (tsss s)(p \<mapsto> t')\<rparr>) qs L = kinv_g X s qs L"
  using assms by (intro kinv_g_cong) auto

lemma kinv_g_upd [simp]:
  "kinv_g X (s\<lparr>mem := m\<rparr>) qs L = kinv_g X s qs L"
  "kinv_g X (s\<lparr>io_trace := tr\<rparr>) qs L = kinv_g X s qs L"
  "kinv_g X (s\<lparr>port_accessers := pa\<rparr>) qs L = kinv_g X s qs L"
  "kinv_g X (s\<lparr>curptr := a\<rparr>) qs L = kinv_g X s qs L"
  "kinv_g X (s\<lparr>nextptr := a\<rparr>) qs L = kinv_g X s qs L"
  "kinv_g X (s\<lparr>hours := h\<rparr>) qs L = kinv_g X s qs L"
  "kinv_g X (s\<lparr>minutes := b\<rparr>) qs L = kinv_g X s qs L"
  "kinv_g X (s\<lparr>seconds := b\<rparr>) qs L = kinv_g X s qs L"
  "kinv_g X (s\<lparr>gdt_limit := c\<rparr>) qs L = kinv_g X s qs L"
  "kinv_g X (s\<lparr>in_kernel := d\<rparr>) qs L = kinv_g X s qs L"
  "kinv_g X (s\<lparr>flag := d\<rparr>) qs L = kinv_g X s qs L"
  "kinv_g X (s\<lparr>console := e\<rparr>) qs L = kinv_g X s qs L"
  by (intro kinv_g_cong; simp)+

lemma kview_upd [simp]:
  "kview (t\<lparr>esi_reg := a\<rparr>) = kview t" "kview (t\<lparr>eax_reg := a\<rparr>) = kview t"
  "kview (t\<lparr>ebx_reg := a\<rparr>) = kview t" "kview (t\<lparr>interrupts := b\<rparr>) = kview t"
  "kview (t\<lparr>receivingFrom := a\<rparr>) = kview t" "kview (t\<lparr>backlink := b\<rparr>) = kview t"
  "kview (t\<lparr>ticksleft := a\<rparr>) = kview t"
  by (simp_all add: kview_def sview_def)

subsection \<open>Consequences\<close>

lemma kinv_g_proc:
  assumes "kinv_g X s qs L" and "p \<in> set (pproctab s)"
  shows "\<exists>t. tsss s p = Some t" "p \<noteq> NULL" "p \<noteq> idlestate s"
proof -
  have i: "tsss s NULL = None" "set (pproctab s) \<subseteq> dom (tsss s)" "idlestate s \<notin> set (pproctab s)"
    using assms(1) by (simp_all add: kinv_g_def sched_inv_def chain_inv_def)
  then show "\<exists>t. tsss s p = Some t" using assms(2) by auto
  show "p \<noteq> NULL" using i(1,2) assms(2) by auto
  show "p \<noteq> idlestate s" using i(3) assms(2) by auto
qed

lemma kinv_g_queue: "kinv_g X s qs L \<Longrightarrow> p \<in> set qs \<Longrightarrow> p \<in> set (pproctab s)"
  by (auto simp: kinv_g_def sched_inv_def chain_inv_def)

lemma kinv_g_chain: "kinv_g X s qs L \<Longrightarrow> i \<in> chain_ids s \<Longrightarrow>
    slseg (fld nextSender s) (chain_head s i) (L i) NULL \<and> set (L i) \<subseteq> set (pproctab s)"
  by (simp add: kinv_g_def chains_inv_def)

lemma kinv_g_disjoint: "kinv_g X s qs L \<Longrightarrow> i \<in> chain_ids s \<Longrightarrow> j \<in> chain_ids s \<Longrightarrow> i \<noteq> j \<Longrightarrow>
    p \<in> set (L i) \<Longrightarrow> p \<notin> set (L j)"
  unfolding kinv_g_def chains_inv_def by blast

lemma kinv_g_blocked: "kinv_g X s qs L \<Longrightarrow> i \<in> chain_ids s \<Longrightarrow> p \<in> set (L i) \<Longrightarrow> p \<notin> X \<Longrightarrow>
    p \<notin> set qs \<and> fld tss_state s p \<in> {0, SENDING}"
  by (auto simp: kinv_g_def states_inv_def)

lemma kinv_g_state: "kinv_g X s qs L \<Longrightarrow> p \<in> set (pproctab s) \<Longrightarrow> p \<notin> X \<Longrightarrow>
    fld tss_state s p \<in> {0, EMPTY, RECEIVING, SENDING} \<and>
    (fld tss_state s p \<noteq> EMPTY \<longrightarrow> 0 < fld schedticks s p) \<and>
    (p \<in> set qs \<longrightarrow> fld tss_state s p = 0)"
  by (simp add: kinv_g_def states_inv_def)

lemma chain_ids_simps [simp]:
  "Senders p \<in> chain_ids s \<longleftrightarrow> p \<in> set (pproctab s)" "Waiters f \<in> chain_ids s \<longleftrightarrow> f < 4"
  by (auto simp: chain_ids_def)

lemma kinv_g_mono: "kinv_g X s qs L \<Longrightarrow> X \<subseteq> Y \<Longrightarrow> kinv_g Y s qs L"
  by (auto simp: kinv_g_def states_inv_def)

text \<open>An exempt process that meets the conditions again.\<close>

lemma kinv_g_restore:
  assumes "kinv_g (insert p X) s qs L"
    and "p \<in> set (pproctab s) \<Longrightarrow> fld tss_state s p \<in> {0, EMPTY, RECEIVING, SENDING} \<and>
      (fld tss_state s p \<noteq> EMPTY \<longrightarrow> 0 < fld schedticks s p) \<and>
      (p \<in> set qs \<longrightarrow> fld tss_state s p = 0)"
    and "\<And>i. i \<in> chain_ids s \<Longrightarrow> p \<in> set (L i) \<Longrightarrow> p \<notin> set qs \<and> fld tss_state s p \<in> {0, SENDING}"
  shows "kinv_g X s qs L"
  using assms unfolding kinv_g_def states_inv_def by (metis Diff_iff insert_iff)

subsection \<open>The scheduler's operations\<close>

lemma score_kinv_g:
  assumes inv: "kinv_g X s qs L" and sc: "score s' = score s" and sched: "sched_inv s' qs'"
    and st: "\<And>p. p \<in> set qs' \<Longrightarrow> p \<notin> set qs \<Longrightarrow>
      (p \<notin> X \<longrightarrow> fld tss_state s p = 0) \<and> (p \<notin> X \<longrightarrow> (\<forall>i \<in> chain_ids s. p \<notin> set (L i)))"
  shows "kinv_g X s' qs' L"
proof -
  note eqs = score_eqD [OF sc] score_flds [OF sc]
  have ids: "chain_ids s' = chain_ids s" by (simp add: chain_ids_def eqs)
  have "chain_head s' i = chain_head s i" for i
    by (cases i) (simp_all add: chain_head_def eqs)
  then have "chains_inv s' L" "tables_inv s'"
    using inv by (simp_all add: kinv_g_def chains_inv_def tables_inv_def ids eqs)
  moreover have "states_inv X s' qs' L"
    unfolding states_inv_def ids eqs
  proof (intro conjI ballI)
    fix p assume p: "p \<in> set (pproctab s) - X"
    then show "fld tss_state s p \<in> {0, EMPTY, RECEIVING, SENDING}"
      "fld tss_state s p \<noteq> EMPTY \<longrightarrow> 0 < fld schedticks s p"
      using kinv_g_state [OF inv] by auto
    show "p \<in> set qs' \<longrightarrow> fld tss_state s p = 0"
      using st [of p] kinv_g_state [OF inv, of p] p by auto
  next
    fix i p assume "i \<in> chain_ids s" "p \<in> set (L i) - X"
    then show "p \<notin> set qs'" "fld tss_state s p \<in> {0, SENDING}"
      using st [of p] kinv_g_blocked [OF inv, of i p] by auto
  qed
  ultimately show ?thesis using sched by (simp add: kinv_g_def)
qed

lemma enqueue_kinv_g:
  assumes inv: "kinv_g X s qs L" and p: "p \<in> set (pproctab s)" and pos: "0 < fld schedticks s p"
    and st: "p \<notin> X \<Longrightarrow> fld tss_state s p = 0 \<and> (\<forall>i \<in> chain_ids s. p \<notin> set (L i))"
  shows "\<exists>s' qs'. enqueue p s = Some s' \<and> kinv_g X s' qs' L \<and> set qs' = insert p (set qs) \<and>
    score s' = score s \<and> curptr s' = curptr s \<and> nextptr s' = nextptr s"
proof (cases "p \<in> set qs")
  case True
  then have "enqueue p s = Some s" using inv by (intro enqueue_skip [of s qs]) (simp add: kinv_g_def)
  with True inv show ?thesis by auto
next
  case False
  have "sched_inv s qs" using inv by (simp add: kinv_g_def)
  from enqueue_Some [OF this p False pos] obtain s' xs ys where s': "enqueue p s = Some s'"
      "qs = xs @ ys" "sched_inv s' (xs @ p # ys)" "score s' = score s" "curptr s' = curptr s"
      "nextptr s' = nextptr s" by blast
  have "kinv_g X s' (xs @ p # ys) L"
    by (rule score_kinv_g [OF inv s'(4,3)]) (use s'(2) st in auto)
  then show ?thesis using s' by (intro exI [of _ s'] exI [of _ "xs @ p # ys"]) auto
qed

lemma dequeue_kinv_g:
  assumes inv: "kinv_g X s qs L" and p: "p \<in> set (pproctab s)"
    and cur: "nextptr s = NULL \<or> nextptr s = curptr s"
  shows "\<exists>s'. dequeue p s = Some s' \<and> kinv_g X s' (remove1 p qs) L \<and> score s' = score s \<and>
    (if curptr s = p \<and> p \<in> set qs \<and> qs \<noteq> [p]
     then curptr s' = nextptr s' \<and> nextptr s' \<in> set (remove1 p qs)
     else curptr s' = curptr s \<and> nextptr s' = nextptr s)"
proof (cases "p \<in> set qs")
  case True
  have sched: "sched_inv s qs" using inv by (simp add: kinv_g_def)
  then have dist: "distinct qs" by (simp add: sched_inv_def chain_inv_def)
  have "curptr s = p \<Longrightarrow> nextptr s = NULL \<or> nextptr s = p" using cur by auto
  from dequeue_Some [OF sched True this] obtain s' where s': "dequeue p s = Some s'"
      "sched_inv s' (remove1 p qs)" "score s' = score s"
      "if curptr s = p \<and> qs \<noteq> [p] then curptr s' = nextptr s' \<and> nextptr s' \<in> set (remove1 p qs)
       else curptr s' = curptr s \<and> nextptr s' = nextptr s" by blast
  have "kinv_g X s' (remove1 p qs) L"
    by (rule score_kinv_g [OF inv s'(3,2)]) (use dist in \<open>auto dest: notin_set_remove1\<close>)
  then show ?thesis using s' True by auto
next
  case False
  have "p \<in> dom (tsss s)" using kinv_g_proc(1) [OF inv p] by auto
  then have "dequeue p s = Some s"
    using inv False by (intro dequeue_skip [of s qs]) (simp_all add: kinv_g_def)
  with False inv show ?thesis by (simp add: remove1_idem)
qed

section \<open>Walking a chain\<close>

lemma find_sender_chain:
  assumes "slseg (fld nextSender s) cur zs NULL" and "set zs \<subseteq> dom (tsss s)"
  shows "find_sender (tsss s) d cur = Some (if d \<in> set zs then d else NULL)"
  using assms
proof (induction zs arbitrary: cur)
  case Nil
  then show ?case by (simp add: find_sender.simps)
next
  case (Cons z zs)
  then obtain t where t: "tsss s z = Some t" by auto
  from Cons have z: "cur = z" "z \<noteq> NULL" "slseg (fld nextSender s) (nextSender t) zs NULL"
    by (simp_all add: fld_Some [OF t])
  show ?case
    using Cons.IH [OF z(3)] Cons.prems(2) z(1,2) t by (subst find_sender.simps) auto
qed

lemma sender_before_chain:
  assumes "slseg (fld nextSender s) cur (xs @ x # ys) NULL" and "set xs \<subseteq> dom (tsss s)"
    and "x \<notin> set xs"
  shows "sender_before (tsss s) x a cur = Some (last (a # xs))"
  using assms
proof (induction xs arbitrary: cur a)
  case Nil
  then show ?case by (simp add: sender_before.simps)
next
  case (Cons z zs)
  then obtain t where t: "tsss s z = Some t" by auto
  from Cons have z: "cur = z" "slseg (fld nextSender s) (nextSender t) (zs @ x # ys) NULL"
    by (simp_all add: fld_Some [OF t])
  show ?case
    using Cons.IH [OF z(2)] Cons.prems(2,3) z(1) t by (subst sender_before.simps) auto
qed

lemma last_sender_chain:
  assumes "slseg (fld nextSender s) cur zs NULL" and "set zs \<subseteq> dom (tsss s)"
  shows "last_sender (tsss s) a cur = Some (last (a # zs))"
  using assms
proof (induction zs arbitrary: cur a)
  case Nil
  then show ?case by (simp add: last_sender.simps)
next
  case (Cons z zs)
  then obtain t where t: "tsss s z = Some t" by auto
  from Cons have z: "cur = z" "z \<noteq> NULL" "slseg (fld nextSender s) (nextSender t) zs NULL"
    by (simp_all add: fld_Some [OF t])
  show ?case
    using Cons.IH [OF z(3)] Cons.prems(2) z(1,2) t by (subst last_sender.simps) auto
qed

section \<open>Changing one chain\<close>

lemma chains_invI:
  assumes "\<And>i. i \<in> chain_ids s \<Longrightarrow> slseg (fld nextSender s) (chain_head s i) (L i) NULL"
    and "\<And>i. i \<in> chain_ids s \<Longrightarrow> set (L i) \<subseteq> set (pproctab s)"
    and "\<And>i j p. i \<in> chain_ids s \<Longrightarrow> j \<in> chain_ids s \<Longrightarrow> i \<noteq> j \<Longrightarrow> p \<in> set (L i) \<Longrightarrow> p \<notin> set (L j)"
  shows "chains_inv s L"
  using assms unfolding chains_inv_def by blast

lemma chains_invD:
  assumes "chains_inv s L" and "i \<in> chain_ids s"
  shows "slseg (fld nextSender s) (chain_head s i) (L i) NULL" "set (L i) \<subseteq> set (pproctab s)"
    "j \<in> chain_ids s \<Longrightarrow> i \<noteq> j \<Longrightarrow> p \<in> set (L i) \<Longrightarrow> p \<notin> set (L j)"
  using assms unfolding chains_inv_def by blast+

lemma chains_append:
  assumes inv: "chains_inv s L" and i: "i \<in> chain_ids s" and x: "x \<in> set (pproctab s)" "x \<noteq> NULL"
    and fresh: "\<forall>j \<in> chain_ids s. x \<notin> set (L j)" and pp: "pproctab s' = pproctab s"
    and nx: "fld nextSender s' = (if L i = [] then fld nextSender s
        else (fld nextSender s)(last (L i) := x))(x := NULL)"
    and hd: "\<forall>j \<in> chain_ids s. chain_head s' j = (if j = i \<and> L i = [] then x else chain_head s j)"
  shows "chains_inv s' (L(i := L i @ [x]))"
proof -
  have ids: "chain_ids s' = chain_ids s" by (simp add: chain_ids_def pp)
  note seg = chains_invD [OF inv]
  have other: "slseg (fld nextSender s') (chain_head s j) (L j) NULL" if j: "j \<in> chain_ids s" "j \<noteq> i" for j
  proof (rule slseg_eq [OF seg(1) [OF j(1)]])
    fix z assume z: "z \<in> set (L j)"
    then have "z \<noteq> x" using fresh j by blast
    moreover have "z \<notin> set (L i)" using seg(3) [OF j(1) i j(2) z] .
    then have "L i \<noteq> [] \<Longrightarrow> z \<noteq> last (L i)" by auto
    ultimately show "fld nextSender s' z = fld nextSender s z" by (simp add: nx)
  qed
  have mine: "slseg (fld nextSender s') (chain_head s' i) (L i @ [x]) NULL"
    using slseg_snoc [OF seg(1) [OF i]] fresh i x hd by (simp add: nx)
  show ?thesis
  proof (rule chains_invI, unfold ids pp)
    fix j assume j: "j \<in> chain_ids s"
    show "slseg (fld nextSender s') (chain_head s' j) ((L(i := L i @ [x])) j) NULL"
      using mine other [OF j] hd j by (cases "j = i") simp_all
    show "set ((L(i := L i @ [x])) j) \<subseteq> set (pproctab s)"
      using seg(2) [OF j] x by (cases "j = i") simp_all
    fix k p assume k: "k \<in> chain_ids s" and "j \<noteq> k" and "p \<in> set ((L(i := L i @ [x])) j)"
    then show "p \<notin> set ((L(i := L i @ [x])) k)"
      using seg(3) [OF j k] fresh j k by (cases "j = i"; cases "k = i") auto
  qed
qed

lemma chains_remove:
  assumes inv: "chains_inv s L" and i: "i \<in> chain_ids s" and Li: "L i = xs @ x # ys"
    and pp: "pproctab s' = pproctab s"
    and nx: "fld nextSender s' = (if xs = [] then fld nextSender s
        else (fld nextSender s)(last xs := fld nextSender s x))(x := NULL)"
    and hd: "\<forall>j \<in> chain_ids s. chain_head s' j =
        (if j = i \<and> xs = [] then fld nextSender s x else chain_head s j)"
  shows "chains_inv s' (L(i := xs @ ys))"
proof -
  have ids: "chain_ids s' = chain_ids s" by (simp add: chain_ids_def pp)
  note seg = chains_invD [OF inv]
  have other: "slseg (fld nextSender s') (chain_head s j) (L j) NULL" if j: "j \<in> chain_ids s" "j \<noteq> i" for j
  proof (rule slseg_eq [OF seg(1) [OF j(1)]])
    fix z assume z: "z \<in> set (L j)"
    then have "z \<notin> set (L i)" using seg(3) [OF j(1) i j(2)] by blast
    then have "z \<noteq> x" "xs \<noteq> [] \<Longrightarrow> z \<noteq> last xs" using Li by auto
    then show "fld nextSender s' z = fld nextSender s z" by (simp add: nx)
  qed
  have mine: "slseg (fld nextSender s') (chain_head s' i) (xs @ ys) NULL"
    using slseg_remove [OF seg(1) [OF i, unfolded Li]] i hd by (simp add: nx)
  have sub: "set (xs @ ys) \<subseteq> set (L i)" using Li by auto
  show ?thesis
  proof (rule chains_invI, unfold ids pp)
    fix j assume j: "j \<in> chain_ids s"
    show "slseg (fld nextSender s') (chain_head s' j) ((L(i := xs @ ys)) j) NULL"
      using mine other [OF j] hd j by (cases "j = i") simp_all
    show "set ((L(i := xs @ ys)) j) \<subseteq> set (pproctab s)"
      using seg(2) [OF j] sub by (cases "j = i") auto
    fix k p assume k: "k \<in> chain_ids s" and "j \<noteq> k" and "p \<in> set ((L(i := xs @ ys)) j)"
    then show "p \<notin> set ((L(i := xs @ ys)) k)"
      using seg(3) [OF j k, of p] sub by (cases "j = i"; cases "k = i") auto
  qed
qed

lemma chains_transfer:
  assumes inv: "chains_inv s L" and i: "i \<in> chain_ids s" and j: "j \<in> chain_ids s" and ij: "i \<noteq> j"
    and pp: "pproctab s' = pproctab s" and nx: "fld nextSender s' = fld nextSender s"
    and hd: "\<forall>k \<in> chain_ids s. chain_head s' k =
        (if k = i then chain_head s j else if k = j then NULL else chain_head s k)"
  shows "chains_inv s' (L(i := L j, j := []))"
proof -
  have ids: "chain_ids s' = chain_ids s" by (simp add: chain_ids_def pp)
  note seg = chains_invD [OF inv]
  show ?thesis
  proof (rule chains_invI, unfold ids pp nx)
    fix k assume k: "k \<in> chain_ids s"
    show "slseg (fld nextSender s) (chain_head s' k) ((L(i := L j, j := [])) k) NULL"
      using hd k ij seg(1) [OF k] seg(1) [OF j] by simp
    show "set ((L(i := L j, j := [])) k) \<subseteq> set (pproctab s)"
      using seg(2) [OF k] seg(2) [OF j] by simp
    fix l p assume l: "l \<in> chain_ids s" and "k \<noteq> l" and "p \<in> set ((L(i := L j, j := [])) k)"
    then show "p \<notin> set ((L(i := L j, j := [])) l)"
      using seg(3) [OF k l, of p] seg(3) [OF k j, of p] seg(3) [OF j l, of p] ij by (auto split: if_splits)
  qed
qed

section \<open>Operations that keep the invariant\<close>

text \<open>The parts of the state that no operation changes.\<close>

definition static :: "kstate \<Rightarrow> ptr list \<times> ptr \<times> ptr list \<times> ptr set" where
  "static s = (pproctab s, idlestate s, intrrptstate s, dom (tsss s))"

lemma static_score: "score s' = score s \<Longrightarrow> static s' = static s"
  unfolding static_def prod.inject by (intro conjI score_eqD)

lemma static_tss [simp]: "tsss s p = Some t \<Longrightarrow> static (s\<lparr>tsss := (tsss s)(p \<mapsto> t')\<rparr>) = static s"
  by (auto simp: static_def)

lemma static_upd [simp]:
  "static (s\<lparr>mem := m\<rparr>) = static s" "static (s\<lparr>featureTable := ft\<rparr>) = static s"
  "static (s\<lparr>irqs := iq\<rparr>) = static s" "static (s\<lparr>port_accessers := pa\<rparr>) = static s"
  "static (s\<lparr>io_trace := tr\<rparr>) = static s" "static (s\<lparr>curptr := p\<rparr>) = static s"
  "static (s\<lparr>nextptr := p\<rparr>) = static s" "static (s\<lparr>hours := h\<rparr>) = static s"
  "static (s\<lparr>minutes := b\<rparr>) = static s" "static (s\<lparr>seconds := b\<rparr>) = static s"
  "static (s\<lparr>in_kernel := h\<rparr>) = static s" "static (s\<lparr>flag := h\<rparr>) = static s"
  "static (s\<lparr>schedqueue := q\<rparr>) = static s"
  by (simp_all add: static_def)

lemma staticD:
  assumes "static s' = static s"
  shows "pproctab s' = pproctab s" "idlestate s' = idlestate s" "intrrptstate s' = intrrptstate s"
    "dom (tsss s') = dom (tsss s)" "chain_ids s' = chain_ids s"
  using assms by (simp_all add: static_def chain_ids_def)

definition sstate :: "tss \<Rightarrow> (ptr \<times> ptr \<times> u32) \<times> bool \<times> u8" where
  "sstate t = (sview t, enqueued t, tss_state t)"

lemma kinv_g_chains:
  assumes inv: "kinv_g X s qs L"
    and v: "\<And>p. map_option sstate (tsss s' p) = map_option sstate (tsss s p)"
    and eq: "schedqueue s' = schedqueue s" "pproctab s' = pproctab s" "idlestate s' = idlestate s"
    and tab: "tables_inv s'" and ch: "chains_inv s' L'"
    and mem: "\<And>i p. i \<in> chain_ids s \<Longrightarrow> p \<in> set (L' i) \<Longrightarrow> p \<notin> X \<Longrightarrow>
      p \<notin> set qs \<and> fld tss_state s p \<in> {0, SENDING}"
  shows "kinv_g X s' qs L'"
proof -
  have sv: "map_option sview (tsss s' p) = map_option sview (tsss s p)" for p
    using arg_cong [OF v [of p], of "map_option fst"] by (simp add: option.map_comp comp_def sstate_def)
  have "fld enqueued s' = fld enqueued s"
    by (rule ext, rule fld_via [OF v, of _ "fst \<circ> snd"]) (simp add: sstate_def)
  then have "flags_inv s' qs = flags_inv s qs"
    by (simp add: flags_inv_def sview_flds [OF sv])
  moreover have "chain_inv s' qs = chain_inv s qs"
    using eq by (intro chain_inv_sview sv) simp_all
  moreover have "fld tss_state s' = fld tss_state s"
    by (rule ext, rule fld_via [OF v, of _ "snd \<circ> snd"]) (simp add: sstate_def)
  moreover have "chain_ids s' = chain_ids s" by (simp add: chain_ids_def eq)
  ultimately show ?thesis
    using inv tab ch mem
    by (auto simp: kinv_g_def sched_inv_def states_inv_def sview_flds [OF sv] eq)
qed

lemma state_kinv_g:
  assumes inv: "kinv_g X s qs L" and t: "tsss s p = Some t"
    and ok: "p \<in> set (pproctab s) \<Longrightarrow> p \<notin> X \<Longrightarrow> v \<in> {0, EMPTY, RECEIVING, SENDING} \<and>
      (v \<noteq> EMPTY \<longrightarrow> 0 < schedticks t) \<and> (p \<in> set qs \<longrightarrow> v = 0) \<and>
      ((\<exists>i \<in> chain_ids s. p \<in> set (L i)) \<longrightarrow> v \<in> {0, SENDING})"
  shows "kinv_g X (s\<lparr>tsss := (tsss s)(p \<mapsto> t\<lparr>tss_state := v\<rparr>)\<rparr>) qs L" (is "kinv_g X ?s qs L")
proof -
  have ids: "chain_ids ?s = chain_ids s" by (simp add: chain_ids_def)
  have f: "fld enqueued ?s = fld enqueued s" "fld firstSender ?s = fld firstSender s"
    "fld nextSender ?s = fld nextSender s" "fld schedticks ?s = fld schedticks s"
    "fld tss_state ?s = (fld tss_state s)(p := v)"
    using fld_triv [OF t, of enqueued] fld_triv [OF t, of firstSender]
      fld_triv [OF t, of nextSender] fld_triv [OF t, of schedticks] by simp_all
  have d: "dom (tsss ?s) = dom (tsss s)" using t by auto
  have "chain_inv ?s qs = chain_inv s qs" using t by (intro chain_inv_tss) (simp_all add: sview_def)
  then have "sched_inv ?s qs" using inv f(1) d by (simp add: kinv_g_def sched_inv_def flags_inv_def)
  moreover have "chain_head ?s = chain_head s"
    using f(2) by (simp add: chain_head_def fun_eq_iff split: chain_id.splits)
  then have "chains_inv ?s L" "tables_inv ?s"
    using inv f(3) ids by (simp_all add: kinv_g_def chains_inv_def tables_inv_def)
  moreover have "states_inv X ?s qs L"
    unfolding states_inv_def ids f
  proof (intro conjI ballI)
    fix q assume q: "q \<in> set (pproctab ?s) - X"
    note old = kinv_g_state [OF inv, of q]
    show "((fld tss_state s)(p := v)) q \<in> {0, EMPTY, RECEIVING, SENDING}"
      "((fld tss_state s)(p := v)) q \<noteq> EMPTY \<longrightarrow> 0 < fld schedticks s q"
      "q \<in> set qs \<longrightarrow> ((fld tss_state s)(p := v)) q = 0"
      using q old ok by (cases "q = p"; simp add: fld_Some [OF t])+
  next
    fix i q assume q: "i \<in> chain_ids s" "q \<in> set (L i) - X"
    note old = kinv_g_blocked [OF inv, of i q] kinv_g_chain [OF inv, of i]
    show "q \<notin> set qs" "((fld tss_state s)(p := v)) q \<in> {0, SENDING}"
      using q old ok by (cases "q = p"; auto)+
  qed
  ultimately show ?thesis by (simp add: kinv_g_def)
qed

lemma tsss_id [simp]: "s\<lparr>tsss := tsss s\<rparr> = s"
  by simp

lemma fld_upd_map [simp]: "fld f (s\<lparr>tsss := m(p \<mapsto> t)\<rparr>) = (fld f (s\<lparr>tsss := m\<rparr>))(p := f t)"
  by (auto simp: fld_def)

lemma fld_upd_same:
  "tsss s p = Some t \<Longrightarrow> f t' = f t \<Longrightarrow> fld f (s\<lparr>tsss := (tsss s)(p \<mapsto> t')\<rparr>) = fld f s"
  by (auto simp: fld_def fun_eq_iff)

lemma sstate_upd:
  "tsss s p = Some t \<Longrightarrow> sstate t' = sstate t \<Longrightarrow>
     map_option sstate (tsss (s\<lparr>tsss := (tsss s)(p \<mapsto> t')\<rparr>) q) = map_option sstate (tsss s q)"
  by simp

lemma sstate_simps [simp]:
  "sstate (t\<lparr>nextSender := a\<rparr>) = sstate t" "sstate (t\<lparr>firstSender := a\<rparr>) = sstate t"
  by (simp_all add: sstate_def sview_def)

lemma chain_head_simps [simp]:
  "chain_head s (Senders p) = fld firstSender s p"
  "chain_head s (Waiters f) = waiter (featureTable s ! f)"
  by (simp_all add: chain_head_def)

lemma kinv_g_parts:
  assumes "kinv_g X s qs L"
  shows "sched_inv s qs" "chains_inv s L" "tables_inv s" "states_inv X s qs L"
  using assms by (simp_all add: kinv_g_def)

lemma tables_tss [simp]: "tables_inv (s\<lparr>tsss := m\<rparr>) = tables_inv s"
  by (simp add: tables_inv_def)

section \<open>A process becomes ready\<close>

lemma unsetStateFlag_kinv_g:
  assumes inv: "kinv_g X s qs L" and t: "tsss s p = Some t" and p: "p \<in> set (pproctab s)"
    and z: "tss_state t AND NOT f = 0" and pos: "0 < schedticks t"
    and free: "p \<notin> X \<Longrightarrow> \<forall>i \<in> chain_ids s. p \<notin> set (L i)"
  shows "\<exists>s' qs'. unsetStateFlag p f s = Some s' \<and> kinv_g X s' qs' L \<and>
    set qs' = insert p (set qs) \<and> score s' = score (s\<lparr>tsss := (tsss s)(p \<mapsto> t\<lparr>tss_state := 0\<rparr>)\<rparr>) \<and>
    curptr s' = curptr s \<and> nextptr s' = nextptr s"
proof -
  let ?s = "s\<lparr>tsss := (tsss s)(p \<mapsto> t\<lparr>tss_state := 0\<rparr>)\<rparr>"
  have k: "kinv_g X ?s qs L"
    using free pos by (intro state_kinv_g [OF inv t]) auto
  have "\<exists>s' qs'. enqueue p ?s = Some s' \<and> kinv_g X s' qs' L \<and> set qs' = insert p (set qs) \<and>
      score s' = score ?s \<and> curptr s' = curptr ?s \<and> nextptr s' = nextptr ?s"
    using p pos free by (intro enqueue_kinv_g [OF k]) (auto simp: fld_def chain_ids_def)
  moreover have "unsetStateFlag p f s = enqueue p ?s"
    using z by (simp add: unsetStateFlag_def tss_upd_Some [OF t])
  ultimately show ?thesis by auto
qed

lemma blocked_unset: "st \<in> {0, SENDING} \<Longrightarrow> st AND NOT SENDING = 0"
  by (auto simp: SENDING_def)

lemma remove_from_senders_list_kinv_g:
  assumes inv: "kinv_g X s qs L" and r: "r \<in> set (pproctab s)" and x: "x \<in> set (L (Senders r))" "x \<notin> X"
  shows "\<exists>s' qs'. remove_from_senders_list x r s = Some s' \<and>
    kinv_g X s' qs' (L(Senders r := remove1 x (L (Senders r)))) \<and> set qs' = insert x (set qs) \<and>
    static s' = static s \<and> curptr s' = curptr s \<and> nextptr s' = nextptr s \<and>
    mem s' = mem s \<and> fld eax_reg s' = fld eax_reg s"
proof -
  let ?i = "Senders r"
  have i: "?i \<in> chain_ids s" using r by simp
  note ch = kinv_g_parts(2) [OF inv] and seg = chains_invD [OF kinv_g_parts(2) [OF inv] i]
  obtain xs ys where Li: "L ?i = xs @ x # ys" using x(1) by (meson split_list)
  have dist: "distinct (L ?i)" using seg(1) by (rule slseg_distinct)
  have rm: "remove1 x (L ?i) = xs @ ys" using dist Li by (simp add: remove1_append)
  have procs: "set (L ?i) \<subseteq> set (pproctab s)" using seg(2) .
  have dom: "set (L ?i) \<subseteq> dom (tsss s)" using procs kinv_g_proc(1) [OF inv] by blast
  have nn: "NULL \<notin> set (L ?i)" using procs kinv_g_proc(2) [OF inv] by blast
  obtain tr where tr: "tsss s r = Some tr" using kinv_g_proc(1) [OF inv r] by blast
  obtain tx where tx: "tsss s x = Some tx" using dom x(1) by blast
  have scan: "sender_before (tsss s) x NULL (firstSender tr) = Some (last (NULL # xs))"
    using sender_before_chain [of s "firstSender tr" xs x ys] seg(1) Li dom dist
    by (simp add: fld_Some [OF tr])
  let ?v = "nextSender tx"
  obtain p tp f where upd: "tsss s p = Some tp" "sstate (f tp) = sstate tp"
      "(if last (NULL # xs) = NULL then tss_upd r (\<lambda>r. r\<lparr>firstSender := ?v\<rparr>) s
        else tss_upd (last (NULL # xs)) (\<lambda>pv. pv\<lparr>nextSender := ?v\<rparr>) s) = tss_upd p f s"
      "(fld nextSender s)(p := nextSender (f tp)) =
         (if xs = [] then fld nextSender s else (fld nextSender s)(last xs := ?v))"
      "(fld firstSender s)(p := firstSender (f tp)) =
         (if xs = [] then (fld firstSender s)(r := ?v) else fld firstSender s)"
      "eax_reg (f tp) = eax_reg tp"
  proof (cases "xs = []")
    case True
    then show ?thesis
      using that [of r tr "\<lambda>r. r\<lparr>firstSender := ?v\<rparr>"] tr fld_triv [OF tr, of nextSender] by simp
  next
    case False
    then have l: "last xs \<in> set (L ?i)" using Li by simp
    then obtain tl where tl: "tsss s (last xs) = Some tl" using dom by blast
    have "last xs \<noteq> NULL" using l nn by auto
    with False tl show ?thesis
      using that [of "last xs" tl "\<lambda>pv. pv\<lparr>nextSender := ?v\<rparr>"] fld_triv [OF tl, of firstSender] by simp
  qed
  let ?a = "s\<lparr>tsss := (tsss s)(p \<mapsto> f tp)\<rparr>"
  obtain ta where ta: "tsss ?a x = Some ta" using tx by (cases "x = p") auto
  define b where "b = ?a\<lparr>tsss := (tsss ?a)(x \<mapsto> ta\<lparr>nextSender := NULL\<rparr>)\<rparr>"
  have ss: "map_option sstate (tsss b q) = map_option sstate (tsss s q)" for q
    unfolding b_def using sstate_upd [OF ta, of "ta\<lparr>nextSender := NULL\<rparr>"] sstate_upd [OF upd(1,2)]
    by (metis sstate_simps(1))
  have nxt: "fld nextSender b = (if xs = [] then fld nextSender s
      else (fld nextSender s)(last xs := fld nextSender s x))(x := NULL)"
    unfolding b_def by (simp add: upd(4) fld_Some [OF tx])
  have fst: "fld firstSender b = (if xs = [] then (fld firstSender s)(r := ?v) else fld firstSender s)"
    unfolding b_def by (subst fld_upd_same [OF ta]) (simp_all add: upd(5))
  have beq: "schedqueue b = schedqueue s" "pproctab b = pproctab s" "idlestate b = idlestate s"
      "featureTable b = featureTable s" "tables_inv b = tables_inv s" "curptr b = curptr s"
      "nextptr b = nextptr s" "chain_ids b = chain_ids s"
    unfolding b_def using ta upd(1) by (simp_all add: chain_ids_def)
  have bst: "static b = static s"
    unfolding b_def by (simp only: static_tss [OF ta] static_tss [OF upd(1)])
  have bmem: "mem b = mem s" by (simp add: b_def)
  have beax: "fld eax_reg b = fld eax_reg s"
    unfolding b_def
    by (subst fld_upd_same [OF ta], simp, rule fld_upd_same [where f = eax_reg, OF upd(1,6)])
  have tb: "tsss b x = Some (ta\<lparr>nextSender := NULL\<rparr>)" by (simp add: b_def)
  have cb: "chains_inv b (L(?i := xs @ ys))"
    by (rule chains_remove [OF ch i Li beq(2) nxt])
      (auto simp: chain_head_def fst beq fld_Some [OF tx] split: chain_id.splits)
  have kb: "kinv_g X b qs (L(?i := xs @ ys))"
  proof (rule kinv_g_chains [OF inv ss beq(1-3) _ cb])
    fix j q assume "j \<in> chain_ids s" "q \<in> set ((L(?i := xs @ ys)) j)" "q \<notin> X"
    then show "q \<notin> set qs \<and> fld tss_state s q \<in> {0, SENDING}"
      using kinv_g_blocked [OF inv, of j q] Li by (auto split: if_splits)
  qed (use kinv_g_parts(3) [OF inv] beq in simp)
  have st: "tss_state ta = tss_state tx" "schedticks ta = schedticks tx"
    using sstate_upd [OF upd(1,2), of x] ta tx by (simp_all add: sstate_def sview_def)
  have xp: "x \<in> set (pproctab s)" using procs x(1) by blast
  have xst: "fld tss_state s x \<in> {0, SENDING}" using kinv_g_blocked [OF inv i x] by blast
  let ?tb = "ta\<lparr>nextSender := NULL\<rparr>"
  have "\<exists>s' qs'. unsetStateFlag x SENDING b = Some s' \<and> kinv_g X s' qs' (L(?i := xs @ ys)) \<and>
      set qs' = insert x (set qs) \<and> score s' = score (b\<lparr>tsss := (tsss b)(x \<mapsto> ?tb\<lparr>tss_state := 0\<rparr>)\<rparr>) \<and>
      curptr s' = curptr b \<and> nextptr s' = nextptr b"
  proof (rule unsetStateFlag_kinv_g [OF kb tb])
    show "tss_state ?tb AND NOT SENDING = 0"
      using blocked_unset [OF xst] by (simp add: st fld_Some [OF tx])
    show "0 < schedticks ?tb"
      using kinv_g_state [OF inv xp x(2)] xst
      by (auto simp: st fld_Some [OF tx] EMPTY_def SENDING_def)
    show "\<forall>j \<in> chain_ids b. x \<notin> set ((L(?i := xs @ ys)) j)"
      using kinv_g_disjoint [OF inv i _ _ x(1)] Li dist by (auto simp: beq)
  qed (use xp beq in simp_all)
  then obtain s' qs' where s': "unsetStateFlag x SENDING b = Some s'"
      "kinv_g X s' qs' (L(?i := xs @ ys))" "set qs' = insert x (set qs)"
      "score s' = score (b\<lparr>tsss := (tsss b)(x \<mapsto> ?tb\<lparr>tss_state := 0\<rparr>)\<rparr>)"
      "curptr s' = curptr s" "nextptr s' = nextptr s" using beq by auto
  have "remove_from_senders_list x r s = Some s'"
    unfolding remove_from_senders_list_def
    using tr scan tx upd(3) tss_upd_Some [OF upd(1), of f] tss_upd_Some [OF ta] s'(1) b_def
    by (cases "xs = []"; cases "last xs = NULL") simp_all
  moreover have "static s' = static s"
    using static_score [OF s'(4)] static_tss [OF tb] bst by simp
  moreover have "mem s' = mem s" using score_eqD(5) [OF s'(4)] bmem by simp
  moreover have "fld eax_reg s' = fld eax_reg s"
    unfolding score_flds [OF s'(4)] using beax fld_triv [OF tb, of eax_reg] by simp
  ultimately show ?thesis using s' by (intro exI [of _ s'] exI [of _ qs']) (simp add: rm)
qed

section \<open>A process blocks\<close>

lemma link_kinv_g:
  assumes inv: "kinv_g {} s qs L" and i: "i \<in> chain_ids s" and x: "x \<in> set qs"
    and ss: "\<And>q. map_option sstate (tsss a q) = map_option sstate (tsss s q)"
    and eq: "schedqueue a = schedqueue s" "pproctab a = pproctab s" "idlestate a = idlestate s"
    and tab: "tables_inv a"
    and nx: "fld nextSender a = (if L i = [] then fld nextSender s
        else (fld nextSender s)(last (L i) := x))"
    and hd: "\<forall>j \<in> chain_ids s. chain_head a j = (if j = i \<and> L i = [] then x else chain_head s j)"
    and t: "tsss a x = Some tx"
  shows "kinv_g {x} (a\<lparr>tsss := (tsss a)(x \<mapsto> tx\<lparr>nextSender := NULL\<rparr>)\<rparr>) qs (L(i := L i @ [x]))"
    (is "kinv_g _ ?b _ ?L")
proof -
  have xp: "x \<in> set (pproctab s)" "x \<noteq> NULL"
    using kinv_g_queue [OF inv x] kinv_g_proc(2) [OF inv] by blast+
  have fresh: "\<forall>j \<in> chain_ids s. x \<notin> set (L j)"
    using kinv_g_blocked [OF inv] x by blast
  have "fld nextSender ?b = (if L i = [] then fld nextSender s
      else (fld nextSender s)(last (L i) := x))(x := NULL)"
    using nx by simp
  moreover have "fld firstSender ?b = fld firstSender a"
    by (rule fld_upd_same [OF t]) simp
  then have "chain_head ?b = chain_head a"
    by (simp add: chain_head_def fun_eq_iff split: chain_id.splits)
  ultimately have ch: "chains_inv ?b ?L"
    using hd eq by (intro chains_append [OF kinv_g_parts(2) [OF inv] i xp fresh]) simp_all
  show ?thesis
  proof (rule kinv_g_chains [OF kinv_g_mono [OF inv] _ _ _ _ _ ch])
    show "map_option sstate (tsss ?b q) = map_option sstate (tsss s q)" for q
      using sstate_upd [OF t, of "tx\<lparr>nextSender := NULL\<rparr>"] ss by (metis sstate_simps(1))
    show "q \<notin> set qs \<and> fld tss_state s q \<in> {0, SENDING}"
      if "j \<in> chain_ids s" "q \<in> set (?L j)" "q \<notin> {x}" for j q
      using that kinv_g_blocked [OF inv, of j q] by (auto split: if_splits)
  qed (use eq tab in simp_all)
qed

lemma block_kinv_g:
  assumes inv: "kinv_g {x} s qs L" and x: "x \<in> set (pproctab s)"
    and cur: "nextptr s = NULL \<or> nextptr s = curptr s"
    and st: "fld tss_state s x \<in> {0, EMPTY, RECEIVING, SENDING}"
      "fld tss_state s x \<noteq> EMPTY \<longrightarrow> 0 < fld schedticks s x"
    and ch: "\<And>i. i \<in> chain_ids s \<Longrightarrow> x \<in> set (L i) \<Longrightarrow> fld tss_state s x \<in> {0, SENDING}"
  shows "\<exists>s'. dequeue x s = Some s' \<and> kinv_g {} s' (remove1 x qs) L \<and> score s' = score s \<and>
    (if curptr s = x \<and> x \<in> set qs \<and> qs \<noteq> [x]
     then curptr s' = nextptr s' \<and> nextptr s' \<in> set (remove1 x qs)
     else curptr s' = curptr s \<and> nextptr s' = nextptr s)"
proof -
  obtain s' where s': "dequeue x s = Some s'" "kinv_g {x} s' (remove1 x qs) L" "score s' = score s"
      "if curptr s = x \<and> x \<in> set qs \<and> qs \<noteq> [x]
       then curptr s' = nextptr s' \<and> nextptr s' \<in> set (remove1 x qs)
       else curptr s' = curptr s \<and> nextptr s' = nextptr s"
    using dequeue_kinv_g [OF inv x cur] by blast
  have dist: "distinct qs" using kinv_g_parts(1) [OF inv] by (simp add: sched_inv_def chain_inv_def)
  have ids: "chain_ids s' = chain_ids s" by (rule staticD(5) [OF static_score [OF s'(3)]])
  have "kinv_g {} s' (remove1 x qs) L"
  proof (rule kinv_g_restore [OF s'(2)])
    show "fld tss_state s' x \<in> {0, EMPTY, RECEIVING, SENDING} \<and>
        (fld tss_state s' x \<noteq> EMPTY \<longrightarrow> 0 < fld schedticks s' x) \<and>
        (x \<in> set (remove1 x qs) \<longrightarrow> fld tss_state s' x = 0)"
      unfolding score_flds [OF s'(3)] using st dist by (simp add: set_remove1_eq)
    show "x \<notin> set (remove1 x qs) \<and> fld tss_state s' x \<in> {0, SENDING}"
      if "i \<in> chain_ids s'" "x \<in> set (L i)" for i
      unfolding score_flds [OF s'(3)] using ch that dist ids by (simp add: set_remove1_eq)
  qed
  with s' show ?thesis by blast
qed

lemma add_to_senders_list_kinv_g:
  assumes inv: "kinv_g {} s qs L" and r: "r \<in> set (pproctab s)" and x: "x \<in> set qs"
    and cur: "nextptr s = NULL \<or> nextptr s = curptr s"
  shows "\<exists>s'. add_to_senders_list x r s = Some s' \<and>
    kinv_g {} s' (remove1 x qs) (L(Senders r := L (Senders r) @ [x])) \<and> static s' = static s \<and>
    (if curptr s = x \<and> qs \<noteq> [x] then curptr s' = nextptr s' \<and> nextptr s' \<in> set (remove1 x qs)
     else curptr s' = curptr s \<and> nextptr s' = nextptr s)"
proof -
  let ?i = "Senders r" and ?zs = "L (Senders r)"
  have i: "?i \<in> chain_ids s" using r by simp
  note seg = chains_invD [OF kinv_g_parts(2) [OF inv] i]
  have dom: "set ?zs \<subseteq> dom (tsss s)" using seg(2) kinv_g_proc(1) [OF inv] by blast
  have nn: "NULL \<notin> set ?zs" using seg(2) kinv_g_proc(2) [OF inv] by blast
  have xp: "x \<in> set (pproctab s)" by (rule kinv_g_queue [OF inv x])
  obtain tr where tr: "tsss s r = Some tr" using kinv_g_proc(1) [OF inv r] by blast
  obtain t where t: "tsss s x = Some t" using kinv_g_proc(1) [OF inv xp] by blast
  have scan: "last_sender (tsss s) NULL (firstSender tr) = Some (last (NULL # ?zs))"
    using last_sender_chain [OF seg(1) dom] by (simp add: fld_Some [OF tr])
  obtain p tp f where upd: "tsss s p = Some tp" "sstate (f tp) = sstate tp"
      "(if last (NULL # ?zs) \<noteq> NULL then tss_upd (last (NULL # ?zs)) (\<lambda>pv. pv\<lparr>nextSender := x\<rparr>) s
        else tss_upd r (\<lambda>r. r\<lparr>firstSender := x\<rparr>) s) = tss_upd p f s"
      "(fld nextSender s)(p := nextSender (f tp)) =
         (if ?zs = [] then fld nextSender s else (fld nextSender s)(last ?zs := x))"
      "(fld firstSender s)(p := firstSender (f tp)) =
         (if ?zs = [] then (fld firstSender s)(r := x) else fld firstSender s)"
  proof (cases "?zs = []")
    case True
    then show ?thesis
      using that [of r tr "\<lambda>r. r\<lparr>firstSender := x\<rparr>"] tr fld_triv [OF tr, of nextSender] by simp
  next
    case False
    then have l: "last ?zs \<in> set ?zs" by simp
    then obtain tl where tl: "tsss s (last ?zs) = Some tl" using dom by blast
    have "last ?zs \<noteq> NULL" using l nn by metis
    with False tl show ?thesis
      using that [of "last ?zs" tl "\<lambda>pv. pv\<lparr>nextSender := x\<rparr>"] fld_triv [OF tl, of firstSender] by simp
  qed
  define a where "a = s\<lparr>tsss := (tsss s)(p \<mapsto> f tp)\<rparr>"
  obtain ta where ta: "tsss a x = Some ta" using t by (cases "x = p") (auto simp: a_def)
  have ss: "map_option sstate (tsss a q) = map_option sstate (tsss s q)" for q
    unfolding a_def by (rule sstate_upd [OF upd(1,2)])
  have aeq: "schedqueue a = schedqueue s" "pproctab a = pproctab s" "idlestate a = idlestate s"
      "featureTable a = featureTable s" "tables_inv a = tables_inv s" "curptr a = curptr s"
      "nextptr a = nextptr s" "chain_ids a = chain_ids s" "static a = static s"
    using upd(1) by (simp_all add: a_def chain_ids_def)
  have nx: "fld nextSender a = (if ?zs = [] then fld nextSender s else (fld nextSender s)(last ?zs := x))"
    and fs: "fld firstSender a = (if ?zs = [] then (fld firstSender s)(r := x) else fld firstSender s)"
    by (simp_all add: a_def upd(4,5))
  have hd: "\<forall>j \<in> chain_ids s. chain_head a j = (if j = ?i \<and> ?zs = [] then x else chain_head s j)"
    by (auto simp: chain_head_def fs aeq split: chain_id.splits)
  let ?b = "a\<lparr>tsss := (tsss a)(x \<mapsto> ta\<lparr>nextSender := NULL\<rparr>)\<rparr>"
  let ?tb = "ta\<lparr>nextSender := NULL\<rparr>" and ?L = "L(?i := ?zs @ [x])"
  have kb: "kinv_g {x} ?b qs ?L"
    using kinv_g_parts(3) [OF inv] aeq by (intro link_kinv_g [OF inv i x ss _ _ _ _ nx hd ta]) simp_all
  have st: "tss_state ta = 0" "0 < schedticks ta"
    using ss [of x] ta t kinv_g_state [OF inv xp] x
    by (simp_all add: sstate_def sview_def fld_Some [OF t] EMPTY_def)
  define c where "c = ?b\<lparr>tsss := (tsss ?b)(x \<mapsto> ?tb\<lparr>tss_state := SENDING\<rparr>)\<rparr>"
  have kc: "kinv_g {x} c qs ?L"
    unfolding c_def by (rule state_kinv_g [OF kb]) simp_all
  have ceq: "pproctab c = pproctab s" "curptr c = curptr s" "nextptr c = nextptr s"
      "fld tss_state c x = SENDING" "fld schedticks c x = schedticks ta" "static c = static s"
    using aeq ta by (auto simp: c_def fld_def static_def)
  have "set_b": "(0 :: u8) OR SENDING = SENDING" by simp
  obtain s' where s': "dequeue x c = Some s'" "kinv_g {} s' (remove1 x qs) ?L" "score s' = score c"
      "if curptr c = x \<and> x \<in> set qs \<and> qs \<noteq> [x]
       then curptr s' = nextptr s' \<and> nextptr s' \<in> set (remove1 x qs)
       else curptr s' = curptr c \<and> nextptr s' = nextptr c"
    using block_kinv_g [OF kc] xp cur ceq st by (auto simp: SENDING_def)
  have "add_to_senders_list x r s = Some s'"
    unfolding add_to_senders_list_def setStateFlag_def
    using tr scan upd(3) tss_upd_Some [OF upd(1), of f] tss_upd_Some [OF ta [unfolded a_def]] s'(1) st(1)
    by (cases "?zs = []"; cases "last ?zs = NULL") (simp_all add: c_def a_def tss_upd_def)
  then show ?thesis
    using s' ceq x static_score [OF s'(3)] by (intro exI [of _ s']) simp
qed

lemma mark_as_receiving_from_kinv_g:
  assumes inv: "kinv_g {} s qs L" and x: "x \<in> set qs"
    and cur: "nextptr s = NULL \<or> nextptr s = curptr s"
  shows "\<exists>s'. mark_as_receiving_from x d s = Some s' \<and> kinv_g {} s' (remove1 x qs) L \<and>
    static s' = static s \<and>
    (if curptr s = x \<and> qs \<noteq> [x] then curptr s' = nextptr s' \<and> nextptr s' \<in> set (remove1 x qs)
     else curptr s' = curptr s \<and> nextptr s' = nextptr s)"
proof -
  have xp: "x \<in> set (pproctab s)" by (rule kinv_g_queue [OF inv x])
  obtain t where t: "tsss s x = Some t" using kinv_g_proc(1) [OF inv xp] by blast
  have st: "tss_state t = 0" "0 < schedticks t"
    using kinv_g_state [OF inv xp] x by (simp_all add: fld_Some [OF t] EMPTY_def)
  let ?t = "t\<lparr>receivingFrom := d\<rparr>"
  let ?a = "s\<lparr>tsss := (tsss s)(x \<mapsto> ?t)\<rparr>"
  have ka: "kinv_g {} ?a qs L" using kinv_g_tss [OF t] inv by simp
  have ta: "tsss ?a x = Some ?t" by simp
  define c where "c = ?a\<lparr>tsss := (tsss ?a)(x \<mapsto> ?t\<lparr>tss_state := RECEIVING\<rparr>)\<rparr>"
  have kc: "kinv_g {x} c qs L"
    unfolding c_def by (rule state_kinv_g [OF kinv_g_mono [OF ka] ta]) simp_all
  have ceq: "pproctab c = pproctab s" "curptr c = curptr s" "nextptr c = nextptr s"
      "fld tss_state c x = RECEIVING" "fld schedticks c x = schedticks t" "static c = static s"
      "chain_ids c = chain_ids s"
    using t by (auto simp: c_def fld_def static_def chain_ids_def)
  have fresh: "\<forall>j \<in> chain_ids s. x \<notin> set (L j)"
    using kinv_g_blocked [OF inv] x by blast
  obtain s' where s': "dequeue x c = Some s'" "kinv_g {} s' (remove1 x qs) L" "score s' = score c"
      "if curptr c = x \<and> x \<in> set qs \<and> qs \<noteq> [x]
       then curptr s' = nextptr s' \<and> nextptr s' \<in> set (remove1 x qs)
       else curptr s' = curptr c \<and> nextptr s' = nextptr c"
    using block_kinv_g [OF kc] xp cur ceq st fresh by auto
  have "mark_as_receiving_from x d s = Some s'"
    using s'(1) st(1) by (simp add: mark_as_receiving_from_def setStateFlag_def tss_upd_def t c_def)
  then show ?thesis
    using s' ceq x static_score [OF s'(3)] by (intro exI [of _ s']) simp
qed

lemma clear_receiving_from_kinv_g:
  assumes inv: "kinv_g {} s qs L" and r: "r \<in> set (pproctab s)" and rec: "fld tss_state s r = RECEIVING"
    and t: "tsss s r = Some t"
  shows "\<exists>s' qs'. clear_receiving_from r s = Some s' \<and> kinv_g {} s' qs' L \<and> set qs' = insert r (set qs) \<and>
    static s' = static s \<and> curptr s' = curptr s \<and> nextptr s' = nextptr s \<and>
    score s' = score (s\<lparr>tsss := (tsss s)(r \<mapsto> t\<lparr>receivingFrom := NULL, tss_state := 0\<rparr>)\<rparr>)"
proof -
  let ?t = "t\<lparr>receivingFrom := NULL\<rparr>"
  let ?a = "s\<lparr>tsss := (tsss s)(r \<mapsto> ?t)\<rparr>"
  have ka: "kinv_g {} ?a qs L" using kinv_g_tss [OF t] inv by simp
  have ta: "tsss ?a r = Some ?t" by simp
  have "0 < schedticks t"
    using kinv_g_state [OF inv r] rec by (simp add: fld_Some [OF t] EMPTY_def RECEIVING_def)
  moreover have "tss_state ?t AND NOT RECEIVING = 0"
    using rec by (simp add: fld_Some [OF t] RECEIVING_def)
  moreover have "\<forall>i \<in> chain_ids ?a. r \<notin> set (L i)"
    using kinv_g_blocked [OF inv, of _ r] rec by (auto simp: chain_ids_def RECEIVING_def SENDING_def)
  ultimately obtain s' qs' where s': "unsetStateFlag r RECEIVING ?a = Some s'" "kinv_g {} s' qs' L"
      "set qs' = insert r (set qs)"
      "score s' = score (?a\<lparr>tsss := (tsss ?a)(r \<mapsto> ?t\<lparr>tss_state := 0\<rparr>)\<rparr>)"
      "curptr s' = curptr s" "nextptr s' = nextptr s"
    using unsetStateFlag_kinv_g [OF ka ta, of RECEIVING] r by auto
  have "clear_receiving_from r s = Some s'"
    using s'(1) by (simp add: clear_receiving_from_def tss_upd_Some [OF t])
  moreover have "static s' = static s"
    using static_score [OF s'(4)] t by (simp add: static_def insert_absorb domI)
  ultimately show ?thesis using s' by (intro exI [of _ s'] exI [of _ qs']) simp
qed

end
