(* ===== verification/MK_Syscalls.thy ===== *)
theory MK_Syscalls
  imports MK_Ipc
begin

text \<open>
  The system calls and the interrupt entry of \<^verbatim>\<open>kernel/utilities_C.c\<close>.  A system call works on
  the registers that the calling process \<open>curptr\<close> left in its task-state segment.  What a device
  presents on a port is the argument \<open>dev\<close>.
\<close>

section \<open>Ports\<close>

definition inb :: "device \<Rightarrow> u32 \<Rightarrow> kstate \<Rightarrow> u32 \<times> kstate" where
  "inb dev port s =
     (let v = ucast (ucast (dev (io_trace s) port) :: u8)
      in (v, s\<lparr>io_trace := io_trace s @ [InB port v]\<rparr>))"

definition inw :: "device \<Rightarrow> u32 \<Rightarrow> kstate \<Rightarrow> u32 \<times> kstate" where
  "inw dev port s =
     (let v = ucast (dev (io_trace s) port)
      in (v, s\<lparr>io_trace := io_trace s @ [InW port v]\<rparr>))"

definition outb :: "u32 \<Rightarrow> u32 \<Rightarrow> kstate \<Rightarrow> kstate" where
  "outb port v s = s\<lparr>io_trace := io_trace s @ [OutB port (v AND 0xff)]\<rparr>"

definition outw :: "u32 \<Rightarrow> u32 \<Rightarrow> kstate \<Rightarrow> kstate" where
  "outw port v s = s\<lparr>io_trace := io_trace s @ [OutW port (v AND 0xffff)]\<rparr>"

section \<open>Processes and messages\<close>

definition free_segment :: "u16 \<Rightarrow> kstate \<Rightarrow> kstate" where
  "free_segment sel s = (if sel \<noteq> 0 then free_gdt_idx (ucast sel AND 0xfffc) s else s)"

definition syscall_exit :: "kstate \<Rightarrow> kstate option" where
  "syscall_exit s = do {
     s \<leftarrow> tss_upd (curptr s) (\<lambda>t. t\<lparr>tss_state := EMPTY\<rparr>) s;
     t \<leftarrow> tsss s (curptr s);
     let s = free_segment (cs_reg t) s;
     let s = free_segment (ds_reg t) s;
     let s = free_segment (es_reg t) s;
     let s = free_segment (fs_reg t) s;
     let s = free_segment (gs_reg t) s;
     let s = free_segment (ss_reg t) s;
     let s = free_pid (ucast (pid t)) s;
     let s = release_irqs_taken (curptr s) s;
     s \<leftarrow> unblock_waiting_senders (curptr s) s;
     dequeue (curptr s) s
   }"

definition syscall_send :: "kstate \<Rightarrow> kstate option" where
  "syscall_send s = do {
     t \<leftarrow> tsss s (curptr s);
     let receiver = ebx_reg t;
     let bytes = ecx_reg t;
     let addr = edx_reg t;
     if validate_data_area t (mem s) addr bytes \<noteq> 0 then set_err (curptr s) INVALIDBUFFER s
     else do {
       ready \<leftarrow> receiving_from receiver (curptr s) s;
       if ready then do {
         (bytes, s) \<leftarrow> exchange_data (curptr s) receiver s;
         s \<leftarrow> tss_upd (curptr s) (\<lambda>t. t\<lparr>eax_reg := bytes\<rparr>) s;
         s \<leftarrow> tss_upd receiver (\<lambda>t. t\<lparr>eax_reg := bytes\<rparr>) s;
         s \<leftarrow> clear_receiving_from receiver s;
         s \<leftarrow> set_err (curptr s) OK s;
         set_err receiver OK s
       }
       else add_to_senders_list (curptr s) receiver s
     }
   }"

definition syscall_send_by_feature :: "kstate \<Rightarrow> kstate option" where
  "syscall_send_by_feature s = do {
     t \<leftarrow> tsss s (curptr s);
     let feature = ebx_reg t;
     bad \<leftarrow> check_feature feature;
     if bad \<noteq> 0 then set_err (curptr s) INVALIDFEATURE s
     else do {
       receiver \<leftarrow> get_process_by_feature feature s;
       if receiver = curptr s then set_err (curptr s) CIRCULARSEND s
       else if receiver \<noteq> NULL then do {
         s \<leftarrow> tss_upd (curptr s) (\<lambda>t. t\<lparr>ebx_reg := receiver\<rparr>) s;
         syscall_send s
       }
       else if edi_reg t = 1 then do {
         s \<leftarrow> add_waiting_for_feature (curptr s) feature s;
         dequeue (curptr s) s
       }
       else set_err (curptr s) WOULDBLOCK s
     }
   }"

definition syscall_receive :: "kstate \<Rightarrow> kstate option" where
  "syscall_receive s = do {
     t \<leftarrow> tsss s (curptr s);
     let desired_sender = ebx_reg t;
     let bytes = ecx_reg t;
     let addr = edx_reg t;
     if validate_data_area t (mem s) addr bytes \<noteq> 0 then set_err (curptr s) INVALIDBUFFER s
     else if interrupts t \<noteq> 0 then do {
       s \<leftarrow> set_err (curptr s) (ucast (interrupts t)) s;
       s \<leftarrow> tss_upd (curptr s) (\<lambda>t. t\<lparr>interrupts := 0\<rparr>) s;
       tss_upd (curptr s) (\<lambda>t. t\<lparr>eax_reg := 0\<rparr>) s
     }
     else do {
       sender \<leftarrow> get_sender desired_sender (curptr s) s;
       if sender \<noteq> NULL then do {
         (bytes, s) \<leftarrow> exchange_data sender (curptr s) s;
         s \<leftarrow> tss_upd (curptr s) (\<lambda>t. t\<lparr>eax_reg := bytes\<rparr>) s;
         s \<leftarrow> tss_upd sender (\<lambda>t. t\<lparr>eax_reg := bytes\<rparr>) s;
         s \<leftarrow> remove_from_senders_list sender (curptr s) s;
         s \<leftarrow> set_err sender OK s;
         set_err (curptr s) OK s
       }
       else mark_as_receiving_from (curptr s) desired_sender s
     }
   }"

definition syscall_set_feature :: "kstate \<Rightarrow> kstate option" where
  "syscall_set_feature s = do {
     t \<leftarrow> tsss s (curptr s);
     let feature = ebx_reg t;
     bad \<leftarrow> check_feature feature;
     if bad \<noteq> 0 then set_err (curptr s) INVALIDFEATURE s
     else do {
       (busy, s) \<leftarrow> set_feature (curptr s) feature s;
       if busy \<noteq> 0 then set_err (curptr s) FEATUREBUSY s
       else set_err (curptr s) OK s
     }
   }"

section \<open>Access to ports and interrupts\<close>

definition has_port_access :: "ptr \<Rightarrow> u32 \<Rightarrow> kstate \<Rightarrow> bool" where
  "has_port_access process port s \<longleftrightarrow> port_accessers s port = process"

definition syscall_inb :: "device \<Rightarrow> kstate \<Rightarrow> kstate option" where
  "syscall_inb dev s = do {
     t \<leftarrow> tsss s (curptr s);
     let port = ebx_reg t AND 0xffff;
     if \<not> has_port_access (curptr s) port s then set_err (curptr s) NOPERMS s
     else do {
       let (v, s) = inb dev port s;
       s \<leftarrow> tss_upd (curptr s) (\<lambda>t. t\<lparr>eax_reg := v\<rparr>) s;
       set_err (curptr s) OK s
     }
   }"

definition syscall_inw :: "device \<Rightarrow> kstate \<Rightarrow> kstate option" where
  "syscall_inw dev s = do {
     t \<leftarrow> tsss s (curptr s);
     let port = ebx_reg t AND 0xffff;
     if \<not> has_port_access (curptr s) port s then set_err (curptr s) NOPERMS s
     else do {
       let (v, s) = inw dev port s;
       s \<leftarrow> tss_upd (curptr s) (\<lambda>t. t\<lparr>eax_reg := v\<rparr>) s;
       set_err (curptr s) OK s
     }
   }"

definition syscall_outb :: "kstate \<Rightarrow> kstate option" where
  "syscall_outb s = do {
     t \<leftarrow> tsss s (curptr s);
     let port = ebx_reg t AND 0xffff;
     let v = ecx_reg t AND 0xff;
     if \<not> has_port_access (curptr s) port s then set_err (curptr s) NOPERMS s
     else set_err (curptr s) OK (outb port v s)
   }"

definition syscall_outw :: "kstate \<Rightarrow> kstate option" where
  "syscall_outw s = do {
     t \<leftarrow> tsss s (curptr s);
     let port = ebx_reg t AND 0xffff;
     let v = ecx_reg t AND 0xffff;
     if \<not> has_port_access (curptr s) port s then set_err (curptr s) NOPERMS s
     else set_err (curptr s) OK (outw port v s)
   }"

definition vir2phys :: "tss \<Rightarrow> memory \<Rightarrow> u32 \<Rightarrow> u32" where
  "vir2phys process m virtual = get_base m (ucast (ds_reg process) AND 0xfff8) + virtual"

definition syscall_vir2phys :: "kstate \<Rightarrow> kstate option" where
  "syscall_vir2phys s = do {
     t \<leftarrow> tsss s (curptr s);
     if validate_data_area t (mem s) (ebx_reg t) 0 \<noteq> 0 then set_err (curptr s) INVALIDADDRESS s
     else tss_upd (curptr s) (\<lambda>u. u\<lparr>eax_reg := vir2phys t (mem s) (ebx_reg t)\<rparr>) s
   }"

definition syscall_claim_port :: "kstate \<Rightarrow> kstate option" where
  "syscall_claim_port s = do {
     t \<leftarrow> tsss s (curptr s);
     let port = ebx_reg t AND 0xffff;
     if port_accessers s port \<noteq> NULL \<and> port_accessers s port \<noteq> curptr s
     then set_err (curptr s) UNAVAILABLE s
     else Some (s\<lparr>port_accessers := (port_accessers s)(port := curptr s)\<rparr>)
   }"

definition syscall_request_irq :: "kstate \<Rightarrow> kstate option" where
  "syscall_request_irq s = do {
     t \<leftarrow> tsss s (curptr s);
     let irq = ebx_reg t;
     if irq = 0 \<or> irq = 2 \<or> of_nat MAX_IRQ < irq then set_err (curptr s) INVALIDIRQ s
     else if irqs s ! unat irq \<noteq> NULL \<and> irqs s ! unat irq \<noteq> curptr s
     then set_err (curptr s) IRQINUSE s
     else set_err (curptr s) OK (s\<lparr>irqs := (irqs s)[unat irq := curptr s]\<rparr>)
   }"

section \<open>Interrupts\<close>

definition clockIsr :: "kstate \<Rightarrow> kstate" where
  "clockIsr s =
     (let s = s\<lparr>seconds := seconds s + 1\<rparr>
      in if seconds s = 60
         then let s = s\<lparr>seconds := 0, minutes := minutes s + 1\<rparr>
              in if minutes s = 60 then s\<lparr>minutes := 0, hours := hours s + 1\<rparr> else s
         else s)"

definition syscalls :: "device \<Rightarrow> (kstate \<Rightarrow> kstate option) list" where
  "syscalls dev =
     [syscall_exit, syscall_set_feature, syscall_receive, syscall_send_by_feature,
      syscall_request_irq, syscall_inb dev, syscall_claim_port, syscall_outb, syscall_inw dev,
      syscall_outw, syscall_vir2phys]"

definition syscallIsr :: "device \<Rightarrow> kstate \<Rightarrow> kstate option" where
  "syscallIsr dev s = do {
     t \<leftarrow> tsss s (curptr s);
     if of_nat (length (syscalls dev)) - 1 < eax_reg t then set_err (curptr s) UNKNOWNSYSCALL s
     else (syscalls dev ! unat (eax_reg t)) s
   }"

definition notify_irq :: "nat \<Rightarrow> kstate \<Rightarrow> kstate option" where
  "notify_irq number s = do {
     let m = (push_bit number 1 :: u16);
     let p = irqs s ! number;
     t \<leftarrow> tsss s p;
     if tss_state t AND RECEIVING \<noteq> 0 then do {
       s \<leftarrow> set_err p (ucast m) s;
       s \<leftarrow> clear_receiving_from p s;
       tss_upd p (\<lambda>t. t\<lparr>eax_reg := 0\<rparr>) s
     }
     else tss_upd p (\<lambda>t. t\<lparr>interrupts := interrupts t OR m\<rparr>) s
   }"

definition do_hard_int :: "device \<Rightarrow> nat \<Rightarrow> kstate \<Rightarrow> kstate option" where
  "do_hard_int dev number s = do {
     s \<leftarrow> (if number = 0 then Some (clockIsr s)
           else if number = 2 then syscallIsr dev s
           else if length (irqs s) \<le> number then None
           else if irqs s ! number = NULL then Some s
           else notify_irq number s);
     if nextptr s = NULL then do { s \<leftarrow> charge_process s; pick_next_proc s } else Some s
   }"

text \<open>
  The interrupt task \<open>hw_intrrpt<number>\<close>: it runs \<open>do_hard_int\<close>, and then makes the chosen
  process the one the processor returns to (the macro \<open>schedule\<close>).
\<close>

definition schedule :: "ptr \<Rightarrow> kstate \<Rightarrow> kstate option" where
  "schedule returnFrom s = do {
     let s = s\<lparr>curptr := nextptr s, nextptr := NULL\<rparr>;
     t \<leftarrow> tsss s (curptr s);
     s \<leftarrow> tss_upd returnFrom (\<lambda>r. r\<lparr>backlink := idx_tss t\<rparr>) s;
     let a = GDT_BASE + ucast (idx_tss t) + 5;
     Some (s\<lparr>mem := (mem s)(a := mem s a OR 2)\<rparr>)
   }"

definition hw_intrrpt :: "device \<Rightarrow> nat \<Rightarrow> kstate \<Rightarrow> kstate option" where
  "hw_intrrpt dev number s = do {
     let s = s\<lparr>in_kernel := 1, flag := flag s AND 0x7fffffff\<rparr>;
     s \<leftarrow> do_hard_int dev number s;
     s \<leftarrow> schedule (intrrptstate s ! number) s;
     let s = outb 0xa0 0x20 (outb 0x20 0x20 s);
     Some (s\<lparr>flag := flag s OR 0x80000000, in_kernel := 0\<rparr>)
   }"

end
