(* ===== verification/MK_Kernel_Inv.thy ===== *)
theory MK_Kernel_Inv
  imports MK_Chains MK_Syscalls
begin

text \<open>
  Every system call and every interrupt keeps the kernel's invariant.  \<open>hw_intrrpt_inv\<close> is the
  conclusion: from a state that satisfies \<open>kernel_inv\<close> an interrupt always runs to its end (no
  null or wild pointer is followed, no table is left, no loop diverges), and the invariant holds
  again when the processor returns to a process.
\<close>

section \<open>Features\<close>

lemma single_bit_mask: "n < LENGTH('a) \<Longrightarrow> (2 ^ n AND w = (2 ^ n :: 'a::len word)) = bit w n"
proof
  assume n: "n < LENGTH('a)" and "2 ^ n AND w = 2 ^ n"
  then have "bit (2 ^ n AND w) n" by (simp add: bit_simps)
  then show "bit w n" by (simp add: bit_simps)
next
  assume "bit w n"
  then show "2 ^ n AND w = 2 ^ n" by (intro bit_eqI) (auto simp: bit_simps)
qed

lemma push_bit_out: "push_bit 32 (w :: u32) = 0"
  by (rule bit_word_eqI) (simp add: bit_simps)

lemma u8_le_1: "x \<le> 1 \<Longrightarrow> x = 0 \<or> x = (1 :: u8)"
  by (auto simp: word_le_nat_alt word_unat_eq_iff)

text \<open>The scan of a feature stops at its lowest bit, or at 32 when there is none.\<close>

lemma feature_scan_lowest:
  assumes "k \<le> n" and "n \<le> 32" and "\<forall>j. k \<le> j \<and> j < n \<longrightarrow> \<not> bit f j" and "n = 32 \<or> bit f n"
  shows "feature_scan f (push_bit k 1) k = Some n"
  using assms
proof (induction "n - k" arbitrary: k)
  case 0
  then have k: "k = n" by simp
  show ?case
  proof (cases "n = 32")
    case True
    then show ?thesis using k by (subst feature_scan.simps) (simp only: push_bit_out, simp)
  next
    case False
    then show ?thesis
      using 0 single_bit_mask [of n f] by (subst feature_scan.simps) (simp add: k)
  qed
next
  case (Suc d)
  then have "\<not> bit f k" "k < 32" by auto
  then have "push_bit k 1 AND f \<noteq> push_bit k 1" using single_bit_mask [of k f] by simp
  then have "feature_scan f (push_bit k 1) k = feature_scan f (push_bit (Suc k) 1) (Suc k)"
    by (subst feature_scan.simps) (simp add: mult.commute)
  moreover have "feature_scan f (push_bit (Suc k) 1) (Suc k) = Some n"
    using Suc.hyps(2) Suc.prems by (intro Suc.hyps(1)) auto
  ultimately show ?case by simp
qed

lemma check_scan_bits:
  assumes "k \<le> 32" and "found \<le> 1"
  shows "\<exists>r. check_scan f (push_bit k 1) found = Some r \<and>
    (r = 1 \<longleftrightarrow> unat found + card {j. k \<le> j \<and> j < 32 \<and> bit f j} = 1)"
  using assms
proof (induction "32 - k" arbitrary: k found)
  case 0
  then have k: "k = 32" by simp
  have "{j. k \<le> j \<and> j < 32 \<and> bit f j} = {}" using k by auto
  then have c0: "card {j. k \<le> j \<and> j < 32 \<and> bit f j} = 0" by (simp only: card.empty)
  moreover have "found = 0 \<or> found = 1" using u8_le_1 [OF 0(3)] .
  then have "(found = 1) = (unat found = 1)" by auto
  ultimately show ?case
    unfolding c0 unfolding k by (subst check_scan.simps) (simp only: push_bit_out, simp)
next
  case (Suc d)
  let ?B = "\<lambda>k. {j. k \<le> j \<and> j < 32 \<and> bit f j}"
  have k: "k < 32" using Suc.hyps(2) by simp
  have fin: "finite (?B k)" for k by simp
  have B: "?B k = (if bit f k then insert k (?B (Suc k)) else ?B (Suc k))"
    using k by (auto simp: le_Suc_eq not_less_eq_eq Suc_le_eq order_le_less)
  have mnz: "push_bit k (1::u32) \<noteq> 0" using k by simp
  have test: "(f AND push_bit k 1 \<noteq> 0) = bit f k"
    using single_bit_and [of k f] k by (simp add: and.commute)
  let ?f = "if bit f k then found + 1 else found"
  have found: "found = 0 \<or> found = 1" using u8_le_1 [OF Suc.prems(2)] .
  have card: "unat found + card (?B k) = unat ?f + card (?B (Suc k))"
    using found by (subst B) auto
  show ?case
  proof (cases "1 < ?f")
    case True
    then have two: "found = 1" "bit f k" using found by (auto split: if_splits)
    have "check_scan f (push_bit k 1) found = Some ?f"
      using True mnz test by (subst check_scan.simps) (simp add: Let_def)
    moreover have "card (?B k) \<noteq> 0" using two B fin [of k] by auto
    ultimately show ?thesis using two by simp
  next
    case False
    have "check_scan f (push_bit k 1) found = check_scan f (push_bit (Suc k) 1) ?f"
      using False mnz test by (subst check_scan.simps) (simp add: Let_def mult.commute)
    moreover have "?f \<le> 1" using False by (simp add: not_less)
    ultimately show ?thesis
      using Suc.hyps(1) [of "Suc k" ?f] Suc.hyps(2) k card by simp
  qed
qed

lemma single_feature:
  "card {j. j < 32 \<and> bit (f :: u32) j} = 1 \<longleftrightarrow> (\<exists>n < 32. f = 2 ^ n)"
proof
  assume "card {j. j < 32 \<and> bit f j} = 1"
  then obtain n where n: "{j. j < 32 \<and> bit f j} = {n}" using card_1_singletonE by blast
  then have "n < 32" by blast
  moreover have "f = 2 ^ n"
    by (rule bit_word_eqI) (use n in \<open>auto simp: bit_simps\<close>)
  ultimately show "\<exists>n < 32. f = 2 ^ n" by blast
next
  assume "\<exists>n < 32. f = 2 ^ n"
  then obtain n where "n < 32" "f = 2 ^ n" by blast
  then have "{j. j < 32 \<and> bit f j} = {n}" by (auto simp: bit_simps)
  then show "card {j. j < 32 \<and> bit f j} = 1" by simp
qed

lemma check_feature_eq:
  "check_feature f = Some (if \<exists>n < 32. f = 2 ^ n then 0 else - 1)"
  using check_scan_bits [of 0 0 f] single_feature [of f] by (auto simp: check_feature_def)

lemma feature_slot_single:
  assumes "n < 32"
  shows "feature_slot (2 ^ n) s =
    (if n < length (featureTable s) then Some (n, featureTable s ! n) else None)"
  using feature_scan_lowest [of 0 n "2 ^ n"] assms by (simp add: feature_slot_def bit_simps)

section \<open>System calls keep the invariant\<close>

text \<open>
  Where the processor goes after a handler: either nothing was decided and the caller is still
  in the queue (or the queue has run empty), or the caller has left and another was picked.
\<close>

definition cur_post :: "kstate \<Rightarrow> kstate \<Rightarrow> ptr list \<Rightarrow> bool" where
  "cur_post s s' qs' \<longleftrightarrow>
     nextptr s' = NULL \<and> curptr s' = curptr s \<and> (curptr s \<in> set qs' \<or> qs' = []) \<or>
     nextptr s' = curptr s' \<and> nextptr s' \<in> set qs'"

definition ok_post :: "kstate \<Rightarrow> kstate \<Rightarrow> bool" where
  "ok_post s s' \<longleftrightarrow> (\<exists>qs' L'. kinv_g {} s' qs' L' \<and> static s' = static s \<and> cur_post s s' qs')"

definition ready_to_call :: "kstate \<Rightarrow> ptr list \<Rightarrow> (chain_id \<Rightarrow> ptr list) \<Rightarrow> bool" where
  "ready_to_call s qs L \<longleftrightarrow> kinv_g {} s qs L \<and> curptr s \<in> set qs \<and> nextptr s = NULL"

lemma ok_postI:
  assumes "kinv_g {} s' qs' L'" and "static s' = static s" and "curptr s' = curptr s"
    and "nextptr s' = NULL" and "curptr s \<in> set qs'"
  shows "ok_post s s'"
  using assms unfolding ok_post_def cur_post_def by blast

lemma ok_post_upd:
  assumes "ok_post s s1" and "p \<in> dom (tsss s)" and "\<And>t. kview (f t) = kview t"
  shows "\<exists>s2. tss_upd p f s1 = Some s2 \<and> ok_post s s2"
proof -
  obtain qs L where k: "kinv_g {} s1 qs L" "static s1 = static s" "cur_post s s1 qs"
    using assms(1) by (auto simp: ok_post_def)
  have "p \<in> dom (tsss s1)" using staticD(4) [OF k(2)] assms(2) by simp
  then obtain t where t: "tsss s1 p = Some t" by auto
  let ?s = "s1\<lparr>tsss := (tsss s1)(p \<mapsto> f t)\<rparr>"
  have "kinv_g {} ?s qs L" using k(1) kinv_g_tss [OF t assms(3)] by simp
  moreover have "static ?s = static s" using k(2) static_tss [OF t] by simp
  moreover have "cur_post s ?s qs" using k(3) by (simp add: cur_post_def)
  ultimately show ?thesis unfolding ok_post_def tss_upd_Some [OF t] by blast
qed

lemma ok_post_err:
  "ok_post s s1 \<Longrightarrow> p \<in> dom (tsss s) \<Longrightarrow> \<exists>s2. set_err p e s1 = Some s2 \<and> ok_post s s2"
  unfolding set_err_def by (rule ok_post_upd) simp_all

lemma ready_ok: "ready_to_call s qs L \<Longrightarrow> ok_post s s"
  unfolding ready_to_call_def by (auto intro: ok_postI)

lemma ready_cur:
  assumes "ready_to_call s qs L"
  shows "curptr s \<in> set (pproctab s)" "curptr s \<in> dom (tsss s)" "\<exists>t. tsss s (curptr s) = Some t"
  using assms kinv_g_queue [of "{}" s qs L] kinv_g_proc(1) [of "{}" s qs L]
  unfolding ready_to_call_def by blast+

lemma ready_err: "ready_to_call s qs L \<Longrightarrow> \<exists>s'. set_err (curptr s) e s = Some s' \<and> ok_post s s'"
  by (rule ok_post_err [OF ready_ok ready_cur(2)])

text \<open>An update of fields the invariant does not read, in front of a step.\<close>

lemma upd_kinv_g:
  assumes "kinv_g X s qs L" and "p \<in> dom (tsss s)" and "\<And>t. kview (f t) = kview t"
  shows "\<exists>s1. tss_upd p f s = Some s1 \<and> kinv_g X s1 qs L \<and> static s1 = static s \<and>
    curptr s1 = curptr s \<and> nextptr s1 = nextptr s \<and> fld tss_state s1 = fld tss_state s \<and>
    fld firstSender s1 = fld firstSender s \<and> fld nextSender s1 = fld nextSender s"
proof -
  obtain t where t: "tsss s p = Some t" using assms(2) by auto
  have "tss_state (f t) = tss_state t" "firstSender (f t) = firstSender t" "nextSender (f t) = nextSender t"
    using assms(3) [of t] by (simp_all add: kview_def)
  then show ?thesis
    using assms(1) kinv_g_tss [OF t assms(3)] static_tss [OF t]
    by (simp add: tss_upd_Some [OF t] fld_upd_same [OF t] fld_triv [OF t])
qed

lemma exchange_data_kinv_g:
  assumes inv: "kinv_g X s qs L" and p: "p \<in> dom (tsss s)" "r \<in> dom (tsss s)"
  shows "\<exists>n s1. exchange_data p r s = Some (n, s1) \<and> kinv_g X s1 qs L \<and> static s1 = static s \<and>
    curptr s1 = curptr s \<and> nextptr s1 = nextptr s \<and> fld tss_state s1 = fld tss_state s \<and>
    fld firstSender s1 = fld firstSender s \<and> fld nextSender s1 = fld nextSender s"
proof -
  obtain a b where ab: "tsss s p = Some a" "tsss s r = Some b" using p by auto
  define n where "n = (if ecx_reg b < ecx_reg a then ecx_reg b else ecx_reg a)"
  let ?f = "\<lambda>t :: tss. t\<lparr>eax_reg := n\<rparr>"
  obtain s1 where s1: "tss_upd p ?f s = Some s1" "kinv_g X s1 qs L" "static s1 = static s"
      "curptr s1 = curptr s" "nextptr s1 = nextptr s" "fld tss_state s1 = fld tss_state s"
      "fld firstSender s1 = fld firstSender s" "fld nextSender s1 = fld nextSender s"
    using upd_kinv_g [OF inv p(1), of ?f] by auto
  have "r \<in> dom (tsss s1)" using staticD(4) [OF s1(3)] p(2) by simp
  then obtain s2 where s2: "tss_upd r ?f s1 = Some s2" "kinv_g X s2 qs L" "static s2 = static s1"
      "curptr s2 = curptr s1" "nextptr s2 = nextptr s1" "fld tss_state s2 = fld tss_state s1"
      "fld firstSender s2 = fld firstSender s1" "fld nextSender s2 = fld nextSender s1"
    using upd_kinv_g [OF s1(2), of r ?f] by auto
  show ?thesis
    using ab s1 s2 by (simp add: exchange_data_def Let_def n_def [symmetric])
qed

lemma syscall_send_ok:
  assumes rdy: "ready_to_call s qs L" and t: "tsss s (curptr s) = Some t"
    and r: "ebx_reg t \<in> set (pproctab s)"
  shows "\<exists>s'. syscall_send s = Some s' \<and> ok_post s s'"
proof -
  let ?c = "curptr s" and ?r = "ebx_reg t"
  have inv: "kinv_g {} s qs L" and cq: "?c \<in> set qs" and nn: "nextptr s = NULL"
    using rdy by (simp_all add: ready_to_call_def)
  note cur = ready_cur [OF rdy]
  have rd: "?r \<in> dom (tsss s)" using kinv_g_proc(1) [OF inv r] by auto
  then obtain tr where tr: "tsss s ?r = Some tr" by auto
  obtain ready where ready: "receiving_from ?r ?c s = Some ready"
    by (simp add: receiving_from_def tr)
  show ?thesis
  proof (cases "validate_data_area t (mem s) (edx_reg t) (ecx_reg t) \<noteq> 0")
    case True
    then show ?thesis using ready_err [OF rdy] t by (simp add: syscall_send_def Let_def)
  next
    case False
    then have eq: "syscall_send s = do {
        ready \<leftarrow> receiving_from ?r ?c s;
        if ready then do {
          (bytes, s) \<leftarrow> exchange_data ?c ?r s;
          s \<leftarrow> tss_upd (curptr s) (\<lambda>t. t\<lparr>eax_reg := bytes\<rparr>) s;
          s \<leftarrow> tss_upd ?r (\<lambda>t. t\<lparr>eax_reg := bytes\<rparr>) s;
          s \<leftarrow> clear_receiving_from ?r s;
          s \<leftarrow> set_err (curptr s) OK s;
          set_err ?r OK s
        } else add_to_senders_list ?c ?r s }"
      using t by (simp add: syscall_send_def Let_def)
    show ?thesis
    proof (cases ready)
      case True
      then have "fld tss_state s ?r AND RECEIVING \<noteq> 0"
        using ready tr by (auto simp: receiving_from_def fld_Some split: if_splits)
      then have rec: "fld tss_state s ?r = RECEIVING"
        using kinv_g_state [OF inv r] by (auto simp: RECEIVING_def EMPTY_def SENDING_def)
      obtain n s1 where s1: "exchange_data ?c ?r s = Some (n, s1)" "kinv_g {} s1 qs L"
          "static s1 = static s" "curptr s1 = ?c" "nextptr s1 = NULL" "fld tss_state s1 = fld tss_state s"
        using exchange_data_kinv_g [OF inv cur(2) rd] nn by auto
      let ?f = "\<lambda>t :: tss. t\<lparr>eax_reg := n\<rparr>"
      have "?c \<in> dom (tsss s1)" using staticD(4) [OF s1(3)] cur(2) by simp
      then obtain s2 where s2: "tss_upd ?c ?f s1 = Some s2" "kinv_g {} s2 qs L" "static s2 = static s1"
          "curptr s2 = ?c" "nextptr s2 = NULL" "fld tss_state s2 = fld tss_state s1"
        using upd_kinv_g [OF s1(2), of ?c ?f] s1(4,5) by auto
      have "?r \<in> dom (tsss s2)" using staticD(4) [OF s1(3)] staticD(4) [OF s2(3)] rd by simp
      then obtain s3 where s3: "tss_upd ?r ?f s2 = Some s3" "kinv_g {} s3 qs L" "static s3 = static s2"
          "curptr s3 = ?c" "nextptr s3 = NULL" "fld tss_state s3 = fld tss_state s2"
        using upd_kinv_g [OF s2(2), of ?r ?f] s2(4,5) by auto
      have st: "static s3 = static s" using s1(3) s2(3) s3(3) by simp
      have r3: "?r \<in> set (pproctab s3)" "fld tss_state s3 ?r = RECEIVING"
        using staticD(1) [OF st] r rec s1(6) s2(6) s3(6) by simp_all
      obtain t3 where t3: "tsss s3 ?r = Some t3" using staticD(4) [OF st] rd by auto
      from clear_receiving_from_kinv_g [OF s3(2) r3 t3] obtain s4 qs4 where
        s4: "clear_receiving_from ?r s3 = Some s4" "kinv_g {} s4 qs4 L" "set qs4 = insert ?r (set qs)"
          "static s4 = static s3" "curptr s4 = ?c" "nextptr s4 = NULL" using s3(4,5) by auto
      have "ok_post s s4" using s4 st cq by (intro ok_postI [OF s4(2)]) simp_all
      from ok_post_err [OF this cur(2)] obtain s5 where s5: "set_err ?c OK s4 = Some s5" "ok_post s s5"
        by blast
      from ok_post_err [OF s5(2) rd] obtain s6 where "set_err ?r OK s5 = Some s6" "ok_post s s6" by blast
      then show ?thesis
        using eq ready True s1 s2 s3 s4 s5 by simp
    next
      case False
      from add_to_senders_list_kinv_g [OF inv r cq] nn obtain s' where
        s': "add_to_senders_list ?c ?r s = Some s'"
          "kinv_g {} s' (remove1 ?c qs) (L(Senders ?r := L (Senders ?r) @ [?c]))" "static s' = static s"
          "if qs \<noteq> [?c] then curptr s' = nextptr s' \<and> nextptr s' \<in> set (remove1 ?c qs)
           else curptr s' = ?c \<and> nextptr s' = NULL" by auto
      then have "ok_post s s'"
        unfolding ok_post_def cur_post_def by (auto split: if_splits)
      then show ?thesis using eq ready False s'(1) by simp
    qed
  qed
qed

lemma get_sender_chain:
  assumes inv: "kinv_g X s qs L" and r: "r \<in> set (pproctab s)"
  shows "\<exists>p. get_sender d r s = Some p \<and> (p \<noteq> NULL \<longrightarrow> p \<in> set (L (Senders r)))"
proof -
  let ?zs = "L (Senders r)"
  note seg = chains_invD [OF kinv_g_parts(2) [OF inv], of "Senders r"]
  have dom: "set ?zs \<subseteq> dom (tsss s)" using seg(2) r kinv_g_proc(1) [OF inv] by force
  obtain t where t: "tsss s r = Some t" using kinv_g_proc(1) [OF inv r] by blast
  have sl: "slseg (fld nextSender s) (firstSender t) ?zs NULL"
    using seg(1) r by (simp add: fld_Some [OF t])
  have "firstSender t \<noteq> NULL \<Longrightarrow> firstSender t \<in> set ?zs" using sl by (cases ?zs) auto
  then show ?thesis
    using t find_sender_chain [OF sl dom, of d] by (auto simp: get_sender_def)
qed

lemma syscall_receive_ok:
  assumes rdy: "ready_to_call s qs L"
  shows "\<exists>s'. syscall_receive s = Some s' \<and> ok_post s s'"
proof -
  let ?c = "curptr s"
  have inv: "kinv_g {} s qs L" and cq: "?c \<in> set qs" and nn: "nextptr s = NULL"
    using rdy by (simp_all add: ready_to_call_def)
  note cur = ready_cur [OF rdy]
  obtain t where t: "tsss s ?c = Some t" using cur(3) by blast
  show ?thesis
  proof (cases "validate_data_area t (mem s) (edx_reg t) (ecx_reg t) \<noteq> 0")
    case True
    then show ?thesis using ready_err [OF rdy] t by (simp add: syscall_receive_def Let_def)
  next
    case valid: False
    show ?thesis
    proof (cases "interrupts t \<noteq> 0")
      case True
      obtain s1 where s1: "set_err ?c (ucast (interrupts t)) s = Some s1" "ok_post s s1"
        using ready_err [OF rdy] by blast
      then have c1: "curptr s1 = ?c" by (auto simp: set_err_def tss_upd_iff)
      obtain s2 where s2: "tss_upd ?c (\<lambda>t. t\<lparr>interrupts := 0\<rparr>) s1 = Some s2" "ok_post s s2"
        using ok_post_upd [OF s1(2) cur(2), of "\<lambda>t. t\<lparr>interrupts := 0\<rparr>"] by auto
      then have c2: "curptr s2 = ?c" using c1 by (auto simp: tss_upd_iff)
      obtain s3 where "tss_upd ?c (\<lambda>t. t\<lparr>eax_reg := 0\<rparr>) s2 = Some s3" "ok_post s s3"
        using ok_post_upd [OF s2(2) cur(2), of "\<lambda>t. t\<lparr>eax_reg := 0\<rparr>"] by auto
      then show ?thesis
        using t valid True s1(1) s2(1) c1 c2 by (simp add: syscall_receive_def Let_def)
    next
      case quiet: False
      obtain p where p: "get_sender (ebx_reg t) ?c s = Some p"
          "p \<noteq> NULL \<Longrightarrow> p \<in> set (L (Senders ?c))"
        using get_sender_chain [OF inv cur(1)] by blast
      show ?thesis
      proof (cases "p = NULL")
        case True
        from mark_as_receiving_from_kinv_g [OF inv cq, of "ebx_reg t"] nn obtain s' where
          s': "mark_as_receiving_from ?c (ebx_reg t) s = Some s'" "kinv_g {} s' (remove1 ?c qs) L"
            "static s' = static s"
            "if qs \<noteq> [?c] then curptr s' = nextptr s' \<and> nextptr s' \<in> set (remove1 ?c qs)
             else curptr s' = ?c \<and> nextptr s' = NULL" by auto
        then have "ok_post s s'" unfolding ok_post_def cur_post_def by (auto split: if_splits)
        then show ?thesis
          using t valid quiet p True s'(1) by (simp add: syscall_receive_def Let_def)
      next
        case False
        have i: "Senders ?c \<in> chain_ids s" using cur(1) by simp
        have pd: "p \<in> dom (tsss s)"
          using p(2) [OF False] kinv_g_chain [OF inv i] kinv_g_proc(1) [OF inv] by blast
        obtain n s1 where s1: "exchange_data p ?c s = Some (n, s1)" "kinv_g {} s1 qs L"
            "static s1 = static s" "curptr s1 = ?c" "nextptr s1 = NULL"
          using exchange_data_kinv_g [OF inv pd cur(2)] nn by auto
        let ?f = "\<lambda>t :: tss. t\<lparr>eax_reg := n\<rparr>"
        have "?c \<in> dom (tsss s1)" using staticD(4) [OF s1(3)] cur(2) by simp
        then obtain s2 where s2: "tss_upd ?c ?f s1 = Some s2" "kinv_g {} s2 qs L" "static s2 = static s1"
            "curptr s2 = ?c" "nextptr s2 = NULL"
          using upd_kinv_g [OF s1(2), of ?c ?f] s1(4,5) by auto
        have "p \<in> dom (tsss s2)" using staticD(4) [OF s1(3)] staticD(4) [OF s2(3)] pd by simp
        then obtain s3 where s3: "tss_upd p ?f s2 = Some s3" "kinv_g {} s3 qs L" "static s3 = static s2"
            "curptr s3 = ?c" "nextptr s3 = NULL"
          using upd_kinv_g [OF s2(2), of p ?f] s2(4,5) by auto
        have st: "static s3 = static s" using s1(3) s2(3) s3(3) by simp
        have "?c \<in> set (pproctab s3)" using staticD(1) [OF st] cur(1) by simp
        from remove_from_senders_list_kinv_g [OF s3(2) this p(2) [OF False]] obtain s4 qs4 L4 where
          s4: "remove_from_senders_list p ?c s3 = Some s4" "kinv_g {} s4 qs4 L4"
            "set qs4 = insert p (set qs)" "static s4 = static s3" "curptr s4 = ?c" "nextptr s4 = NULL"
          using s3(4,5) by auto
        have "ok_post s s4" using s4 st cq by (intro ok_postI [OF s4(2)]) simp_all
        from ok_post_err [OF this pd] obtain s5 where s5: "set_err p OK s4 = Some s5" "ok_post s s5"
          by blast
        from ok_post_err [OF s5(2) cur(2)] obtain s6 where s6: "set_err ?c OK s5 = Some s6" "ok_post s s6"
          by blast
        have "curptr s5 = ?c" using s5(1) s4(5) by (auto simp: set_err_def tss_upd_iff)
        then show ?thesis
          using t valid quiet p(1) False s1 s2 s3 s4 s5 s6 by (simp add: syscall_receive_def Let_def)
      qed
    qed
  qed
qed

text \<open>
  The feature argument of a call must lie in the table: the table has four entries, the check of
  the argument admits 32 different features.
\<close>

definition feature_in_table :: "u32 \<Rightarrow> bool" where
  "feature_in_table f \<longleftrightarrow> f < 16"

lemma feature_in_table_slot:
  assumes "feature_in_table f" and "f = 2 ^ n" and "n < 32"
  shows "n < 4"
proof (rule ccontr)
  assume "\<not> n < 4"
  moreover have "unat (2 ^ n :: u32) = 2 ^ n"
  proof -
    have "(2 ^ n :: u32) = of_nat (2 ^ n)" by simp
    moreover have "(2 :: nat) ^ n < 2 ^ 32" using assms(3) by (intro power_strict_increasing) simp_all
    ultimately show ?thesis by (simp only: unat_of_nat) (simp add: take_bit_nat_eq_self)
  qed
  ultimately have "16 \<le> unat (2 ^ n :: u32)"
    using power_increasing [of 4 n "2 :: nat"] by simp
  with assms(1,2) show False by (simp add: feature_in_table_def word_less_nat_alt)
qed

lemma table_slot:
  assumes "kinv_g X s qs L" and "feature_in_table f" and "f = 2 ^ n" and "n < 32"
  shows "feature_slot f s = Some (n, featureTable s ! n)" "n < 4"
    "supplier (featureTable s ! n) = NULL \<or> supplier (featureTable s ! n) \<in> set (pproctab s)"
proof -
  show n: "n < 4" using feature_in_table_slot [OF assms(2-4)] .
  have tab: "length (featureTable s) = 4"
      "\<forall>e \<in> set (featureTable s). supplier e = NULL \<or> supplier e \<in> set (pproctab s)"
    using assms(1) by (simp_all add: kinv_g_def tables_inv_def)
  then show "feature_slot f s = Some (n, featureTable s ! n)"
    using n assms(3,4) by (simp add: feature_slot_single)
  show "supplier (featureTable s ! n) = NULL \<or> supplier (featureTable s ! n) \<in> set (pproctab s)"
    using tab n by simp
qed

lemma add_waiting_for_feature_kinv_g:
  assumes inv: "kinv_g {} s qs L" and x: "x \<in> set qs"
    and slot: "feature_slot f s = Some (n, featureTable s ! n)" and n: "n < 4"
  shows "\<exists>s'. add_waiting_for_feature x f s = Some s' \<and>
    kinv_g {x} s' qs (L(Waiters n := L (Waiters n) @ [x])) \<and> static s' = static s \<and>
    curptr s' = curptr s \<and> nextptr s' = nextptr s \<and>
    fld tss_state s' x = 0 \<and> 0 < fld schedticks s' x"
proof -
  let ?i = "Waiters n" and ?zs = "L (Waiters n)" and ?slot = "featureTable s ! n"
  have i: "?i \<in> chain_ids s" using n by simp
  note seg = chains_invD [OF kinv_g_parts(2) [OF inv] i]
  have dom: "set ?zs \<subseteq> dom (tsss s)" using seg(2) kinv_g_proc(1) [OF inv] by blast
  have nn: "NULL \<notin> set ?zs" using seg(2) kinv_g_proc(2) [OF inv] by blast
  have xp: "x \<in> set (pproctab s)" by (rule kinv_g_queue [OF inv x])
  obtain t where t: "tsss s x = Some t" using kinv_g_proc(1) [OF inv xp] by blast
  have st: "tss_state t = 0" "0 < schedticks t"
    using kinv_g_state [OF inv xp] x by (simp_all add: fld_Some [OF t] EMPTY_def)
  have tab: "tables_inv s" "length (featureTable s) = 4"
    using kinv_g_parts(3) [OF inv] by (simp_all add: tables_inv_def)
  have scan: "last_sender (tsss s) NULL (waiter ?slot) = Some (last (NULL # ?zs))"
    using last_sender_chain [OF seg(1) dom] by simp
  let ?step = "if last (NULL # ?zs) \<noteq> NULL
      then tss_upd (last (NULL # ?zs)) (\<lambda>pv. pv\<lparr>nextSender := x\<rparr>) s
      else Some (s\<lparr>featureTable := (featureTable s)[n := ?slot\<lparr>waiter := x\<rparr>]\<rparr>)"
  have "\<exists>a. ?step = Some a \<and> (\<forall>q. map_option sstate (tsss a q) = map_option sstate (tsss s q)) \<and>
      schedqueue a = schedqueue s \<and> pproctab a = pproctab s \<and> idlestate a = idlestate s \<and>
      tables_inv a \<and> fld nextSender a = (if ?zs = [] then fld nextSender s
        else (fld nextSender s)(last ?zs := x)) \<and>
      (\<forall>j \<in> chain_ids s. chain_head a j = (if j = ?i \<and> ?zs = [] then x else chain_head s j)) \<and>
      static a = static s \<and> curptr a = curptr s \<and> nextptr a = nextptr s"
  proof (cases "?zs = []")
    case True
    have "set ((featureTable s)[n := ?slot\<lparr>waiter := x\<rparr>]) \<subseteq>
        insert (?slot\<lparr>waiter := x\<rparr>) (set (featureTable s))" by (rule set_update_subset_insert)
    moreover have "?slot \<in> set (featureTable s)" using tab(2) n by simp
    ultimately have "tables_inv (s\<lparr>featureTable := (featureTable s)[n := ?slot\<lparr>waiter := x\<rparr>]\<rparr>)"
      using tab(1) by (fastforce simp: tables_inv_def)
    then show ?thesis
      using True n tab(2) by (auto simp: chain_head_def nth_list_update split: chain_id.splits)
  next
    case False
    then have l: "last ?zs \<in> set ?zs" by simp
    then obtain tl where tl: "tsss s (last ?zs) = Some tl" using dom by blast
    have ln: "last ?zs \<noteq> NULL" using l nn by metis
    let ?a = "s\<lparr>tsss := (tsss s)(last ?zs \<mapsto> tl\<lparr>nextSender := x\<rparr>)\<rparr>"
    have "fld firstSender ?a = fld firstSender s" by (rule fld_upd_same [OF tl]) simp
    then have "chain_head ?a = chain_head s"
      by (simp add: chain_head_def fun_eq_iff split: chain_id.splits)
    moreover have "map_option sstate (tsss ?a q) = map_option sstate (tsss s q)" for q
      by (rule sstate_upd [OF tl]) simp
    ultimately show ?thesis
      using False ln tab(1) tl by (intro exI [of _ ?a]) (simp add: tss_upd_def)
  qed
  then obtain a where a: "?step = Some a"
      "\<And>q. map_option sstate (tsss a q) = map_option sstate (tsss s q)"
      "schedqueue a = schedqueue s" "pproctab a = pproctab s" "idlestate a = idlestate s"
      "tables_inv a" "fld nextSender a = (if ?zs = [] then fld nextSender s
        else (fld nextSender s)(last ?zs := x))"
      "\<forall>j \<in> chain_ids s. chain_head a j = (if j = ?i \<and> ?zs = [] then x else chain_head s j)"
      "static a = static s" "curptr a = curptr s" "nextptr a = nextptr s" by blast
  obtain ta where ta: "tsss a x = Some ta" using a(2) [of x] t by auto
  have sta: "tss_state ta = 0" "0 < schedticks ta"
    using a(2) [of x] ta t st by (simp_all add: sstate_def sview_def)
  let ?b = "a\<lparr>tsss := (tsss a)(x \<mapsto> ta\<lparr>nextSender := NULL\<rparr>)\<rparr>"
  have "kinv_g {x} ?b qs (L(?i := ?zs @ [x]))" by (rule link_kinv_g [OF inv i x a(2-8) ta])
  moreover have "add_waiting_for_feature x f s = Some ?b"
    unfolding add_waiting_for_feature_def
    using slot scan a(1) tss_upd_Some [OF ta] by (cases "?zs = []"; cases "last ?zs = NULL") simp_all
  moreover have "static ?b = static s" using static_tss [OF ta] a(9) by simp
  ultimately show ?thesis using a(10,11) sta by simp
qed

lemma syscall_send_by_feature_ok:
  assumes rdy: "ready_to_call s qs L" and t: "tsss s (curptr s) = Some t"
    and f: "feature_in_table (ebx_reg t)"
  shows "\<exists>s'. syscall_send_by_feature s = Some s' \<and> ok_post s s'"
proof -
  let ?c = "curptr s" and ?f = "ebx_reg t"
  have inv: "kinv_g {} s qs L" and cq: "?c \<in> set qs" and nn: "nextptr s = NULL"
    using rdy by (simp_all add: ready_to_call_def)
  note cur = ready_cur [OF rdy]
  show ?thesis
  proof (cases "\<exists>n < 32. ?f = 2 ^ n")
    case False
    then have "check_feature ?f = Some (- 1)" by (simp add: check_feature_eq)
    then show ?thesis
      using ready_err [OF rdy] t by (simp add: syscall_send_by_feature_def Let_def)
  next
    case True
    then obtain n where n: "n < 32" "?f = 2 ^ n" by blast
    have ck: "check_feature ?f = Some 0" using True by (simp add: check_feature_eq)
    note slot = table_slot [OF inv f n(2,1)]
    let ?r = "supplier (featureTable s ! n)"
    have gp: "get_process_by_feature ?f s = Some ?r" using slot(1) by (simp add: get_process_by_feature_def)
    have eq: "syscall_send_by_feature s =
      (if ?r = ?c then set_err ?c CIRCULARSEND s
       else if ?r \<noteq> NULL then do { s \<leftarrow> tss_upd ?c (\<lambda>t. t\<lparr>ebx_reg := ?r\<rparr>) s; syscall_send s }
       else if edi_reg t = 1 then do { s \<leftarrow> add_waiting_for_feature ?c ?f s; dequeue (curptr s) s }
       else set_err ?c WOULDBLOCK s)"
      using t ck gp by (simp add: syscall_send_by_feature_def Let_def)
    consider (circ) "?r = ?c" | (send) "?r \<noteq> ?c" "?r \<noteq> NULL" | (wait) "?r \<noteq> ?c" "?r = NULL" "edi_reg t = 1"
      | (block) "?r \<noteq> ?c" "?r = NULL" "edi_reg t \<noteq> 1" by blast
    then show ?thesis
    proof cases
      case circ
      then show ?thesis using ready_err [OF rdy] eq by simp
    next
      case send
      let ?t = "t\<lparr>ebx_reg := ?r\<rparr>"
      let ?a = "s\<lparr>tsss := (tsss s)(?c \<mapsto> ?t)\<rparr>"
      have "kinv_g {} ?a qs L" using inv kinv_g_tss [OF t] by simp
      then have ra: "ready_to_call ?a qs L" using cq nn by (simp add: ready_to_call_def)
      have "\<exists>s'. syscall_send ?a = Some s' \<and> ok_post ?a s'"
        using send slot(3) by (intro syscall_send_ok [OF ra]) auto
      then obtain s' where s': "syscall_send ?a = Some s'" "ok_post ?a s'" by blast
      have "ok_post s s'" using s'(2) static_tss [OF t] by (simp add: ok_post_def cur_post_def)
      then show ?thesis using s'(1) eq send by (simp add: tss_upd_Some [OF t])
    next
      case wait
      obtain a where a: "add_waiting_for_feature ?c ?f s = Some a"
          "kinv_g {?c} a qs (L(Waiters n := L (Waiters n) @ [?c]))" "static a = static s"
          "curptr a = ?c" "nextptr a = NULL" "fld tss_state a ?c = 0" "0 < fld schedticks a ?c"
        using add_waiting_for_feature_kinv_g [OF inv cq slot(1,2)] nn by auto
      have ap: "?c \<in> set (pproctab a)" using staticD(1) [OF a(3)] cur(1) by simp
      obtain s' where s': "dequeue ?c a = Some s'"
          "kinv_g {} s' (remove1 ?c qs) (L(Waiters n := L (Waiters n) @ [?c]))" "score s' = score a"
          "if curptr a = ?c \<and> ?c \<in> set qs \<and> qs \<noteq> [?c]
           then curptr s' = nextptr s' \<and> nextptr s' \<in> set (remove1 ?c qs)
           else curptr s' = curptr a \<and> nextptr s' = nextptr a"
        using block_kinv_g [OF a(2) ap] a(4-7) by auto
      have "static s' = static s" using static_score [OF s'(3)] a(3) by simp
      then have "ok_post s s'"
        using s'(2,4) a(4,5) cq unfolding ok_post_def cur_post_def by (auto split: if_splits)
      then show ?thesis using s'(1) a(1,4) eq wait by simp
    next
      case block
      then show ?thesis using ready_err [OF rdy] eq by simp
    qed
  qed
qed

lemma set_feature_kinv_g:
  assumes inv: "kinv_g {} s qs L" and x: "x \<in> set (pproctab s)"
    and slot: "feature_slot f s = Some (n, featureTable s ! n)" and n: "n < 4"
  shows "\<exists>b s' L'. set_feature x f s = Some (b, s') \<and> kinv_g {} s' qs L' \<and> static s' = static s \<and>
    curptr s' = curptr s \<and> nextptr s' = nextptr s"
proof (cases "supplier (featureTable s ! n) \<noteq> NULL")
  case True
  then show ?thesis using inv slot by (auto simp: set_feature_def)
next
  case False
  obtain t where t: "tsss s x = Some t" using kinv_g_proc(1) [OF inv x] by blast
  have tab: "tables_inv s" "length (featureTable s) = 4"
    using kinv_g_parts(3) [OF inv] by (simp_all add: tables_inv_def)
  let ?ft = "(featureTable s)[n := \<lparr>supplier = x, waiter = NULL\<rparr>]"
  let ?t = "t\<lparr>firstSender := waiter (featureTable s ! n)\<rparr>"
  define b where "b = s\<lparr>tsss := (tsss s)(x \<mapsto> ?t), featureTable := ?ft\<rparr>"
  let ?L = "L(Senders x := L (Waiters n), Waiters n := [])"
  have sf: "set_feature x f s = Some (0, b)"
    using False slot n tab(2) by (simp add: set_feature_def Let_def tss_upd_def t b_def)
  have "set ?ft \<subseteq> insert \<lparr>supplier = x, waiter = NULL\<rparr> (set (featureTable s))"
    by (rule set_update_subset_insert)
  then have tb: "tables_inv b" using tab(1) x by (fastforce simp: tables_inv_def b_def)
  have beq: "fld nextSender b = fld nextSender s" "pproctab b = pproctab s"
      "fld firstSender b = (fld firstSender s)(x := waiter (featureTable s ! n))"
    using fld_triv [OF t, of nextSender] by (simp_all add: b_def)
  have hd: "\<forall>k \<in> chain_ids s. chain_head b k =
      (if k = Senders x then chain_head s (Waiters n) else if k = Waiters n then NULL else chain_head s k)"
    using n tab(2) by (auto simp: chain_head_def beq(3) b_def nth_list_update split: chain_id.splits)
  have ch: "chains_inv b ?L"
    using x n by (intro chains_transfer [OF kinv_g_parts(2) [OF inv] _ _ _ beq(2,1) hd]) simp_all
  have "kinv_g {} b qs ?L"
  proof (rule kinv_g_chains [OF inv _ _ _ _ tb ch])
    show "map_option sstate (tsss b q) = map_option sstate (tsss s q)" for q
      using sstate_upd [OF t, of ?t] by (simp add: b_def)
    show "q \<notin> set qs \<and> fld tss_state s q \<in> {0, SENDING}"
      if "j \<in> chain_ids s" "q \<in> set (?L j)" "q \<notin> {}" for j q
      using that kinv_g_blocked [OF inv, of j q] kinv_g_blocked [OF inv, of "Waiters n" q] n
      by (auto split: if_splits)
  qed (simp_all add: b_def)
  moreover have "static b = static s" "curptr b = curptr s" "nextptr b = nextptr s"
    using static_tss [OF t] by (simp_all add: b_def static_def)
  ultimately show ?thesis using sf by blast
qed

lemma syscall_set_feature_ok:
  assumes rdy: "ready_to_call s qs L" and t: "tsss s (curptr s) = Some t"
    and f: "feature_in_table (ebx_reg t)"
  shows "\<exists>s'. syscall_set_feature s = Some s' \<and> ok_post s s'"
proof -
  let ?c = "curptr s" and ?f = "ebx_reg t"
  have inv: "kinv_g {} s qs L" and cq: "?c \<in> set qs" and nn: "nextptr s = NULL"
    using rdy by (simp_all add: ready_to_call_def)
  note cur = ready_cur [OF rdy]
  show ?thesis
  proof (cases "\<exists>n < 32. ?f = 2 ^ n")
    case False
    then have "check_feature ?f = Some (- 1)" by (simp add: check_feature_eq)
    then show ?thesis
      using ready_err [OF rdy] t by (simp add: syscall_set_feature_def Let_def)
  next
    case True
    then obtain n where n: "n < 32" "?f = 2 ^ n" by blast
    have ck: "check_feature ?f = Some 0" using True by (simp add: check_feature_eq)
    note slot = table_slot [OF inv f n(2,1)]
    obtain b s1 L1 where s1: "set_feature ?c ?f s = Some (b, s1)" "kinv_g {} s1 qs L1"
        "static s1 = static s" "curptr s1 = ?c" "nextptr s1 = NULL"
      using set_feature_kinv_g [OF inv cur(1) slot(1,2)] nn by auto
    have "ok_post s s1" using s1 cq by (intro ok_postI [OF s1(2)]) simp_all
    from ok_post_err [OF this cur(2)] show ?thesis
      using t ck s1(1,4) by (auto simp: syscall_set_feature_def Let_def)
  qed
qed

section \<open>The end of a process\<close>

lemma kinv_g_irqs:
  assumes "kinv_g X s qs L" and "length iq = 16" and "\<forall>p \<in> set iq. p = NULL \<or> p \<in> set (pproctab s)"
  shows "kinv_g X (s\<lparr>irqs := iq\<rparr>) qs L"
proof -
  have "chain_inv (s\<lparr>irqs := iq\<rparr>) qs = chain_inv s qs" by (intro chain_inv_sview) simp_all
  moreover have "chain_head (s\<lparr>irqs := iq\<rparr>) = chain_head s" "chain_ids (s\<lparr>irqs := iq\<rparr>) = chain_ids s"
    by (auto simp: chain_head_def chain_ids_def fun_eq_iff split: chain_id.splits)
  ultimately show ?thesis
    using assms by (simp add: kinv_g_def sched_inv_def flags_inv_def chains_inv_def tables_inv_def states_inv_def)
qed

lemma release_fold:
  "length iq = 16 \<Longrightarrow> k \<le> 16 \<Longrightarrow>
     fold (\<lambda>i iq. if iq ! i = p then iq[i := NULL] else iq) [0..<k] iq =
     map (\<lambda>q. if q = p then NULL else q) (take k iq) @ drop k iq"
proof (induction k)
  case 0
  then show ?case by simp
next
  case (Suc k)
  have k: "k < length iq" using Suc.prems by simp
  let ?g = "\<lambda>q. if q = p then NULL else q"
  have "take (Suc k) iq = take k iq @ [iq ! k]" "drop k iq = iq ! k # drop (Suc k) iq"
    using k by (simp_all add: take_Suc_conv_app_nth Cons_nth_drop_Suc)
  then show ?case
    using Suc k by (simp add: nth_append list_update_append)
qed

lemma release_irqs_taken_eq:
  "length (irqs s) = 16 \<Longrightarrow>
     irqs (release_irqs_taken p s) = map (\<lambda>q. if q = p then NULL else q) (take 15 (irqs s)) @ drop 15 (irqs s)"
  using release_fold [of "irqs s" 15 p] by (simp add: release_irqs_taken_def)

lemma release_irqs_kinv_g:
  assumes inv: "kinv_g X s qs L"
  shows "kinv_g X (release_irqs_taken p s) qs L" "static (release_irqs_taken p s) = static s"
    "curptr (release_irqs_taken p s) = curptr s" "nextptr (release_irqs_taken p s) = nextptr s"
    "tsss (release_irqs_taken p s) = tsss s"
proof -
  let ?iq = "irqs (release_irqs_taken p s)"
  have tab: "length (irqs s) = 16" "\<forall>p \<in> set (irqs s). p = NULL \<or> p \<in> set (pproctab s)"
    using inv by (simp_all add: kinv_g_def tables_inv_def)
  have "kinv_g X (s\<lparr>irqs := ?iq\<rparr>) qs L"
    unfolding release_irqs_taken_eq [OF tab(1)]
    by (rule kinv_g_irqs [OF inv]) (use tab in \<open>auto dest: in_set_takeD in_set_dropD\<close>)
  then show "kinv_g X (release_irqs_taken p s) qs L" by (simp add: release_irqs_taken_def)
qed (simp_all add: release_irqs_taken_def)

lemma unblock_step:
  assumes inv: "kinv_g {c} s qs L" and c: "c \<in> set (pproctab s)"
    and zs: "L (Senders c) = z # zs" and cn: "\<forall>i \<in> chain_ids s. c \<notin> set (L i)"
  shows "\<exists>s' qs'. unblock_waiting_senders c s = unblock_waiting_senders c s' \<and>
    kinv_g {c} s' qs' (L(Senders c := zs)) \<and> set qs' = insert z (set qs) \<and> static s' = static s \<and>
    curptr s' = curptr s \<and> nextptr s' = nextptr s \<and> fld tss_state s' c = fld tss_state s c \<and>
    fld esi_reg s' = (fld esi_reg s)(z := PROCESSDIED) \<and> irqs s' = irqs s"
proof -
  let ?i = "Senders c" and ?L = "L(Senders c := zs)"
  have i: "?i \<in> chain_ids s" using c by simp
  note seg = chains_invD [OF kinv_g_parts(2) [OF inv] i]
  have zp: "z \<in> set (pproctab s)" and zi: "z \<in> set (L ?i)" using seg(2) zs by auto
  have zc: "z \<noteq> c" using cn i zi by blast
  obtain tc where tc: "tsss s c = Some tc" using kinv_g_proc(1) [OF inv c] by blast
  obtain tz where tz: "tsss s z = Some tz" using kinv_g_proc(1) [OF inv zp] by blast
  have fs: "firstSender tc = z" "z \<noteq> NULL"
    using seg(1) zs by (simp_all add: fld_Some [OF tc])
  have zst: "tss_state tz \<in> {0, SENDING}"
    using kinv_g_blocked [OF inv i zi] zc by (simp add: fld_Some [OF tz])
  have zpos: "0 < schedticks tz"
    using kinv_g_state [OF inv zp] zc zst by (auto simp: fld_Some [OF tz] EMPTY_def SENDING_def)
  let ?t1 = "tz\<lparr>esi_reg := PROCESSDIED\<rparr>"
  let ?s1 = "s\<lparr>tsss := (tsss s)(z \<mapsto> ?t1)\<rparr>"
  have k1: "kinv_g {c, z} ?s1 qs L"
    using kinv_g_tss [OF tz] kinv_g_mono [OF inv] by simp
  have t1: "tsss ?s1 z = Some ?t1" by simp
  obtain s2 qs2 where s2: "unsetStateFlag z SENDING ?s1 = Some s2" "kinv_g {c, z} s2 qs2 L"
      "set qs2 = insert z (set qs)"
      "score s2 = score (?s1\<lparr>tsss := (tsss ?s1)(z \<mapsto> ?t1\<lparr>tss_state := 0\<rparr>)\<rparr>)"
      "curptr s2 = curptr s" "nextptr s2 = nextptr s"
    using unsetStateFlag_kinv_g [OF k1 t1, of SENDING] zp zpos blocked_unset [OF zst] by auto
  let ?m = "s\<lparr>tsss := (tsss s)(z \<mapsto> ?t1\<lparr>tss_state := 0\<rparr>)\<rparr>"
  have sc: "score s2 = score ?m" using s2(4) by simp
  have f2: "fld nextSender s2 = fld nextSender s" "fld firstSender s2 = fld firstSender s"
    "fld tss_state s2 = (fld tss_state s)(z := 0)" "fld schedticks s2 = fld schedticks s"
    "fld esi_reg s2 = (fld esi_reg s)(z := PROCESSDIED)"
    unfolding score_flds [OF sc] using fld_triv [OF tz] by simp_all
  have st2: "static s2 = static s" using static_score [OF sc] static_tss [OF tz] by simp
  have ft2: "featureTable s2 = featureTable s" using score_eqD(2) [OF sc] by simp
  have "z \<in> dom (tsss s2)" "c \<in> dom (tsss s2)" using staticD(4) [OF st2] tz tc by auto
  then obtain uz uc where uz: "tsss s2 z = Some uz" and uc: "tsss s2 c = Some uc" by auto
  have nz: "nextSender uz = nextSender tz" "fld nextSender s z = nextSender tz"
    using f2(1) by (simp_all add: fld_Some [OF uz, symmetric] fld_Some [OF tz])
  define s3 where "s3 = s2\<lparr>tsss := (tsss s2)(c \<mapsto> uc\<lparr>firstSender := nextSender tz\<rparr>)\<rparr>"
  have u3: "tsss s3 z = Some uz" using uz zc by (simp add: s3_def)
  define s4 where "s4 = s3\<lparr>tsss := (tsss s3)(z \<mapsto> uz\<lparr>nextSender := NULL\<rparr>)\<rparr>"
  have eq4: "schedqueue s4 = schedqueue s2" "pproctab s4 = pproctab s2" "idlestate s4 = idlestate s2"
      "featureTable s4 = featureTable s2" "tables_inv s4 = tables_inv s2" "curptr s4 = curptr s"
      "nextptr s4 = nextptr s" using s2(5,6) by (simp_all add: s4_def s3_def)
  have st4: "static s4 = static s"
    unfolding s4_def static_tss [OF u3] unfolding s3_def static_tss [OF uc] by (rule st2)
  have ids: "chain_ids s2 = chain_ids s" using staticD(5) [OF st2] .
  have "fld nextSender s3 = fld nextSender s2" unfolding s3_def by (rule fld_upd_same [OF uc]) simp
  then have n4: "fld nextSender s4 = (fld nextSender s2)(z := NULL)" by (simp add: s4_def)
  have "fld firstSender s4 = fld firstSender s3" unfolding s4_def by (rule fld_upd_same [OF u3]) simp
  then have fs4: "fld firstSender s4 = (fld firstSender s2)(c := fld nextSender s2 z)"
    by (simp add: s3_def fld_Some [OF uz] nz)
  have ss: "map_option sstate (tsss s4 q) = map_option sstate (tsss s2 q)" for q
    unfolding s4_def sstate_upd [OF u3 sstate_simps(1)]
    unfolding s3_def sstate_upd [OF uc sstate_simps(2)] ..
  have hd4: "\<forall>j \<in> chain_ids s2. chain_head s4 j = (if j = ?i \<and> [] = [] then fld nextSender s2 z else chain_head s2 j)"
    by (auto simp: chain_head_def fs4 eq4 split: chain_id.splits)
  have "chains_inv s4 (L(?i := [] @ zs))"
    by (rule chains_remove [OF kinv_g_parts(2) [OF s2(2)] _ _ eq4(2) _ hd4])
      (use i ids zs n4 in simp_all)
  then have ch4: "chains_inv s4 ?L" by simp
  have k4: "kinv_g {c, z} s4 qs2 ?L"
  proof (rule kinv_g_chains [OF s2(2) ss eq4(1-3) _ ch4])
    show "tables_inv s4" using kinv_g_parts(3) [OF s2(2)] eq4 by simp
    show "q \<notin> set qs2 \<and> fld tss_state s2 q \<in> {0, SENDING}"
      if "j \<in> chain_ids s2" "q \<in> set (?L j)" "q \<notin> {c, z}" for j q
      using that kinv_g_blocked [OF s2(2), of j q] zs by (auto split: if_splits)
  qed
  have f4: "fld tss_state s4 = (fld tss_state s)(z := 0)" "fld schedticks s4 = fld schedticks s"
    using f2 fld_via [OF ss, of tss_state "\<lambda>x. snd (snd x)"] fld_via [OF ss, of schedticks "\<lambda>x. snd (snd (fst x))"]
    by (auto simp: sstate_def sview_def fun_eq_iff)
  have "distinct (L ?i)" using seg(1) by (rule slseg_distinct)
  then have zfree: "\<forall>j \<in> chain_ids s. z \<notin> set (?L j)"
    using kinv_g_disjoint [OF inv i _ _ zi] zs by auto
  have "kinv_g (insert z {c}) s4 qs2 ?L" using k4 by (simp add: insert_commute)
  then have "kinv_g {c} s4 qs2 ?L"
    by (rule kinv_g_restore)
      (use zpos zfree staticD(5) [OF st4] f4 in \<open>simp_all add: fld_Some [OF tz] EMPTY_def\<close>)
  moreover have "unblock_waiting_senders c s = unblock_waiting_senders c s4"
    using tc fs s2(1) uz nz(1)
    by (subst unblock_waiting_senders.simps)
      (simp add: set_err_def tss_upd_Some [OF tz] Let_def tss_upd_Some [OF uc] s4_def s3_def
        tss_upd_Some [OF u3 [unfolded s3_def]])
  moreover have "fld esi_reg s3 = fld esi_reg s2" unfolding s3_def by (rule fld_upd_same [OF uc]) simp
  then have "fld esi_reg s4 = (fld esi_reg s)(z := PROCESSDIED)"
    unfolding s4_def using f2(5) by (subst fld_upd_same [OF u3]) simp_all
  moreover have "irqs s4 = irqs s" using score_eqD(3) [OF sc] by (simp add: s4_def s3_def)
  ultimately show ?thesis
    using s2(3) st4 eq4 f4(1) zc by (intro exI [of _ s4] exI [of _ qs2]) simp
qed

lemma unblock_waiting_senders_kinv_g:
  assumes "kinv_g {c} s qs L" and "c \<in> set (pproctab s)" and "\<forall>i \<in> chain_ids s. c \<notin> set (L i)"
  shows "\<exists>s' qs'. unblock_waiting_senders c s = Some s' \<and> kinv_g {c} s' qs' (L(Senders c := [])) \<and>
    set qs' = set (L (Senders c)) \<union> set qs \<and> static s' = static s \<and> curptr s' = curptr s \<and>
    nextptr s' = nextptr s \<and> fld tss_state s' c = fld tss_state s c \<and> irqs s' = irqs s \<and>
    (\<forall>p. fld esi_reg s' p = (if p \<in> set (L (Senders c)) then PROCESSDIED else fld esi_reg s p))"
  using assms
proof (induction "L (Senders c)" arbitrary: s qs L)
  case Nil
  obtain t where t: "tsss s c = Some t" using kinv_g_proc(1) [OF Nil.prems(1,2)] by blast
  have "fld firstSender s c = NULL"
    using chains_invD(1) [OF kinv_g_parts(2) [OF Nil.prems(1)], of "Senders c"] Nil by simp
  then have "unblock_waiting_senders c s = Some s"
    using t by (subst unblock_waiting_senders.simps) (simp add: fld_Some)
  moreover have "L(Senders c := []) = L" using Nil.hyps by (simp add: fun_upd_idem)
  ultimately show ?case using Nil by auto
next
  case (Cons z zs)
  let ?L = "L(Senders c := zs)"
  obtain s1 qs1 where s1: "unblock_waiting_senders c s = unblock_waiting_senders c s1"
      "kinv_g {c} s1 qs1 ?L" "set qs1 = insert z (set qs)" "static s1 = static s"
      "curptr s1 = curptr s" "nextptr s1 = nextptr s" "fld tss_state s1 c = fld tss_state s c"
      "fld esi_reg s1 = (fld esi_reg s)(z := PROCESSDIED)" "irqs s1 = irqs s"
    using unblock_step [OF Cons.prems(1,2) Cons.hyps(2) [symmetric] Cons.prems(3)] by blast
  have c1: "c \<in> set (pproctab s1)" "\<forall>i \<in> chain_ids s1. c \<notin> set (?L i)"
    using Cons.prems(2,3) Cons.hyps(2) staticD(1,5) [OF s1(4)]
    by (simp, metis chain_ids_simps(1) fun_upd_apply list.set_intros(2))
  obtain s' qs' where s': "unblock_waiting_senders c s1 = Some s'"
      "kinv_g {c} s' qs' (?L(Senders c := []))" "set qs' = set (?L (Senders c)) \<union> set qs1"
      "static s' = static s1" "curptr s' = curptr s1" "nextptr s' = nextptr s1"
      "fld tss_state s' c = fld tss_state s1 c" "irqs s' = irqs s1"
      "\<forall>p. fld esi_reg s' p = (if p \<in> set (?L (Senders c)) then PROCESSDIED else fld esi_reg s1 p)"
    using Cons.hyps(1) [OF fun_upd_same [symmetric] s1(2) c1] by blast
  show ?case
    using s' s1 Cons.hyps(2) [symmetric] by (intro exI [of _ s'] exI [of _ qs']) auto
qed

section \<open>Exit\<close>

lemma free_kinv_g [simp]:
  "kinv_g X (free_segment g s) qs L = kinv_g X s qs L" "kinv_g X (free_pid n s) qs L = kinv_g X s qs L"
  by (simp_all add: free_segment_def free_gdt_idx_def free_pid_def)

lemma free_frame [simp]:
  "static (free_segment g s) = static s" "static (free_pid n s) = static s"
  "curptr (free_segment g s) = curptr s" "curptr (free_pid n s) = curptr s"
  "nextptr (free_segment g s) = nextptr s" "nextptr (free_pid n s) = nextptr s"
  "tsss (free_segment g s) = tsss s" "tsss (free_pid n s) = tsss s"
  "pproctab (free_segment g s) = pproctab s" "pproctab (free_pid n s) = pproctab s"
  "irqs (free_segment g s) = irqs s" "irqs (free_pid n s) = irqs s"
  by (simp_all add: free_segment_def free_gdt_idx_def free_pid_def)

lemma syscall_exit_full:
  assumes rdy: "ready_to_call s qs L"
  shows "\<exists>s' qs'. syscall_exit s = Some s' \<and> ok_post s s' \<and>
    kinv_g {} s' qs' (L(Senders (curptr s) := [])) \<and>
    set qs' = set (L (Senders (curptr s))) \<union> set qs - {curptr s} \<and>
    fld tss_state s' (curptr s) = EMPTY \<and>
    (\<forall>p. fld esi_reg s' p = (if p \<in> set (L (Senders (curptr s))) then PROCESSDIED else fld esi_reg s p)) \<and>
    irqs s' = irqs (release_irqs_taken (curptr s) s)"
proof -
  let ?c = "curptr s"
  have inv: "kinv_g {} s qs L" and cq: "?c \<in> set qs" and nn: "nextptr s = NULL"
    using rdy by (simp_all add: ready_to_call_def)
  note cur = ready_cur [OF rdy]
  obtain t where t: "tsss s ?c = Some t" using cur(3) by blast
  have fresh: "\<forall>i \<in> chain_ids s. ?c \<notin> set (L i)" using kinv_g_blocked [OF inv] cq by blast
  let ?t = "t\<lparr>tss_state := EMPTY\<rparr>"
  let ?a = "s\<lparr>tsss := (tsss s)(?c \<mapsto> ?t)\<rparr>"
  have ka: "kinv_g {?c} ?a qs L"
    by (rule state_kinv_g [OF kinv_g_mono [OF inv] t]) simp_all
  define b0 where "b0 = free_pid (ucast (pid t)) (free_segment (ss_reg t) (free_segment (gs_reg t)
      (free_segment (fs_reg t) (free_segment (es_reg t) (free_segment (ds_reg t)
      (free_segment (cs_reg t) ?a))))))"
  define b where "b = release_irqs_taken ?c b0"
  have b0: "kinv_g {?c} b0 qs L" "static b0 = static s" "curptr b0 = ?c" "nextptr b0 = NULL"
      "tsss b0 = tsss ?a" "irqs b0 = irqs s"
    using ka static_tss [OF t] nn by (simp_all add: b0_def)
  have kb: "kinv_g {?c} b qs L" and bs: "static b = static s" "curptr b = ?c" "nextptr b = NULL"
      "tsss b = tsss ?a"
    using release_irqs_kinv_g [OF b0(1)] b0(2-5) by (simp_all add: b_def)
  have bi: "irqs b = irqs (release_irqs_taken ?c s)"
    using b0(6) by (simp add: b_def release_irqs_taken_def)
  have cb: "?c \<in> set (pproctab b)" "\<forall>i \<in> chain_ids b. ?c \<notin> set (L i)"
    using staticD(1,5) [OF bs(1)] cur(1) fresh by simp_all
  obtain d qd where d: "unblock_waiting_senders ?c b = Some d" "kinv_g {?c} d qd (L(Senders ?c := []))"
      "set qd = set (L (Senders ?c)) \<union> set qs" "static d = static s" "curptr d = ?c" "nextptr d = NULL"
      "fld tss_state d ?c = EMPTY" "irqs d = irqs b"
      "\<forall>p. fld esi_reg d p = (if p \<in> set (L (Senders ?c)) then PROCESSDIED else fld esi_reg b p)"
    using unblock_waiting_senders_kinv_g [OF kb cb] bs by (auto simp: fld_def)
  have cd: "?c \<in> set (pproctab d)" using staticD(1) [OF d(4)] cur(1) by simp
  have "?c \<notin> set ((L(Senders ?c := [])) i)" if "i \<in> chain_ids d" for i
    using that fresh staticD(5) [OF d(4)] by auto
  then obtain s' where s': "dequeue ?c d = Some s'" "kinv_g {} s' (remove1 ?c qd) (L(Senders ?c := []))"
      "score s' = score d" "if curptr d = ?c \<and> ?c \<in> set qd \<and> qd \<noteq> [?c]
       then curptr s' = nextptr s' \<and> nextptr s' \<in> set (remove1 ?c qd)
       else curptr s' = curptr d \<and> nextptr s' = nextptr d"
    using block_kinv_g [OF d(2) cd] d(5-7) by auto
  have "static s' = static s" using static_score [OF s'(3)] d(4) by simp
  moreover have "?c \<in> set qd" using d(3) cq by simp
  ultimately have ok: "ok_post s s'"
    using s'(2,4) d(5,6) unfolding ok_post_def cur_post_def by (auto split: if_splits)
  have eb: "fld esi_reg b = fld esi_reg s"
    using bs(4) t by (auto simp: fld_def fun_eq_iff)
  have "distinct qd" using kinv_g_parts(1) [OF d(2)] by (simp add: sched_inv_def chain_inv_def)
  then have qd: "set (remove1 ?c qd) = set (L (Senders ?c)) \<union> set qs - {?c}"
    using d(3) by (simp add: set_remove1_eq)
  have "syscall_exit s = Some s'"
    using s'(1) d(1,5) bs(2)
    by (simp add: syscall_exit_def tss_upd_Some [OF t] Let_def b_def b0_def)
  then show ?thesis
    using ok s'(2) qd d(7-9) score_flds [OF s'(3)] score_eqD(3) [OF s'(3)] bi eb
    by (intro exI [of _ s'] exI [of _ "remove1 ?c qd"]) simp
qed

lemma syscall_exit_ok: "ready_to_call s qs L \<Longrightarrow> \<exists>s'. syscall_exit s = Some s' \<and> ok_post s s'"
  using syscall_exit_full by blast

section \<open>Ports, interrupts, addresses\<close>

lemma ready_upd:
  assumes "ready_to_call s qs L" and "kinv_g {} s1 qs L = kinv_g {} s qs L" and "curptr s1 = curptr s"
    and "nextptr s1 = nextptr s"
  shows "ready_to_call s1 qs L"
  using assms by (simp add: ready_to_call_def)

lemma ok_post_frame [simp]:
  "ok_post (s\<lparr>io_trace := tr\<rparr>) s' = ok_post s s'" "ok_post (s\<lparr>irqs := iq\<rparr>) s' = ok_post s s'"
  "ok_post (s\<lparr>port_accessers := pa\<rparr>) s' = ok_post s s'"
  by (simp_all add: ok_post_def cur_post_def)

lemma syscall_port_ok:
  assumes rdy: "ready_to_call s qs L"
  shows "\<exists>s'. syscall_inb dev s = Some s' \<and> ok_post s s'" "\<exists>s'. syscall_inw dev s = Some s' \<and> ok_post s s'"
    "\<exists>s'. syscall_outb s = Some s' \<and> ok_post s s'" "\<exists>s'. syscall_outw s = Some s' \<and> ok_post s s'"
proof -
  let ?c = "curptr s"
  note cur = ready_cur [OF rdy]
  obtain t where t: "tsss s ?c = Some t" using cur(3) by blast
  have tr: "\<exists>s'. set_err ?c e (s\<lparr>io_trace := tr\<rparr>) = Some s' \<and> ok_post s s'" for e tr
  proof -
    have "ready_to_call (s\<lparr>io_trace := tr\<rparr>) qs L" by (rule ready_upd [OF rdy]) simp_all
    from ready_err [OF this, of e] show ?thesis by simp
  qed
  have rd: "\<exists>s'. (\<exists>x. tss_upd ?c (\<lambda>t. t\<lparr>eax_reg := v\<rparr>) (s\<lparr>io_trace := tr\<rparr>) = Some x \<and>
      set_err (curptr x) e x = Some s') \<and> ok_post s s'" for v e tr
  proof -
    have r1: "ready_to_call (s\<lparr>io_trace := tr\<rparr>) qs L" by (rule ready_upd [OF rdy]) simp_all
    obtain s1 where s1: "tss_upd ?c (\<lambda>t. t\<lparr>eax_reg := v\<rparr>) (s\<lparr>io_trace := tr\<rparr>) = Some s1" "ok_post s s1"
      using ok_post_upd [OF ready_ok [OF r1], of ?c "\<lambda>t. t\<lparr>eax_reg := v\<rparr>"] cur(2)
      by auto
    have "curptr s1 = ?c" using s1(1) by (auto simp: tss_upd_iff)
    moreover obtain s2 where "set_err ?c e s1 = Some s2" "ok_post s s2"
      using ok_post_err [OF s1(2) cur(2)] by blast
    ultimately show ?thesis using s1(1) by (intro exI [of _ s2] conjI exI [of _ s1]) simp_all
  qed
  show "\<exists>s'. syscall_inb dev s = Some s' \<and> ok_post s s'"
    using ready_err [OF rdy] rd t by (auto simp: syscall_inb_def inb_def Let_def)
  show "\<exists>s'. syscall_inw dev s = Some s' \<and> ok_post s s'"
    using ready_err [OF rdy] rd t by (auto simp: syscall_inw_def inw_def Let_def)
  show "\<exists>s'. syscall_outb s = Some s' \<and> ok_post s s'"
    using ready_err [OF rdy] tr t by (auto simp: syscall_outb_def outb_def Let_def)
  show "\<exists>s'. syscall_outw s = Some s' \<and> ok_post s s'"
    using ready_err [OF rdy] tr t by (auto simp: syscall_outw_def outw_def Let_def)
qed

lemma syscall_claim_port_ok:
  assumes rdy: "ready_to_call s qs L"
  shows "\<exists>s'. syscall_claim_port s = Some s' \<and> ok_post s s'"
proof -
  obtain t where t: "tsss s (curptr s) = Some t" using ready_cur(3) [OF rdy] by blast
  have "ok_post s (s\<lparr>port_accessers := pa\<rparr>)" for pa
    using ready_ok [OF ready_upd [OF rdy, of "s\<lparr>port_accessers := pa\<rparr>"]]
    by simp
  then show ?thesis using ready_err [OF rdy] t by (simp add: syscall_claim_port_def Let_def)
qed

lemma syscall_vir2phys_ok:
  assumes rdy: "ready_to_call s qs L"
  shows "\<exists>s'. syscall_vir2phys s = Some s' \<and> ok_post s s'"
proof -
  obtain t where t: "tsss s (curptr s) = Some t" using ready_cur(3) [OF rdy] by blast
  then show ?thesis
    using ready_err [OF rdy] ok_post_upd [OF ready_ok [OF rdy] ready_cur(2) [OF rdy]]
    by (simp add: syscall_vir2phys_def)
qed

lemma syscall_request_irq_ok:
  assumes rdy: "ready_to_call s qs L"
  shows "\<exists>s'. syscall_request_irq s = Some s' \<and> ok_post s s'"
proof -
  let ?c = "curptr s"
  note cur = ready_cur [OF rdy]
  obtain t where t: "tsss s ?c = Some t" using cur(3) by blast
  have inv: "kinv_g {} s qs L" using rdy by (simp add: ready_to_call_def)
  have tab: "length (irqs s) = 16" "\<forall>p \<in> set (irqs s). p = NULL \<or> p \<in> set (pproctab s)"
    using inv by (simp_all add: kinv_g_def tables_inv_def)
  let ?a = "s\<lparr>irqs := (irqs s)[unat (ebx_reg t) := ?c]\<rparr>"
  have "kinv_g {} ?a qs L"
    using tab cur(1) set_update_subset_insert [of "irqs s" "unat (ebx_reg t)" ?c]
    by (intro kinv_g_irqs [OF inv]) auto
  then have "ready_to_call ?a qs L" using rdy by (simp add: ready_to_call_def)
  from ready_err [OF this, of OK] have "\<exists>s'. set_err ?c OK ?a = Some s' \<and> ok_post s s'"
    by simp
  then show ?thesis using ready_err [OF rdy] t by (simp add: syscall_request_irq_def Let_def)
qed

section \<open>Every interrupt keeps the invariant\<close>

text \<open>The argument of the two calls that take a feature must be one of the table's.\<close>

definition call_ok :: "kstate \<Rightarrow> bool" where
  "call_ok s \<longleftrightarrow> (fld eax_reg s (curptr s) \<in> {1, 3} \<longrightarrow> feature_in_table (fld ebx_reg s (curptr s)))"

lemma syscallIsr_ok:
  assumes rdy: "ready_to_call s qs L" and ok: "call_ok s"
  shows "\<exists>s'. syscallIsr dev s = Some s' \<and> ok_post s s'"
proof -
  obtain t where t: "tsss s (curptr s) = Some t" using ready_cur(3) [OF rdy] by blast
  have call: "eax_reg t = 1 \<or> eax_reg t = 3 \<Longrightarrow> feature_in_table (ebx_reg t)"
    using ok by (simp add: call_ok_def fld_Some [OF t])
  show ?thesis
  proof (cases "10 < eax_reg t")
    case True
    then show ?thesis using t ready_err [OF rdy] by (simp add: syscallIsr_def syscalls_def)
  next
    case False
    then have "unat (eax_reg t) < 11" by (simp add: word_less_nat_alt)
    then have "unat (eax_reg t) \<in> {0, 1, 2, 3, 4, 5, 6, 7, 8, 9, 10}" by (simp add: less_Suc_eq numeral_eq_Suc)
    then have "\<exists>s'. (syscalls dev ! unat (eax_reg t)) s = Some s' \<and> ok_post s s'"
      using syscall_exit_ok [OF rdy] syscall_set_feature_ok [OF rdy t] syscall_receive_ok [OF rdy]
        syscall_send_by_feature_ok [OF rdy t] syscall_request_irq_ok [OF rdy] syscall_port_ok [OF rdy]
        syscall_claim_port_ok [OF rdy] syscall_vir2phys_ok [OF rdy] call
      by (auto simp: syscalls_def word_unat_eq_iff)
    then show ?thesis using t False by (simp add: syscallIsr_def syscalls_def)
  qed
qed

lemma clockIsr_frame [simp]:
  "kinv_g X (clockIsr s) qs L = kinv_g X s qs L" "static (clockIsr s) = static s"
  "curptr (clockIsr s) = curptr s" "nextptr (clockIsr s) = nextptr s"
  by (simp_all add: clockIsr_def Let_def)

lemma notify_irq_kinv_g:
  assumes inv: "kinv_g {} s qs L" and p: "irqs s ! n \<in> set (pproctab s)"
  shows "\<exists>s' qs'. notify_irq n s = Some s' \<and> kinv_g {} s' qs' L \<and> set qs \<subseteq> set qs' \<and>
    static s' = static s \<and> curptr s' = curptr s \<and> nextptr s' = nextptr s"
proof -
  let ?p = "irqs s ! n"
  obtain t where t: "tsss s ?p = Some t" using kinv_g_proc(1) [OF inv p] by blast
  then have pd: "?p \<in> dom (tsss s)" by auto
  show ?thesis
  proof (cases "tss_state t AND RECEIVING \<noteq> 0")
    case False
    let ?f = "\<lambda>t :: tss. t\<lparr>interrupts := interrupts t OR push_bit n 1\<rparr>"
    obtain s1 where "tss_upd ?p ?f s = Some s1" "kinv_g {} s1 qs L" "static s1 = static s"
        "curptr s1 = curptr s" "nextptr s1 = nextptr s"
      using upd_kinv_g [OF inv pd, of ?f] by auto
    then show ?thesis using t False by (auto simp: notify_irq_def Let_def)
  next
    case True
    have rec: "fld tss_state s ?p = RECEIVING"
      using kinv_g_state [OF inv p] True
      by (auto simp: fld_Some [OF t] RECEIVING_def EMPTY_def SENDING_def)
    obtain s1 where s1: "set_err ?p (ucast (push_bit n 1 :: u16)) s = Some s1" "kinv_g {} s1 qs L"
        "static s1 = static s" "curptr s1 = curptr s" "nextptr s1 = nextptr s"
        "fld tss_state s1 = fld tss_state s"
      using upd_kinv_g [OF inv pd, of "\<lambda>t. t\<lparr>esi_reg := ucast (push_bit n 1 :: u16)\<rparr>"]
      unfolding set_err_def by auto
    have p1: "?p \<in> set (pproctab s1)" "fld tss_state s1 ?p = RECEIVING"
      using staticD(1) [OF s1(3)] p rec s1(6) by simp_all
    obtain t1 where t1: "tsss s1 ?p = Some t1" using staticD(4) [OF s1(3)] pd by auto
    from clear_receiving_from_kinv_g [OF s1(2) p1 t1] obtain s2 qs2 where
      s2: "clear_receiving_from ?p s1 = Some s2" "kinv_g {} s2 qs2 L" "set qs2 = insert ?p (set qs)"
        "static s2 = static s1" "curptr s2 = curptr s1" "nextptr s2 = nextptr s1" by blast
    have "?p \<in> dom (tsss s2)" using staticD(4) [OF s1(3)] staticD(4) [OF s2(4)] pd by simp
    then obtain s3 where "tss_upd ?p (\<lambda>t. t\<lparr>eax_reg := 0\<rparr>) s2 = Some s3" "kinv_g {} s3 qs2 L"
        "static s3 = static s2" "curptr s3 = curptr s2" "nextptr s3 = nextptr s2"
      using upd_kinv_g [OF s2(2), of ?p "\<lambda>t. t\<lparr>eax_reg := 0\<rparr>"] by auto
    then show ?thesis
      using t True s1 s2 by (intro exI [of _ s3] exI [of _ qs2]) (auto simp: notify_irq_def Let_def)
  qed
qed

text \<open>The choice of the next process, made when the handler made none.\<close>

lemma pick_after:
  assumes inv: "kinv_g {} s qs L" and cur: "curptr s \<in> set (pproctab s) \<union> {idlestate s}"
    and q: "curptr s = idlestate s \<or> curptr s \<in> set qs \<or> qs = []" and nn: "nextptr s = NULL"
  shows "\<exists>s'. do { s \<leftarrow> charge_process s; pick_next_proc s } = Some s' \<and> kinv_g {} s' qs L \<and>
    static s' = static s \<and> (if qs = [] then nextptr s' = idlestate s' else nextptr s' \<in> set qs)"
proof -
  have ci: "chain_inv s qs" using kinv_g_parts(1) [OF inv] by (simp add: sched_inv_def)
  have "curptr s \<noteq> idlestate s \<Longrightarrow> curptr s \<in> dom (tsss s)"
    using cur kinv_g_proc(1) [OF inv] by auto
  then obtain a where a: "charge_process s = Some a" "tcore a = tcore s" "curptr a = curptr s"
      "nextptr a = nextptr s" using charge_process_Some [of s] by blast
  have ca: "chain_inv a qs" using ci by (simp add: tcore_chain_inv [OF a(2)])
  have ka: "kinv_g {} a qs L"
  proof (rule score_kinv_g [OF inv tcore_score [OF a(2)]])
    show "sched_inv a qs" using kinv_g_parts(1) [OF inv] by (simp add: tcore_sched_inv [OF a(2)])
  qed simp
  have sa: "static a = static s" by (rule static_score [OF tcore_score [OF a(2)]])
  have "\<exists>b. pick_next_proc a = Some b \<and> tcore b = tcore a \<and>
      (if qs = [] then nextptr b = idlestate b else nextptr b \<in> set qs)"
  proof (cases "qs = []")
    case True
    then have "sq_head (schedqueue a) = NULL" using chain_inv_head [OF ca] by simp
    then show ?thesis using True by (simp add: pick_next_proc_def)
  next
    case False
    have "current_ok a qs" using q False a(3,4) nn staticD(2) [OF sa] by (auto simp: current_ok_def)
    then show ?thesis using pick_next_proc_Some [OF ca False] False by auto
  qed
  then obtain b where b: "pick_next_proc a = Some b" "tcore b = tcore a"
      "if qs = [] then nextptr b = idlestate b else nextptr b \<in> set qs" by blast
  have "kinv_g {} b qs L"
  proof (rule score_kinv_g [OF ka tcore_score [OF b(2)]])
    show "sched_inv b qs" using kinv_g_parts(1) [OF ka] by (simp add: tcore_sched_inv [OF b(2)])
  qed simp
  moreover have "static b = static s" using static_score [OF tcore_score [OF b(2)]] sa by simp
  ultimately show ?thesis using a(1) b by auto
qed

definition kernel_inv :: "kstate \<Rightarrow> bool" where
  "kernel_inv s \<longleftrightarrow> (\<exists>qs L. kinv_g {} s qs L \<and> nextptr s = NULL \<and>
     (curptr s = idlestate s \<or> curptr s \<in> set qs)) \<and>
     length (intrrptstate s) = 16 \<and> set (intrrptstate s) \<subseteq> dom (tsss s)"

definition interrupt_ok :: "nat \<Rightarrow> kstate \<Rightarrow> bool" where
  "interrupt_ok n s \<longleftrightarrow> n < 16 \<and> (n = 2 \<longrightarrow> curptr s \<noteq> idlestate s \<and> call_ok s)"

lemma do_hard_int_kinv_g:
  assumes inv: "kinv_g {} s qs L" and nn: "nextptr s = NULL"
    and cur: "curptr s = idlestate s \<or> curptr s \<in> set qs" and ok: "interrupt_ok n s"
  shows "\<exists>s' qs' L'. do_hard_int dev n s = Some s' \<and> kinv_g {} s' qs' L' \<and> static s' = static s \<and>
    (if qs' = [] then nextptr s' = idlestate s' else nextptr s' \<in> set qs')"
proof -
  let ?isr = "if n = 0 then Some (clockIsr s) else if n = 2 then syscallIsr dev s
      else if length (irqs s) \<le> n then None
      else if irqs s ! n = NULL then Some s else notify_irq n s"
  let ?fin = "\<lambda>s. if nextptr s = NULL then do { s \<leftarrow> charge_process s; pick_next_proc s } else Some s"
  have tab: "length (irqs s) = 16" "\<forall>p \<in> set (irqs s). p = NULL \<or> p \<in> set (pproctab s)"
    using inv by (simp_all add: kinv_g_def tables_inv_def)
  have n: "n < 16" using ok by (simp add: interrupt_ok_def)
  have "\<exists>a qs' L'. ?isr = Some a \<and> kinv_g {} a qs' L' \<and> static a = static s \<and>
      (nextptr a = NULL \<and> curptr a = curptr s \<and>
         (curptr s = idlestate s \<or> curptr s \<in> set qs' \<or> qs' = []) \<or>
       nextptr a \<in> set qs')"
  proof (cases "n = 2")
    case True
    then have "ready_to_call s qs L" "call_ok s"
      using inv nn cur ok by (auto simp: ready_to_call_def interrupt_ok_def)
    from syscallIsr_ok [OF this, of dev] obtain a where "syscallIsr dev s = Some a" "ok_post s a" by blast
    then show ?thesis using True by (auto simp: ok_post_def cur_post_def)
  next
    case False
    have p: "irqs s ! n = NULL \<or> irqs s ! n \<in> set (pproctab s)" using tab n by simp
    show ?thesis
    proof (cases "n = 0 \<or> irqs s ! n = NULL")
      case True
      have "kinv_g {} (clockIsr s) qs L" using inv by simp
      then show ?thesis using True False inv nn cur tab(1) n
        by (intro exI [of _ "if n = 0 then clockIsr s else s"] exI [of _ qs] exI [of _ L]) auto
    next
      case irq: False
      then have "irqs s ! n \<in> set (pproctab s)" using p by simp
      from notify_irq_kinv_g [OF inv this] obtain a qs' where "notify_irq n s = Some a"
          "kinv_g {} a qs' L" "set qs \<subseteq> set qs'" "static a = static s" "curptr a = curptr s"
          "nextptr a = nextptr s" by blast
      then show ?thesis using irq False nn cur tab(1) n by auto
    qed
  qed
  then obtain a qs' L' where a: "?isr = Some a" "kinv_g {} a qs' L'" "static a = static s"
      "nextptr a = NULL \<and> curptr a = curptr s \<and>
         (curptr s = idlestate s \<or> curptr s \<in> set qs' \<or> qs' = []) \<or> nextptr a \<in> set qs'" by blast
  have eq: "do_hard_int dev n s = ?fin a" using a(1) by (simp add: do_hard_int_def)
  show ?thesis
  proof (cases "nextptr a = NULL")
    case True
    then have "NULL \<notin> set qs'" using kinv_g_queue [OF a(2)] kinv_g_proc(2) [OF a(2)] by blast
    then have c: "curptr a = curptr s" "curptr s = idlestate s \<or> curptr s \<in> set qs' \<or> qs' = []"
      using a(4) True by auto
    have "curptr a \<in> set (pproctab a) \<union> {idlestate a}"
      using c(1) cur kinv_g_queue [OF inv] staticD(1,2) [OF a(3)] by auto
    moreover have "curptr a = idlestate a \<or> curptr a \<in> set qs' \<or> qs' = []"
      using c staticD(2) [OF a(3)] by simp
    ultimately obtain s' where s': "?fin a = Some s'" "kinv_g {} s' qs' L'"
        "static s' = static a" "if qs' = [] then nextptr s' = idlestate s' else nextptr s' \<in> set qs'"
      using pick_after [OF a(2) _ _ True] True by auto
    then show ?thesis using eq a(3) by (intro exI [of _ s'] exI [of _ qs'] exI [of _ L']) simp
  next
    case False
    then have "nextptr a \<in> set qs'" using a(4) by blast
    then show ?thesis using eq a False by (intro exI [of _ a] exI [of _ qs'] exI [of _ L']) auto
  qed
qed

lemma hw_intrrpt_inv:
  assumes inv: "kernel_inv s" and ok: "interrupt_ok n s"
  shows "\<exists>s'. hw_intrrpt dev n s = Some s' \<and> kernel_inv s' \<and> static s' = static s"
proof -
  let ?a = "s\<lparr>in_kernel := 1, flag := flag s AND 0x7fffffff\<rparr>"
  obtain qs L where k: "kinv_g {} s qs L" "nextptr s = NULL" "curptr s = idlestate s \<or> curptr s \<in> set qs"
    and ints: "length (intrrptstate s) = 16" "set (intrrptstate s) \<subseteq> dom (tsss s)"
    using inv by (auto simp: kernel_inv_def)
  have "interrupt_ok n ?a" using ok by (simp add: interrupt_ok_def call_ok_def)
  then obtain b qs' L' where b: "do_hard_int dev n ?a = Some b" "kinv_g {} b qs' L'" "static b = static s"
      "if qs' = [] then nextptr b = idlestate b else nextptr b \<in> set qs'"
    using do_hard_int_kinv_g [of ?a qs L n dev] k by auto
  have ni: "nextptr b = idlestate b \<or> nextptr b \<in> set qs'" using b(4) by (auto split: if_splits)
  have "idlestate b \<in> dom (tsss b)" using kinv_g_parts(1) [OF b(2)] by (simp add: sched_inv_def chain_inv_def)
  then obtain t where t: "tsss b (nextptr b) = Some t"
    using ni kinv_g_queue [OF b(2)] kinv_g_proc(1) [OF b(2)] by (metis domD)
  let ?r = "intrrptstate s ! n"
  let ?c = "b\<lparr>curptr := nextptr b, nextptr := NULL\<rparr>"
  have "n < 16" using ok by (simp add: interrupt_ok_def)
  then have "?r \<in> set (intrrptstate s)" using ints(1) by simp
  then have "?r \<in> dom (tsss b)" using ints(2) staticD(4) [OF b(3)] by blast
  then obtain u where u: "tsss ?c ?r = Some u" by auto
  let ?d = "?c\<lparr>tsss := (tsss ?c)(?r \<mapsto> u\<lparr>backlink := idx_tss t\<rparr>)\<rparr>"
  have kd: "kinv_g {} ?d qs' L'"
    using b(2) kinv_g_tss [OF u, of "u\<lparr>backlink := idx_tss t\<rparr>"] by simp
  have sd: "static ?d = static s" unfolding static_tss [OF u] using b(3) by simp
  let ?m = "GDT_BASE + ucast (idx_tss t) + 5"
  let ?e = "?d\<lparr>mem := (mem ?d)(?m := mem ?d ?m OR 2)\<rparr>"
  have sch: "schedule ?r b = Some ?e"
    using t tss_upd_Some [OF u] by (simp add: schedule_def Let_def)
  have ir: "intrrptstate b ! n = ?r" using staticD(3) [OF b(3)] by simp
  let ?o = "outb 0xa0 0x20 (outb 0x20 0x20 ?e)"
  let ?s' = "?o\<lparr>flag := flag ?o OR 0x80000000, in_kernel := 0\<rparr>"
  have "hw_intrrpt dev n s = Some ?s'"
    using b(1) sch ir by (simp add: hw_intrrpt_def Let_def)
  moreover have ke: "kinv_g {} ?s' qs' L'" "static ?s' = static s" "nextptr ?s' = NULL"
      "curptr ?s' = nextptr b" "idlestate ?s' = idlestate b"
    using kd sd by (simp_all add: outb_def)
  have "kernel_inv ?s'"
    unfolding kernel_inv_def using ke ni ints staticD(3,4) [OF ke(2)] by metis
  ultimately show ?thesis using ke(2) by blast
qed

end
