(* ===== verification/MK_Frame.thy ===== *)
theory MK_Frame
  imports MK_Syscalls
begin

text \<open>
  Frames: what the operations leave alone.  \<open>sched_frame\<close> is the contract of a view \<open>F\<close> of the
  state that does not read what the scheduler writes; \<open>kernel_frame\<close> that of a view that reads
  nothing the system calls for processes and messages write either.  Every operation of the model
  keeps every such view.
\<close>

section \<open>Views the scheduler keeps\<close>

locale sched_frame =
  fixes F :: "kstate \<Rightarrow> 'a"
  assumes F_tsss: "F (s\<lparr>tsss := m\<rparr>) = F s"
    and F_schedqueue: "F (s\<lparr>schedqueue := q\<rparr>) = F s"
    and F_curptr: "F (s\<lparr>curptr := p\<rparr>) = F s"
    and F_nextptr: "F (s\<lparr>nextptr := p\<rparr>) = F s"
begin

lemmas F_simps = F_tsss F_schedqueue F_curptr F_nextptr

lemma tss_upd: "tss_upd p f s = Some s' \<Longrightarrow> F s' = F s"
  by (auto simp: tss_upd_iff F_simps)

lemma set_err: "set_err p e s = Some s' \<Longrightarrow> F s' = F s"
  unfolding set_err_def by (rule tss_upd)

lemma set_head: "F (set_head p s) = F s"
  by (simp add: set_head_def F_simps)

lemma enqueue_back: "enqueue_back p s = Some s' \<Longrightarrow> F s' = F s"
  by (auto simp: enqueue_back_def set_head split: if_splits dest!: tss_upd)

lemma enqueue_search: "enqueue_search p s = Some s' \<Longrightarrow> F s' = F s"
  by (auto simp: enqueue_search_def set_head split: if_splits dest!: tss_upd)

lemma enqueue_account: "enqueue_account p s = Some s' \<Longrightarrow> F s' = F s"
  by (auto simp: enqueue_account_def F_simps Let_def dest!: tss_upd)

lemma enqueue: "enqueue p s = Some s' \<Longrightarrow> F s' = F s"
  by (auto simp: enqueue_def split: if_splits
      dest!: tss_upd enqueue_back enqueue_search enqueue_account)

lemma charge_process: "charge_process s = Some s' \<Longrightarrow> F s' = F s"
  by (auto simp: charge_process_def F_simps split: if_splits dest!: tss_upd)

lemma next_is_head: "next_is_head s = Some s' \<Longrightarrow> F s' = F s"
  by (auto simp: next_is_head_def Let_def F_simps split: if_splits dest!: tss_upd)

lemma pick_next_proc: "pick_next_proc s = Some s' \<Longrightarrow> F s' = F s"
  by (auto simp: pick_next_proc_def Let_def F_simps split: if_splits dest!: tss_upd next_is_head)

lemma dequeue_switch: "dequeue_switch p s = Some s' \<Longrightarrow> F s' = F s"
  by (erule dequeue_switch.raw_induct [where P = "\<lambda>p s s'. F s' = F s", rotated])
    (fastforce simp: Let_def F_simps split: if_splits dest!: charge_process pick_next_proc)

lemma dequeue_unlink: "dequeue_unlink p s = Some s' \<Longrightarrow> F s' = F s"
  by (auto simp: dequeue_unlink_def Let_def F_simps set_head split: if_splits dest!: tss_upd)

lemma dequeue: "dequeue p s = Some s' \<Longrightarrow> F s' = F s"
  by (auto simp: dequeue_def F_simps split: if_splits
      dest!: tss_upd dequeue_switch dequeue_unlink)

lemma unsetStateFlag: "unsetStateFlag p f s = Some s' \<Longrightarrow> F s' = F s"
  by (auto simp: unsetStateFlag_def split: if_splits dest!: tss_upd enqueue)

lemma setStateFlag: "setStateFlag p f s = Some s' \<Longrightarrow> F s' = F s"
  by (auto simp: setStateFlag_def dest!: tss_upd dequeue)

lemma remove_from_senders_list: "remove_from_senders_list x r s = Some s' \<Longrightarrow> F s' = F s"
  by (auto simp: remove_from_senders_list_def split: if_splits dest!: tss_upd unsetStateFlag)

lemma mark_as_receiving_from: "mark_as_receiving_from r x s = Some s' \<Longrightarrow> F s' = F s"
  by (auto simp: mark_as_receiving_from_def dest!: tss_upd setStateFlag)

lemma clear_receiving_from: "clear_receiving_from r s = Some s' \<Longrightarrow> F s' = F s"
  by (auto simp: clear_receiving_from_def dest!: tss_upd unsetStateFlag)

lemma add_to_senders_list: "add_to_senders_list x r s = Some s' \<Longrightarrow> F s' = F s"
  by (auto simp: add_to_senders_list_def split: if_splits dest!: tss_upd setStateFlag)

lemma unblock_waiting_senders: "unblock_waiting_senders p s = Some s' \<Longrightarrow> F s' = F s"
  by (erule unblock_waiting_senders.raw_induct [where P = "\<lambda>p s s'. F s' = F s", rotated])
    (fastforce simp: Let_def split: if_splits dest!: tss_upd set_err unsetStateFlag)

lemma notify_irq: "notify_irq n s = Some s' \<Longrightarrow> F s' = F s"
  by (auto simp: notify_irq_def Let_def split: if_splits dest!: tss_upd set_err clear_receiving_from)

end

section \<open>Views the system calls for processes and messages keep\<close>

locale kernel_frame = sched_frame +
  assumes F_mem: "F (s\<lparr>mem := m\<rparr>) = F s"
    and F_featureTable: "F (s\<lparr>featureTable := ft\<rparr>) = F s"
    and F_irqs: "F (s\<lparr>irqs := iq\<rparr>) = F s"
begin

lemma free: "F (free_segment g s) = F s" "F (free_pid n s) = F s" "F (release_irqs_taken p s) = F s"
  by (simp_all add: free_segment_def free_gdt_idx_def free_pid_def release_irqs_taken_def F_mem F_irqs)

lemma exchange_data: "exchange_data p r s = Some (n, s') \<Longrightarrow> F s' = F s"
  by (auto simp: exchange_data_def Let_def F_mem dest!: tss_upd)

lemma syscall_exit: "syscall_exit s = Some s' \<Longrightarrow> F s' = F s"
  by (auto simp: syscall_exit_def Let_def free dest!: tss_upd unblock_waiting_senders dequeue)

lemma syscall_send: "syscall_send s = Some s' \<Longrightarrow> F s' = F s"
  by (auto simp: syscall_send_def Let_def split: if_splits
      dest!: tss_upd set_err exchange_data clear_receiving_from add_to_senders_list)

lemma add_waiting_for_feature: "add_waiting_for_feature p f s = Some s' \<Longrightarrow> F s' = F s"
  by (auto simp: add_waiting_for_feature_def F_featureTable split: if_splits dest!: tss_upd)

lemma syscall_send_by_feature: "syscall_send_by_feature s = Some s' \<Longrightarrow> F s' = F s"
  by (auto simp: syscall_send_by_feature_def Let_def split: if_splits
      dest!: tss_upd set_err syscall_send add_waiting_for_feature dequeue)

lemma syscall_receive: "syscall_receive s = Some s' \<Longrightarrow> F s' = F s"
  by (auto simp: syscall_receive_def Let_def split: if_splits
      dest!: tss_upd set_err exchange_data remove_from_senders_list mark_as_receiving_from)

lemma set_feature: "set_feature p f s = Some (n, s') \<Longrightarrow> F s' = F s"
  by (auto simp: set_feature_def Let_def F_featureTable split: if_splits dest!: tss_upd)

lemma syscall_set_feature: "syscall_set_feature s = Some s' \<Longrightarrow> F s' = F s"
  by (auto simp: syscall_set_feature_def Let_def split: if_splits dest!: set_err set_feature)

lemma syscall_request_irq: "syscall_request_irq s = Some s' \<Longrightarrow> F s' = F s"
  by (auto simp: syscall_request_irq_def Let_def F_irqs split: if_splits dest!: set_err)

lemma syscall_vir2phys: "syscall_vir2phys s = Some s' \<Longrightarrow> F s' = F s"
  by (auto simp: syscall_vir2phys_def split: if_splits dest!: tss_upd set_err)

lemma schedule: "schedule p s = Some s' \<Longrightarrow> F s' = F s"
  by (auto simp: schedule_def Let_def F_mem F_simps dest!: tss_upd)

lemmas message_calls = syscall_exit syscall_set_feature syscall_receive syscall_send_by_feature
  syscall_request_irq syscall_vir2phys

end

section \<open>The views of the model\<close>

definition uptime_of :: "kstate \<Rightarrow> nat" where
  "uptime_of s = (unat (hours s) * 60 + unat (minutes s)) * 60 + unat (seconds s)"

definition clock_ok :: "kstate \<Rightarrow> bool" where
  "clock_ok s \<longleftrightarrow> minutes s < 60 \<and> seconds s < 60"

interpretation ports: kernel_frame port_accessers
  by unfold_locales simp_all

interpretation traffic: kernel_frame io_trace
  by unfold_locales simp_all

interpretation clock: kernel_frame "\<lambda>s. (hours s, minutes s, seconds s)"
  by unfold_locales simp_all

interpretation irq_table: sched_frame irqs
  by unfold_locales simp_all

interpretation features: sched_frame featureTable
  by unfold_locales simp_all

interpretation memory_bytes: sched_frame mem
  by unfold_locales simp_all

end
