(* ===== verification/MK_Access.thy ===== *)
theory MK_Access
  imports MK_Frame
begin

text \<open>
  Access to devices: who may use a port, who owns an interrupt, and the clock.  Ports and
  interrupts are both handed out by a table of owners with the same contract, \<open>owner_table\<close>.
\<close>

section \<open>Tables of owners\<close>

text \<open>
  \<open>claim\<close> is a call of the current process that asks for the entry \<open>want\<close> (or for none, when its
  argument is invalid).
\<close>

locale owner_table =
  fixes owner :: "kstate \<Rightarrow> 'k \<Rightarrow> ptr" and claim :: "kstate \<Rightarrow> kstate option"
    and want :: "kstate \<Rightarrow> 'k option" and legal :: "kstate \<Rightarrow> bool"
  assumes claim_total: "legal s \<Longrightarrow> \<exists>s'. claim s = Some s'"
    and claim_effect: "legal s \<Longrightarrow> claim s = Some s' \<Longrightarrow>
      owner s' k = (if want s = Some k \<and> owner s k \<in> {NULL, curptr s} then curptr s else owner s k)"
begin

lemma owned_stays: "legal s \<Longrightarrow> claim s = Some s' \<Longrightarrow> owner s k \<noteq> NULL \<Longrightarrow> owner s' k = owner s k"
  by (auto simp: claim_effect)

lemma claim_free:
  "legal s \<Longrightarrow> want s = Some k \<Longrightarrow> owner s k \<in> {NULL, curptr s} \<Longrightarrow>
     \<exists>s'. claim s = Some s' \<and> owner s' = (owner s)(k := curptr s)"
  using claim_total [of s] claim_effect [of s] by (fastforce simp: fun_eq_iff)

lemma claim_taken:
  "legal s \<Longrightarrow> want s = Some k \<Longrightarrow> owner s k \<notin> {NULL, curptr s} \<Longrightarrow>
     \<exists>s'. claim s = Some s' \<and> owner s' = owner s"
  using claim_total [of s] claim_effect [of s] by (fastforce simp: fun_eq_iff)

end

definition has_caller :: "kstate \<Rightarrow> bool" where
  "has_caller s \<longleftrightarrow> tsss s (curptr s) \<noteq> None"

definition wanted_port :: "kstate \<Rightarrow> u32 option" where
  "wanted_port s = Some (fld ebx_reg s (curptr s) AND 0xffff)"

definition irq_number_ok :: "u32 \<Rightarrow> bool" where
  "irq_number_ok irq \<longleftrightarrow> irq \<noteq> 0 \<and> irq \<noteq> 2 \<and> irq \<le> 15"

definition wanted_irq :: "kstate \<Rightarrow> nat option" where
  "wanted_irq s = (let irq = fld ebx_reg s (curptr s)
     in if irq_number_ok irq then Some (unat irq) else None)"

interpretation port_table: owner_table port_accessers syscall_claim_port wanted_port has_caller
proof unfold_locales
  fix s s' k assume "has_caller s"
  then obtain t where t: "tsss s (curptr s) = Some t" by (auto simp: has_caller_def)
  show "\<exists>s'. syscall_claim_port s = Some s'"
    by (simp add: syscall_claim_port_def t Let_def set_err_def tss_upd_def)
  assume "syscall_claim_port s = Some s'"
  then show "port_accessers s' k = (if wanted_port s = Some k \<and> port_accessers s k \<in> {NULL, curptr s}
      then curptr s else port_accessers s k)"
    using t by (auto simp: syscall_claim_port_def Let_def wanted_port_def fld_Some [OF t]
        dest!: ports.set_err split: if_splits)
qed

lemma request_irq_cases:
  assumes t: "tsss s (curptr s) = Some t" and len: "length (irqs s) = 16"
  defines "k \<equiv> ebx_reg t"
  shows "syscall_request_irq s =
    (if \<not> irq_number_ok k then set_err (curptr s) INVALIDIRQ s
     else if irqs s ! unat k \<notin> {NULL, curptr s} then set_err (curptr s) IRQINUSE s
     else set_err (curptr s) OK (s\<lparr>irqs := (irqs s)[unat k := curptr s]\<rparr>))"
  using t by (auto simp: syscall_request_irq_def Let_def k_def irq_number_ok_def)

interpretation irq_owner: owner_table "\<lambda>s i. irqs s ! i" syscall_request_irq wanted_irq
  "\<lambda>s. has_caller s \<and> length (irqs s) = 16"
proof unfold_locales
  fix s s' k assume "has_caller s \<and> length (irqs s) = 16"
  then obtain t where t: "tsss s (curptr s) = Some t" and len: "length (irqs s) = 16"
    by (auto simp: has_caller_def)
  note cases = request_irq_cases [OF t len]
  show "\<exists>s'. syscall_request_irq s = Some s'"
    unfolding cases by (simp add: set_err_def tss_upd_def t)
  have "irq_number_ok (ebx_reg t) \<Longrightarrow> unat (ebx_reg t) < 16"
    by (auto simp: irq_number_ok_def word_le_nat_alt)
  moreover assume "syscall_request_irq s = Some s'"
  ultimately show "irqs s' ! k = (if wanted_irq s = Some k \<and> irqs s ! k \<in> {NULL, curptr s}
      then curptr s else irqs s ! k)"
    unfolding cases using len
    by (auto simp: wanted_irq_def Let_def fld_Some [OF t] nth_list_update
        dest!: irq_table.set_err split: if_splits)
qed

section \<open>Port traffic\<close>

fun io_port :: "io_event \<Rightarrow> u32" where
  "io_port (InB p v) = p" | "io_port (InW p v) = p" | "io_port (OutB p v) = p" | "io_port (OutW p v) = p"

definition io_allowed :: "kstate \<Rightarrow> kstate \<Rightarrow> bool" where
  "io_allowed s s' \<longleftrightarrow> (\<exists>ev. io_trace s' = io_trace s @ ev \<and> length ev \<le> 1 \<and>
     (\<forall>e \<in> set ev. port_accessers s (io_port e) = curptr s))"

lemma io_allowed_same: "io_trace s' = io_trace s \<Longrightarrow> io_allowed s s'"
  by (simp add: io_allowed_def)

lemma io_allowed_one:
  "io_trace s' = io_trace s @ [e] \<Longrightarrow> port_accessers s (io_port e) = curptr s \<Longrightarrow> io_allowed s s'"
  unfolding io_allowed_def by (intro exI [of _ "[e]"]) simp

lemma port_calls_io:
  "syscall_inb dev s = Some s' \<Longrightarrow> io_allowed s s'"
  "syscall_inw dev s = Some s' \<Longrightarrow> io_allowed s s'"
  "syscall_outb s = Some s' \<Longrightarrow> io_allowed s s'"
  "syscall_outw s = Some s' \<Longrightarrow> io_allowed s s'"
  "syscall_claim_port s = Some s' \<Longrightarrow> io_allowed s s'"
  by (auto simp: syscall_inb_def syscall_inw_def syscall_outb_def syscall_outw_def syscall_claim_port_def
      inb_def inw_def outb_def outw_def has_port_access_def Let_def split: if_splits
      dest!: traffic.set_err traffic.tss_upd intro: io_allowed_same io_allowed_one)

lemma syscall_cases:
  assumes "syscallIsr dev s = Some s'"
  obtains (unknown) "set_err (curptr s) UNKNOWNSYSCALL s = Some s'"
  | (known) n where "n < 11" "n = unat (fld eax_reg s (curptr s))" "(syscalls dev ! n) s = Some s'"
proof -
  obtain t where t: "tsss s (curptr s) = Some t" using assms by (auto simp: syscallIsr_def)
  have len: "length (syscalls dev) = 11" by (simp add: syscalls_def)
  show thesis
  proof (cases "10 < eax_reg t")
    case True
    then have "set_err (curptr s) UNKNOWNSYSCALL s = Some s'"
      using assms t by (simp add: syscallIsr_def len)
    then show thesis by (rule unknown)
  next
    case False
    then have "unat (eax_reg t) < 11" by (simp add: word_less_nat_alt)
    moreover have "(syscalls dev ! unat (eax_reg t)) s = Some s'"
      using assms t False by (simp add: syscallIsr_def len)
    moreover have "unat (eax_reg t) = unat (fld eax_reg s (curptr s))" by (simp add: fld_Some [OF t])
    ultimately show thesis using known by blast
  qed
qed

lemma syscallIsr_io: "syscallIsr dev s = Some s' \<Longrightarrow> io_allowed s s'"
proof (erule syscall_cases)
  assume "set_err (curptr s) UNKNOWNSYSCALL s = Some s'"
  then show ?thesis by (intro io_allowed_same) (rule traffic.set_err)
next
  fix n assume "n < 11" "(syscalls dev ! n) s = Some s'"
  then show ?thesis
    by (auto simp: syscalls_def dest!: below_11
        intro: port_calls_io traffic.message_calls [THEN io_allowed_same])
qed

section \<open>The owner of a port\<close>

lemma port_calls_owner:
  "syscall_inb dev s = Some s' \<Longrightarrow> port_accessers s' = port_accessers s"
  "syscall_inw dev s = Some s' \<Longrightarrow> port_accessers s' = port_accessers s"
  "syscall_outb s = Some s' \<Longrightarrow> port_accessers s' = port_accessers s"
  "syscall_outw s = Some s' \<Longrightarrow> port_accessers s' = port_accessers s"
  by (auto simp: syscall_inb_def syscall_inw_def syscall_outb_def syscall_outw_def
      inb_def inw_def outb_def outw_def Let_def split: if_splits dest!: ports.set_err ports.tss_upd)

text \<open>A port keeps its owner; a port without one goes to a caller that asks for it.\<close>

definition port_step :: "kstate \<Rightarrow> kstate \<Rightarrow> bool" where
  "port_step s s' \<longleftrightarrow> (\<forall>q. port_accessers s' q = port_accessers s q \<or>
     port_accessers s q = NULL \<and> port_accessers s' q = curptr s \<and> wanted_port s = Some q)"

lemma port_step_same: "port_accessers s' = port_accessers s \<Longrightarrow> port_step s s'"
  by (simp add: port_step_def)

lemma claim_port_step: "syscall_claim_port s = Some s' \<Longrightarrow> port_step s s'"
proof -
  assume c: "syscall_claim_port s = Some s'"
  then have "has_caller s" by (auto simp: syscall_claim_port_def has_caller_def)
  from port_table.claim_effect [OF this c] show ?thesis by (auto simp: port_step_def)
qed

lemma syscallIsr_port_step: "syscallIsr dev s = Some s' \<Longrightarrow> port_step s s'"
proof (erule syscall_cases)
  assume "set_err (curptr s) UNKNOWNSYSCALL s = Some s'"
  then show ?thesis by (intro port_step_same) (rule ports.set_err)
next
  fix n assume "n < 11" "(syscalls dev ! n) s = Some s'"
  then show ?thesis
    by (auto simp: syscalls_def dest!: below_11 intro: claim_port_step
        ports.message_calls [THEN port_step_same] port_calls_owner [THEN port_step_same])
qed

section \<open>The clock\<close>

abbreviation clock_view :: "kstate \<Rightarrow> u32 \<times> u8 \<times> u8" where
  "clock_view s \<equiv> (hours s, minutes s, seconds s)"

lemma port_calls_clock:
  "syscall_inb dev s = Some s' \<Longrightarrow> clock_view s' = clock_view s"
  "syscall_inw dev s = Some s' \<Longrightarrow> clock_view s' = clock_view s"
  "syscall_outb s = Some s' \<Longrightarrow> clock_view s' = clock_view s"
  "syscall_outw s = Some s' \<Longrightarrow> clock_view s' = clock_view s"
  "syscall_claim_port s = Some s' \<Longrightarrow> clock_view s' = clock_view s"
  by (auto simp: syscall_inb_def syscall_inw_def syscall_outb_def syscall_outw_def syscall_claim_port_def
      inb_def inw_def outb_def outw_def Let_def split: if_splits dest!: clock.set_err clock.tss_upd)

lemma syscallIsr_clock: "syscallIsr dev s = Some s' \<Longrightarrow> clock_view s' = clock_view s"
proof (erule syscall_cases)
  assume "set_err (curptr s) UNKNOWNSYSCALL s = Some s'"
  then show ?thesis by (rule clock.set_err)
next
  fix n assume "n < 11" "(syscalls dev ! n) s = Some s'"
  then show ?thesis
    by (elim below_11 [THEN insertE] below_cases)
      (simp_all add: syscalls_def clock.message_calls [simplified] port_calls_clock [simplified])
qed

lemma uptime_cong: "clock_view s' = clock_view s \<Longrightarrow> uptime_of s' = uptime_of s \<and> clock_ok s' = clock_ok s"
  by (simp add: uptime_of_def clock_ok_def)

lemma clockIsr_uptime:
  assumes "clock_ok s"
  shows "clock_ok (clockIsr s)" "uptime_of (clockIsr s) = (uptime_of s + 1) mod (3600 * 2 ^ 32)"
proof -
  have lt: "unat (minutes s) < 60" "unat (seconds s) < 60"
    using assms by (simp_all add: clock_ok_def word_less_nat_alt)
  have suc: "unat (minutes s + 1) = unat (minutes s) + 1" "unat (seconds s + 1) = unat (seconds s) + 1"
    using lt by (simp_all add: unat_word_ariths)
  have sixty: "(w + 1 = 60) = (unat w = 59)" if "unat (w + 1) = unat w + 1" for w :: u8
    using that by (simp add: word_unat_eq_iff)
  note m60 = sixty [OF suc(1)] and s60 = sixty [OF suc(2)]
  show "clock_ok (clockIsr s)"
    using lt m60 s60 suc by (auto simp: clockIsr_def Let_def clock_ok_def word_less_nat_alt)
  have h: "unat (hours s + 1) = (unat (hours s) + 1) mod 2 ^ 32" by (simp add: unat_word_ariths)
  have "unat (hours s) < 2 ^ 32" using unsigned_less [of "hours s", where ?'a = nat] by simp
  then show "uptime_of (clockIsr s) = (uptime_of s + 1) mod (3600 * 2 ^ 32)"
    using lt m60 s60 suc h by (auto simp: clockIsr_def Let_def uptime_of_def mod_if)
qed

section \<open>A whole interrupt\<close>

lemma do_hard_int_step:
  assumes "do_hard_int dev n s = Some s'"
  shows "port_step s s'" "io_allowed s s'"
    "n \<noteq> 0 \<Longrightarrow> clock_view s' = clock_view s" "n = 0 \<Longrightarrow> clock_view s' = clock_view (clockIsr s)"
proof -
  obtain a where a: "(if n = 0 then Some (clockIsr s) else if n = 2 then syscallIsr dev s
      else if length (irqs s) \<le> n then None
      else if irqs s ! n = NULL then Some s else notify_irq n s) = Some a"
    and fin: "(if nextptr a = NULL then do { s \<leftarrow> charge_process a; pick_next_proc s } else Some a) = Some s'"
    using assms by (auto simp: do_hard_int_def)
  have keep: "port_accessers s' = port_accessers a" "io_trace s' = io_trace a" "clock_view s' = clock_view a"
    using fin by (auto split: if_splits dest!: ports.charge_process ports.pick_next_proc,
      auto split: if_splits dest!: traffic.charge_process traffic.pick_next_proc,
      auto split: if_splits dest!: clock.charge_process clock.pick_next_proc)
  have ci: "port_accessers (clockIsr s) = port_accessers s" "io_trace (clockIsr s) = io_trace s"
    by (simp_all add: clockIsr_def Let_def)
  have "port_step s a"
    using a ci by (auto split: if_splits intro: port_step_same syscallIsr_port_step dest: ports.notify_irq)
  then show "port_step s s'" by (simp add: port_step_def keep)
  have "io_allowed s a"
    using a ci by (auto split: if_splits intro: io_allowed_same syscallIsr_io dest: traffic.notify_irq)
  then show "io_allowed s s'" by (simp add: io_allowed_def keep)
  show "clock_view s' = clock_view s" if "n \<noteq> 0"
    using a that unfolding keep
    by (simp split: if_splits) (drule syscallIsr_clock clock.notify_irq, simp)+
  show "clock_view s' = clock_view (clockIsr s)" if "n = 0"
    using a that unfolding keep by simp
qed

lemma hw_intrrpt_step:
  assumes "hw_intrrpt dev n s = Some s'"
  shows "port_step s s'"
    "n \<noteq> 0 \<Longrightarrow> clock_view s' = clock_view s" "n = 0 \<Longrightarrow> clock_view s' = clock_view (clockIsr s)"
proof -
  let ?a = "s\<lparr>in_kernel := 1, flag := flag s AND 0x7fffffff\<rparr>"
  obtain b c where b: "do_hard_int dev n ?a = Some b" and c: "schedule (intrrptstate b ! n) b = Some c"
    and s': "port_accessers s' = port_accessers c" "clock_view s' = clock_view c"
    using assms by (auto simp: hw_intrrpt_def Let_def outb_def)
  have keep: "port_accessers s' = port_accessers b" "clock_view s' = clock_view b"
    using s' ports.schedule [OF c] clock.schedule [OF c] by simp_all
  show "port_step s s'"
    using do_hard_int_step(1) [OF b] by (simp add: port_step_def keep wanted_port_def fld_def)
  show "clock_view s' = clock_view s" if "n \<noteq> 0"
    using do_hard_int_step(3) [OF b that] unfolding keep by simp
  have "clock_view (clockIsr ?a) = clock_view (clockIsr s)" by (simp add: clockIsr_def Let_def)
  then show "clock_view s' = clock_view (clockIsr s)" if "n = 0"
    using do_hard_int_step(4) [OF b that] unfolding keep by simp
qed

lemma uptime_hw_intrrpt:
  assumes h: "hw_intrrpt dev n s = Some s'" and ok: "clock_ok s"
  shows "clock_ok s' \<and> uptime_of s' = (uptime_of s + (if n = 0 then 1 else 0)) mod (3600 * 2 ^ 32)"
proof (cases "n = 0")
  case True
  from uptime_cong [OF hw_intrrpt_step(3) [OF h True]] clockIsr_uptime [OF ok] True show ?thesis by simp
next
  case False
  have "unat (hours s) < 2 ^ 32" using unsigned_less [of "hours s", where ?'a = nat] by simp
  moreover have "unat (minutes s) < 60" "unat (seconds s) < 60"
    using ok by (simp_all add: clock_ok_def word_less_nat_alt)
  ultimately have "uptime_of s < 3600 * 2 ^ 32" by (simp add: uptime_of_def)
  with uptime_cong [OF hw_intrrpt_step(2) [OF h False]] ok False show ?thesis by simp
qed

end
