(* ===== verification/MK_System.thy ===== *)
theory MK_System
  imports MK_Kernel_Inv MK_Access
begin

text \<open>
  The running machine: processes run between interrupts, interrupts run the kernel.  What holds
  of every state that can be reached.
\<close>

section \<open>The kernel as a transition system\<close>

text \<open>
  Between two interrupts the current process runs: it changes its own registers, which the
  processor saves in its task-state segment, and memory.  Everything the kernel itself keeps in a
  task-state segment stays.
\<close>

definition clear_registers :: "tss \<Rightarrow> tss" where
  "clear_registers t = t\<lparr>eip_reg := 0, eflag_reg := 0, eax_reg := 0, ecx_reg := 0, edx_reg := 0,
     ebx_reg := 0, esp_reg := 0, ebp_reg := 0, esi_reg := 0, edi_reg := 0, es_reg := 0, cs_reg := 0,
     ss_reg := 0, ds_reg := 0, fs_reg := 0, gs_reg := 0\<rparr>"

inductive kstep :: "device \<Rightarrow> kstate \<Rightarrow> kstate \<Rightarrow> bool" for dev :: device where
  user: "tsss s (curptr s) = Some t \<Longrightarrow> clear_registers t' = clear_registers t \<Longrightarrow>
    kstep dev s (s\<lparr>tsss := (tsss s)(curptr s \<mapsto> t'), mem := m\<rparr>)"
| interrupt: "interrupt_ok n s \<Longrightarrow> hw_intrrpt dev n s = Some s' \<Longrightarrow> kstep dev s s'"

inductive reachable :: "device \<Rightarrow> kstate \<Rightarrow> kstate \<Rightarrow> bool" for dev :: device where
  refl: "reachable dev s s"
| step: "reachable dev s s' \<Longrightarrow> kstep dev s' s'' \<Longrightarrow> reachable dev s s''"

inductive_cases kstep_cases: "kstep dev s s'"

lemma clear_registers_kview:
  assumes "clear_registers t' = clear_registers t"
  shows "kview t' = kview t"
proof -
  have "kview (clear_registers t) = kview t" for t
    by (simp add: kview_def sview_def enqueued_def clear_registers_def)
  then show ?thesis using assms by metis
qed

lemma kstep_kernel_inv:
  assumes "kstep dev s s'" and "kernel_inv s"
  shows "kernel_inv s'"
  using assms
proof cases
  case (user t t' m)
  have k: "kinv_g {} s' qs L = kinv_g {} s qs L" for qs L
    unfolding user(1) using kinv_g_tss [OF user(2) clear_registers_kview [OF user(3)]] by simp
  have d: "dom (tsss s') = dom (tsss s)" using user by auto
  have f: "nextptr s' = nextptr s" "curptr s' = curptr s" "idlestate s' = idlestate s"
      "intrrptstate s' = intrrptstate s" using user(1) by simp_all
  show ?thesis using assms(2) unfolding kernel_inv_def k d f .
next
  case (interrupt n)
  then show ?thesis using hw_intrrpt_inv [OF assms(2), of n dev] by auto
qed

lemma reachable_kernel_inv: "reachable dev s s' \<Longrightarrow> kernel_inv s \<Longrightarrow> kernel_inv s'"
  by (induction rule: reachable.induct) (auto intro: kstep_kernel_inv)

lemma kstep_static:
  assumes "kstep dev s s'" and "kernel_inv s"
  shows "static s' = static s"
  using assms(1)
proof cases
  case (user t t' m)
  then show ?thesis using static_tss [OF user(2)] by (simp add: static_def)
next
  case (interrupt n)
  then show ?thesis using hw_intrrpt_inv [OF assms(2), of n dev] by auto
qed

lemma reachable_static: "reachable dev s s' \<Longrightarrow> kernel_inv s \<Longrightarrow> static s' = static s"
  by (induction rule: reachable.induct) (auto dest: kstep_static reachable_kernel_inv)

section \<open>The types of the kernel's data\<close>

text \<open>
  What the declarations of \<^verbatim>\<open>kernel/types.h\<close> and of the tables promise: a pointer is null or points
  to a task-state segment (in the tables: to a slot of the process table), the tables have their
  lengths, and a state byte is one of the four that are defined.
\<close>

definition slot_or_null :: "kstate \<Rightarrow> ptr \<Rightarrow> bool" where
  "slot_or_null s p \<longleftrightarrow> p = NULL \<or> p \<in> set (pproctab s)"

definition well_typed :: "kstate \<Rightarrow> bool" where
  "well_typed s \<longleftrightarrow> tsss s NULL = None \<and> set (pproctab s) \<subseteq> dom (tsss s) \<and>
     curptr s \<in> insert (idlestate s) (set (pproctab s)) \<and> idlestate s \<in> dom (tsss s) \<and>
     slot_or_null s (sq_head (schedqueue s)) \<and>
     length (featureTable s) = 4 \<and>
     (\<forall>e \<in> set (featureTable s). slot_or_null s (supplier e) \<and> slot_or_null s (waiter e)) \<and>
     length (irqs s) = 16 \<and> (\<forall>p \<in> set (irqs s). slot_or_null s p) \<and>
     (\<forall>p \<in> dom (tsss s). (fld tss_next s p = NULL \<or> fld tss_next s p \<in> dom (tsss s)) \<and>
        (fld tss_previous s p = NULL \<or> fld tss_previous s p \<in> dom (tsss s))) \<and>
     (\<forall>p \<in> set (pproctab s). slot_or_null s (fld firstSender s p) \<and>
        fld tss_state s p \<in> {0, EMPTY, RECEIVING, SENDING})"

lemma chain_head_slot:
  assumes "kinv_g X s qs L" and "i \<in> chain_ids s"
  shows "slot_or_null s (chain_head s i)"
  using kinv_g_chain [OF assms] by (cases "L i") (auto simp: slot_or_null_def)

lemma kernel_inv_well_typed:
  assumes "kernel_inv s"
  shows "well_typed s"
proof -
  obtain qs L where k: "kinv_g {} s qs L" "curptr s = idlestate s \<or> curptr s \<in> set qs"
    using assms by (auto simp: kernel_inv_def)
  have c: "chain_inv s qs" and tab: "tables_inv s"
    using k(1) by (simp_all add: kinv_g_def sched_inv_def)
  note ci = c [unfolded chain_inv_def links_ok_def link_ok_def]
  have "slot_or_null s (sq_head (schedqueue s))"
    using ci by (cases qs) (auto simp: slot_or_null_def)
  moreover have "slot_or_null s (waiter e)" if e: "e \<in> set (featureTable s)" for e
  proof -
    obtain f where "f < 4" "e = featureTable s ! f" using e tab by (auto simp: in_set_conv_nth tables_inv_def)
    then show ?thesis using chain_head_slot [OF k(1), of "Waiters f"] by (simp add: chain_head_def)
  qed
  moreover have "slot_or_null s (fld firstSender s p)" if "p \<in> set (pproctab s)" for p
    using chain_head_slot [OF k(1), of "Senders p"] that by (simp add: chain_head_def)
  moreover have "fld tss_state s p \<in> {0, EMPTY, RECEIVING, SENDING}" if "p \<in> set (pproctab s)" for p
    using kinv_g_state [OF k(1) that] by blast
  moreover have "curptr s \<in> insert (idlestate s) (set (pproctab s))"
    using k(2) ci by auto
  moreover have "\<forall>e \<in> set (featureTable s). slot_or_null s (supplier e)" "\<forall>p \<in> set (irqs s). slot_or_null s p"
    "length (featureTable s) = 4" "length (irqs s) = 16"
    using tab by (simp_all add: tables_inv_def slot_or_null_def)
  moreover have "\<forall>p \<in> dom (tsss s). (fld tss_next s p = NULL \<or> fld tss_next s p \<in> dom (tsss s)) \<and>
      (fld tss_previous s p = NULL \<or> fld tss_previous s p \<in> dom (tsss s))"
    using c link_okD unfolding chain_inv_def links_ok_def by blast
  moreover have "tsss s NULL = None" "set (pproctab s) \<subseteq> dom (tsss s)" "idlestate s \<in> dom (tsss s)"
    using ci by simp_all
  ultimately show ?thesis unfolding well_typed_def by simp
qed

section \<open>Ports and the clock over a run\<close>

lemma kstep_port_step:
  assumes "kstep dev s s'" and "port_accessers s q \<noteq> NULL"
  shows "port_accessers s' q = port_accessers s q"
  using assms(1)
proof cases
  case (interrupt n)
  then have "port_step s s'" by (intro hw_intrrpt_step(1))
  then show ?thesis using assms(2) by (auto simp: port_step_def)
qed simp

lemma reachable_port:
  assumes "reachable dev s s'" and "port_accessers s q \<noteq> NULL"
  shows "port_accessers s' q = port_accessers s q"
  using assms
proof (induction rule: reachable.induct)
  case (step s s' s'')
  then show ?case using kstep_port_step [OF step.hyps(2)] by simp
qed simp

text \<open>A run in which the clock has interrupted \<open>k\<close> times.\<close>

inductive ticking :: "device \<Rightarrow> kstate \<Rightarrow> nat \<Rightarrow> kstate \<Rightarrow> bool" for dev :: device where
  start: "ticking dev s 0 s"
| user: "ticking dev s k s' \<Longrightarrow> tsss s' (curptr s') = Some t \<Longrightarrow> clear_registers t' = clear_registers t \<Longrightarrow>
    ticking dev s k (s'\<lparr>tsss := (tsss s')(curptr s' \<mapsto> t'), mem := m\<rparr>)"
| interrupt: "ticking dev s k s' \<Longrightarrow> interrupt_ok n s' \<Longrightarrow> hw_intrrpt dev n s' = Some s'' \<Longrightarrow>
    ticking dev s (if n = 0 then Suc k else k) s''"

lemma ticking_reachable: "ticking dev s k s' \<Longrightarrow> reachable dev s s'"
  by (induction rule: ticking.induct) (auto intro: reachable.intros kstep.intros)

lemma ticking_uptime:
  assumes "ticking dev s k s'" and "clock_ok s"
  shows "clock_ok s' \<and> uptime_of s' mod (3600 * 2 ^ 32) = (uptime_of s + k) mod (3600 * 2 ^ 32)"
  using assms
proof (induction rule: ticking.induct)
  case (interrupt s k s' n s'')
  let ?M = "3600 * 2 ^ 32 :: nat"
  let ?d = "if n = 0 then 1 else 0 :: nat"
  have ih: "clock_ok s'" "uptime_of s' mod ?M = (uptime_of s + k) mod ?M" using interrupt by simp_all
  have h: "clock_ok s''" "uptime_of s'' = (uptime_of s' + ?d) mod ?M"
    using uptime_hw_intrrpt [OF interrupt.hyps(3) ih(1)] by simp_all
  have "(uptime_of s' + ?d) mod ?M = (uptime_of s + k + ?d) mod ?M"
    using ih(2) by (metis mod_add_left_eq)
  then show ?case using h by (simp split: if_splits)
qed (simp_all add: clock_ok_def uptime_of_def)

end
