(* ===== verification/MK_Sample.thy ===== *)
theory MK_Sample
  imports MK_Kernel_Inv
begin

text \<open>
  A small machine on which the properties of the other theories are exercised: two runnable
  processes \<open>pA\<close> and \<open>pB\<close>, the receiver \<open>pC\<close> waiting for anybody, and the free slot \<open>pD\<close>.
  The processes that are not free share one data segment of 64 KiB at address \<open>0x200000\<close>,
  whose descriptor is at offset 8 of the descriptor table.
\<close>

abbreviation pA :: ptr where "pA \<equiv> 0x1000"
abbreviation pB :: ptr where "pB \<equiv> 0x2000"
abbreviation pC :: ptr where "pC \<equiv> 0x3000"
abbreviation pD :: ptr where "pD \<equiv> 0x4000"
abbreviation pIdle :: ptr where "pIdle \<equiv> 0x100"

definition blank_tss :: tss where
  "blank_tss = \<lparr>backlink = 0, interrupts = 0, esp0 = 0, ss0 = 0, zeroes2 = 0, schedticks = 0,
     tss_state = 0, misc = 0, zeroes3 = 0, ticksleft = 0, pid = 0, zeroes4 = 0, cr3_reg = 0,
     eip_reg = 0, eflag_reg = 0, eax_reg = 0, ecx_reg = 0, edx_reg = 0, ebx_reg = 0, esp_reg = 0,
     ebp_reg = 0, esi_reg = 0, edi_reg = 0, es_reg = 0, zeroes5 = 0, cs_reg = 0, zeroes6 = 0,
     ss_reg = 0, zeroes7 = 0, ds_reg = 0, zeroes8 = 0, fs_reg = 0, zeroes9 = 0, gs_reg = 0,
     zeroes10 = 0, ldt_sel = 0, zeroes11 = 0, debug = 0, zeroes12 = 0, iomap_base = 0,
     tss_next = NULL, idx_tss = 0, callMask = 0, tss_previous = NULL, firstSender = NULL,
     nextSender = NULL, receivingFrom = NULL, procname = replicate 18 0\<rparr>"

definition tA :: tss where
  "tA = blank_tss\<lparr>schedticks := 20, ticksleft := 20, misc := 1, tss_next := pB, idx_tss := 16,
                  ds_reg := 8\<rparr>"
definition tB :: tss where
  "tB = blank_tss\<lparr>schedticks := 10, ticksleft := 10, misc := 1, tss_previous := pA, idx_tss := 24,
                  ds_reg := 8\<rparr>"
definition tC :: tss where
  "tC = blank_tss\<lparr>schedticks := 5, ticksleft := 5, tss_state := 2, idx_tss := 32,
                  ds_reg := 8, ecx_reg := 16, edx_reg := 0x100\<rparr>"
definition tD :: tss where
  "tD = blank_tss\<lparr>tss_state := 1\<rparr>"

definition sample_tsss :: "ptr \<rightharpoonup> tss" where
  "sample_tsss p =
     (if p = pA then Some tA else if p = pB then Some tB else if p = pC then Some tC
      else if p = pD then Some tD
      else if p = pIdle \<or> p AND 0xfffff00f = 0x6000 then Some blank_tss else None)"

definition sample_mem :: memory where
  "sample_mem a =
     (if a = GDT_BASE + 8 \<or> a = GDT_BASE + 9 then 0xff
      else if a = GDT_BASE + 12 then 0x20
      else if a = GDT_BASE + 13 then 0x92
      else if 0x200000 \<le> a \<and> a < 0x200100 then ucast a
      else 0)"

definition sample :: kstate where
  "sample = \<lparr>tsss = sample_tsss,
     schedqueue = \<lparr>sq_head = pA, sq_ticksleft = 30, sq_schedticks = 30\<rparr>,
     curptr = pA, nextptr = NULL,
     featureTable = [\<lparr>supplier = pC, waiter = NULL\<rparr>, \<lparr>supplier = NULL, waiter = NULL\<rparr>,
                     \<lparr>supplier = NULL, waiter = NULL\<rparr>, \<lparr>supplier = NULL, waiter = NULL\<rparr>],
     irqs = [NULL, pC, NULL, NULL, NULL, NULL, NULL, NULL, NULL, NULL, NULL, NULL, NULL, NULL, pA, NULL],
     port_accessers = (\<lambda>p. if p = 0x60 then pA else NULL),
     mem = sample_mem, gdt_limit = 0xffff, hours = 0, minutes = 59, seconds = 59,
     in_kernel = 0, flag = 0x80000000, io_trace = [], console = [], idlestate = pIdle,
     intrrptstate = [0x6000, 0x6010, 0x6020, 0x6030, 0x6040, 0x6050, 0x6060, 0x6070,
                     0x6080, 0x6090, 0x60a0, 0x60b0, 0x60c0, 0x60d0, 0x60e0, 0x60f0],
     pproctab = [pA, pB, pC, pD], pproctab_end = pD + 148,
     gdtBitmap = 0x8000, pidBitmap = 0x9000\<rparr>"

lemmas sample_tss_defs = tA_def tB_def tC_def tD_def blank_tss_def

lemma sample_tsss_simps [simp]:
  "sample_tsss pA = Some tA" "sample_tsss pB = Some tB" "sample_tsss pC = Some tC"
  "sample_tsss pD = Some tD" "sample_tsss pIdle = Some blank_tss" "sample_tsss NULL = None"
  by (simp_all add: sample_tsss_def)

lemma sample_sel [simp]:
  "tsss sample = sample_tsss" "sq_head (schedqueue sample) = pA"
  "sq_schedticks (schedqueue sample) = 30" "sq_ticksleft (schedqueue sample) = 30"
  "curptr sample = pA" "nextptr sample = NULL" "idlestate sample = pIdle"
  "pproctab sample = [pA, pB, pC, pD]" "mem sample = sample_mem"
  "irqs sample = [NULL, pC, NULL, NULL, NULL, NULL, NULL, NULL, NULL, NULL, NULL, NULL, NULL, NULL, pA, NULL]"
  "port_accessers sample = (\<lambda>p. if p = 0x60 then pA else NULL)"
  by (simp_all add: sample_def)

lemma sample_dom: "p \<in> dom sample_tsss \<Longrightarrow> p = pA \<or> p = pB \<or> p = pC \<or> p = pD \<or>
    sample_tsss p = Some blank_tss"
  by (auto simp: sample_tsss_def split: if_splits)

lemma sample_sched_inv: "sched_inv sample [pA, pB]"
proof -
  have doms: "pA \<in> dom sample_tsss" "pB \<in> dom sample_tsss" "pC \<in> dom sample_tsss"
    "pD \<in> dom sample_tsss" "pIdle \<in> dom sample_tsss"
    by (simp_all add: in_dom_conv)
  have "fld tss_next sample p = NULL \<or> fld tss_next sample p = pB \<and> p \<noteq> pB"
    "fld tss_previous sample p = NULL \<or> fld tss_previous sample p = pA \<and> p \<noteq> pA"
    if "p \<in> dom sample_tsss" for p
    by (insert sample_dom [OF that], elim disjE; simp add: fld_def sample_tss_defs)+
  then have "links_ok sample"
    using doms(1,2) unfolding links_ok_def link_ok_def sample_sel by metis
  then have "chain_inv sample [pA, pB]"
    using doms by (simp add: chain_inv_def fld_def falling_def ticks_bounded_def sample_tss_defs)
  moreover have "flags_inv sample [pA, pB]"
    unfolding flags_inv_def fld_def
  proof
    fix p assume "p \<in> dom (tsss sample)"
    then have "p = pA \<or> p = pB \<or> p = pC \<or> p = pD \<or> sample_tsss p = Some blank_tss"
      by (intro sample_dom) simp
    then show "enqueued (the (tsss sample p)) = (p \<in> set [pA, pB])"
      by (elim disjE) (auto simp: enqueued_def sample_tss_defs ENQUEUED_def)
  qed
  ultimately show ?thesis by (simp add: sched_inv_def)
qed

lemma sample_queue_inv: "queue_inv sample [pA, pB]"
  using sample_sched_inv by (simp add: queue_inv_def)

lemma sample_kinv: "kinv_g {} sample [pA, pB] (\<lambda>_. [])"
proof -
  have "chains_inv sample (\<lambda>_. [])"
  proof (rule chains_invI)
    fix i assume "i \<in> chain_ids sample"
    then show "slseg (fld nextSender sample) (chain_head sample i) [] NULL"
      by (cases i)
        (auto simp: chain_head_def chain_ids_def fld_def sample_tss_defs sample_def less_Suc_eq numeral_eq_Suc)
  qed simp_all
  moreover have "tables_inv sample" by (simp add: tables_inv_def sample_def)
  moreover have "states_inv {} sample [pA, pB] (\<lambda>_. [])"
    by (simp add: states_inv_def fld_def sample_tss_defs flag_defs)
  ultimately show ?thesis using sample_sched_inv by (simp add: kinv_g_def)
qed

lemma sample_kernel_inv: "kernel_inv sample"
proof -
  have "p \<in> dom sample_tsss" if "p AND 0xfffff00f = 0x6000" for p
    using that by (simp add: sample_tsss_def in_dom_conv)
  then have "set (intrrptstate sample) \<subseteq> dom (tsss sample)"
    by (simp add: sample_def)
  moreover have "length (intrrptstate sample) = 16" by (simp add: sample_def)
  ultimately show ?thesis
    using sample_kinv unfolding kernel_inv_def by (intro conjI exI [of _ "[pA, pB]"] exI [of _ "\<lambda>_. []"]) simp_all
qed

section \<open>Callers with other registers\<close>

definition sample_call :: "tss \<Rightarrow> kstate" where
  "sample_call t = sample\<lparr>tsss := sample_tsss(pA \<mapsto> t)\<rparr>"

lemma sample_call_ready:
  assumes "kview t = kview tA"
  shows "ready_to_call (sample_call t) [pA, pB] (\<lambda>_. [])"
  using sample_kinv kinv_g_tss [of sample pA tA t "{}" "[pA, pB]" "\<lambda>_. []"] assms
  by (simp add: ready_to_call_def sample_call_def)

lemma sample_segment:
  "get_limit sample_mem 8 = 0xffff" "get_base sample_mem 8 = 0x200000"
  by (simp_all add: get_limit_def get_base_def Let_def rd16_def sample_mem_def word_cat_eq)

section \<open>A machine with a waiting sender\<close>

text \<open>\<open>pA\<close> is blocked on \<open>pB\<close>, which runs.\<close>

definition wA :: tss where
  "wA = tA\<lparr>misc := 0, tss_state := 4, ebx_reg := pB, ecx_reg := 8, edx_reg := 0\<rparr>"
definition wB :: tss where
  "wB = tB\<lparr>tss_previous := NULL, firstSender := pA, ecx_reg := 16, edx_reg := 0x100\<rparr>"

definition waiting :: kstate where
  "waiting = sample\<lparr>tsss := sample_tsss(pA \<mapsto> wA, pB \<mapsto> wB), curptr := pB,
     schedqueue := \<lparr>sq_head = pB, sq_ticksleft = 10, sq_schedticks = 10\<rparr>\<rparr>"

definition waiting_chains :: "chain_id \<Rightarrow> ptr list" where
  "waiting_chains = (\<lambda>_. [])(Senders pB := [pA])"

lemma waiting_sel [simp]:
  "tsss waiting = sample_tsss(pA \<mapsto> wA, pB \<mapsto> wB)" "curptr waiting = pB" "nextptr waiting = NULL"
  "idlestate waiting = pIdle" "pproctab waiting = [pA, pB, pC, pD]" "mem waiting = sample_mem"
  "schedqueue waiting = \<lparr>sq_head = pB, sq_ticksleft = 10, sq_schedticks = 10\<rparr>"
  "irqs waiting = irqs sample" "featureTable waiting = featureTable sample"
  by (simp_all add: waiting_def)

lemmas waiting_tss_defs = wA_def wB_def sample_tss_defs

lemma waiting_sched_inv: "sched_inv waiting [pB]"
proof -
  have doms: "pA \<in> dom sample_tsss" "pB \<in> dom sample_tsss" "pC \<in> dom sample_tsss"
    "pD \<in> dom sample_tsss" "pIdle \<in> dom sample_tsss"
    by (simp_all add: in_dom_conv)
  have dw: "dom (tsss waiting) = dom sample_tsss" using doms by auto
  have "fld tss_next waiting p = NULL \<or> fld tss_next waiting p = pB \<and> p \<noteq> pB"
    "fld tss_previous waiting p = NULL"
    if "p \<in> dom sample_tsss" for p
    by (insert sample_dom [OF that], elim disjE; simp add: fld_def waiting_tss_defs)+
  then have "links_ok waiting"
    using doms unfolding links_ok_def link_ok_def dw by metis
  then have "chain_inv waiting [pB]"
    using doms by (simp add: chain_inv_def fld_def falling_def ticks_bounded_def waiting_tss_defs)
  moreover have "flags_inv waiting [pB]"
    unfolding flags_inv_def fld_def dw
  proof
    fix p assume "p \<in> dom sample_tsss"
    then have "p = pA \<or> p = pB \<or> p = pC \<or> p = pD \<or> sample_tsss p = Some blank_tss"
      by (rule sample_dom)
    then show "enqueued (the (tsss waiting p)) = (p \<in> set [pB])"
      by (elim disjE) (auto simp: enqueued_def waiting_tss_defs ENQUEUED_def)
  qed
  ultimately show ?thesis by (simp add: sched_inv_def)
qed

lemma less_4: "(i :: nat) < 4 \<longleftrightarrow> i = 0 \<or> i = 1 \<or> i = 2 \<or> i = 3"
  by presburger

lemma waiting_kinv: "kinv_g {} waiting [pB] waiting_chains"
proof -
  have "chains_inv waiting waiting_chains"
  proof (rule chains_invI)
    fix i assume "i \<in> chain_ids waiting"
    then show "slseg (fld nextSender waiting) (chain_head waiting i) (waiting_chains i) NULL"
      by (cases i)
        (auto simp: chain_head_def chain_ids_def fld_def waiting_tss_defs sample_def waiting_chains_def
          less_4)
  qed (auto simp: waiting_chains_def)
  moreover have "tables_inv waiting" by (simp add: tables_inv_def sample_def)
  moreover have "states_inv {} waiting [pB] waiting_chains"
    by (simp add: states_inv_def fld_def waiting_tss_defs flag_defs waiting_chains_def)
  ultimately show ?thesis using waiting_sched_inv by (simp add: kinv_g_def)
qed

lemma waiting_ready: "ready_to_call waiting [pB] waiting_chains"
  using waiting_kinv by (simp add: ready_to_call_def)

end
