(* ===== verification/MK_Sched_Props.thy ===== *)
theory MK_Sched_Props
  imports MK_Sample
begin

text \<open>
  The properties of the scheduler, each with its instance on the sample machine.
\<close>

lemma sample_cores [simp]:
  "fld schedticks sample pC = 5" "fld schedticks sample pA = 20" "fld schedticks sample pB = 10"
  by (simp_all add: fld_def sample_tss_defs)



text \<open>
  C7: taking a queued process out always returns and removes exactly that process; when it was
  the running one and others are queued, the processor has moved to one of those.
\<close>

theorem dequeue_keeps_queue:
  assumes "sched_inv s qs" and "p \<in> set qs" and "curptr s = p \<Longrightarrow> nextptr s = NULL \<or> nextptr s = p"
  shows "\<exists>s'. dequeue p s = Some s' \<and> sched_inv s' (remove1 p qs) \<and> score s' = score s \<and>
    (if curptr s = p \<and> qs \<noteq> [p] then curptr s' = nextptr s' \<and> nextptr s' \<in> set (remove1 p qs)
     else curptr s' = curptr s \<and> nextptr s' = nextptr s)"
  by (rule dequeue_Some [OF assms])

theorem dequeue_keeps_queue_witness:
  "\<exists>s'. dequeue pA sample = Some s' \<and> sched_inv s' [pB] \<and> curptr s' = pB"
  using dequeue_keeps_queue [OF sample_sched_inv, of pA] by auto

text \<open>
  C8: any sequence of insertions and removals of processes with a positive share returns, and
  the queue holds exactly the processes that the sequence leaves in it.
\<close>

theorem run_queue_sequence:
  assumes "queue_inv s qs" and "\<forall>op \<in> set ops. admissible_proc s (qop_target op)"
  shows "\<exists>s' qs'. run_qops enqueue dequeue ops s = Some s' \<and> queue_inv s' qs' \<and>
    set qs' = foldl qop_effect (set qs) ops"
  by (rule rq.run_qops_total [OF assms])

theorem run_queue_sequence_witness:
  "\<exists>s' qs'. run_qops enqueue dequeue [Enq pC, Deq pA, Enq pA, Deq pB] sample = Some s' \<and>
     queue_inv s' qs' \<and> set qs' = {pA, pC}"
proof -
  have "foldl qop_effect (set [pA, pB]) [Enq pC, Deq pA, Enq pA, Deq pB] = {pA, pC}" by auto
  then show ?thesis
    using run_queue_sequence [OF sample_queue_inv, of "[Enq pC, Deq pA, Enq pA, Deq pB]"]
    by (simp add: admissible_proc_def)
qed

text \<open>
  C9: the choice of the next process returns; it picks a queued process, or the idle task exactly
  when the queue is empty, and changes nothing but tick counts.
\<close>

theorem pick_next_chooses_queued:
  assumes "chain_inv s qs" and "current_ok s qs"
  shows "\<exists>s'. pick_next_proc s = Some s' \<and> tcore s' = tcore s \<and>
    (if qs = [] then nextptr s' = idlestate s else nextptr s' \<in> set qs)"
proof (cases "qs = []")
  case True
  then have "sq_head (schedqueue s) = NULL" using chain_inv_head [OF assms(1)] by simp
  then show ?thesis using True by (simp add: pick_next_proc_def)
next
  case False
  then show ?thesis using pick_next_proc_Some [OF assms(1) _ assms(2)] by auto
qed

theorem pick_next_chooses_queued_witness:
  "\<exists>s'. pick_next_proc sample = Some s' \<and> nextptr s' \<in> {pA, pB}"
  using pick_next_chooses_queued [of sample "[pA, pB]"] sample_sched_inv
  by (auto simp: sched_inv_def current_ok_def)

end
