(* ===== verification/MK_Delivery.thy ===== *)
theory MK_Delivery
  imports MK_Kernel_Inv
begin

text \<open>
  What a message transfer does: the copy loop of \<open>_exchange_data\<close> moves the bytes of the
  sender's buffer into the receiver's, and \<open>syscall_send\<close> and \<open>syscall_receive\<close> apply it to
  the two processes that meet.
\<close>

section \<open>Copying memory\<close>

text \<open>\<open>n\<close> bytes from \<open>src\<close> to \<open>dst\<close>, all read before any is written.\<close>

definition blit :: "u32 \<Rightarrow> u32 \<Rightarrow> nat \<Rightarrow> memory \<Rightarrow> memory" where
  "blit src dst n m = (\<lambda>a. if unat (a - dst) < n then m (src + (a - dst)) else m a)"

definition apart :: "u32 \<Rightarrow> u32 \<Rightarrow> nat \<Rightarrow> bool" where
  "apart src dst n \<longleftrightarrow> (\<forall>i < n. n \<le> unat (src + of_nat i - dst))"

lemma blit_0 [simp]: "blit src dst 0 m = m"
  by (simp add: blit_def)

lemma of_nat_unat_sub: "k \<le> unat (d :: u32) \<Longrightarrow> unat (d - of_nat k) = unat d - k"
proof -
  assume k: "k \<le> unat d"
  have "unat d < 2 ^ 32" using unsigned_less [of d, where ?'a = nat] by simp
  with k have u: "unat (of_nat k :: u32) = k" by (simp add: unat_of_nat take_bit_nat_eq_self)
  then have "of_nat k \<le> d" using k by (simp add: word_le_nat_alt)
  then show ?thesis using u by (simp add: unat_sub)
qed

lemma unat_sub_wrap:
  assumes "unat (d :: u32) < k" and "k + j \<le> 2 ^ 32"
  shows "j \<le> unat (d - of_nat k)"
proof (cases "k = 2 ^ 32")
  case True
  then show ?thesis using assms(2) by simp
next
  case False
  then have "k < 2 ^ 32" using assms(2) by simp
  then have u: "unat (of_nat k :: u32) = k" by (simp add: unat_of_nat take_bit_nat_eq_self)
  have "unat (d - of_nat k) = unat d + 2 ^ 32 - k"
    using assms(1) u by (simp add: unat_sub_if' word_size)
  then show ?thesis using assms(2) by simp
qed

lemma blit_blit:
  assumes "k + j \<le> 2 ^ 32" and "\<forall>i < k + j. k \<le> unat (src + of_nat i - dst)"
  shows "blit (src + of_nat k) (dst + of_nat k) j (blit src dst k m) = blit src dst (k + j) m"
proof
  fix a
  define d where "d = a - dst"
  have e: "a - (dst + of_nat k) = d - of_nat k" by (simp add: d_def)
  have b: "blit s' dst n m' a = (if unat d < n then m' (s' + d) else m' a)" for s' n m'
    by (simp add: blit_def d_def)
  have b2: "blit s' (dst + of_nat k) n m' a = (if unat (d - of_nat k) < n then m' (s' + (d - of_nat k)) else m' a)"
    for s' n m' by (simp add: blit_def e)
  have s: "src + of_nat k + (d - of_nat k) = src + d" by simp
  show "blit (src + of_nat k) (dst + of_nat k) j (blit src dst k m) a = blit src dst (k + j) m a"
  proof (cases "unat d < k")
    case True
    then have "\<not> unat (d - of_nat k) < j" using unat_sub_wrap [OF True assms(1)] by simp
    then show ?thesis using True by (simp add: b b2)
  next
    case False
    then have u: "unat (d - of_nat k) = unat d - k" by (simp add: of_nat_unat_sub)
    show ?thesis
    proof (cases "unat d < k + j")
      case True
      then have "k \<le> unat (src + d - dst)" using assms(2) [rule_format, of "unat d"] by simp
      then have "blit src dst k m (src + d) = m (src + d)" by (simp add: blit_def)
      moreover have "unat (d - of_nat k) < j" using True False u by linarith
      ultimately show ?thesis using True by (simp add: b b2 s)
    next
      case beyond: False
      then have "\<not> unat (d - of_nat k) < j" using u by linarith
      then show ?thesis using False beyond by (simp add: b b2)
    qed
  qed
qed

lemma word_cat_bytes:
  "(ucast (word_cat (h :: u8) (l :: u8) :: u16) :: u8) = l"
  "(ucast (drop_bit 8 (word_cat (h :: u8) (l :: u8) :: u16)) :: u8) = h"
  "(ucast (word_cat (hh :: u16) (ll :: u16) :: u32) :: u16) = ll"
  "(ucast (drop_bit 16 (word_cat (hh :: u16) (ll :: u16) :: u32)) :: u16) = hh"
  by (rule bit_word_eqI; auto simp: bit_simps bit_word_cat_iff)+

lemma small_offsets:
  "(unat (d :: u32) < 1) = (d = 0)" "(unat d < 2) = (d = 0 \<or> d = 1)"
  "(unat d < 4) = (d = 0 \<or> d = 1 \<or> d = 2 \<or> d = 3)"
  by (auto simp: word_unat_eq_iff)

lemma wr_rd_blit:
  "m(dst := m src) = blit src dst 1 m"
  "wr16 dst (rd16 m src) m = blit src dst 2 m"
  "wr32 dst (rd32 m src) m = blit src dst 4 m"
proof -
  have d: "(a - dst = k) = (a = dst + k)" for a k by (auto simp: algebra_simps)
  have d0: "(a - dst = 0) = (a = dst)" for a by simp
  show "m(dst := m src) = blit src dst 1 m"
    unfolding blit_def small_offsets d0 by auto
  show "wr16 dst (rd16 m src) m = blit src dst 2 m"
    unfolding blit_def small_offsets d0 d by (auto simp: fun_eq_iff wr16_def rd16_def word_cat_bytes)
  show "wr32 dst (rd32 m src) m = blit src dst 4 m"
    unfolding blit_def small_offsets d0 d
    by (auto simp: fun_eq_iff wr32_def rd32_def wr16_def rd16_def word_cat_bytes add.assoc)
qed

lemma apart_shift:
  assumes "apart src dst n" and "k + j \<le> n"
  shows "apart (src + of_nat k) (dst + of_nat k) j" "\<forall>i < k + j. k \<le> unat (src + of_nat i - dst)"
proof -
  have n: "n \<le> unat (src + of_nat i - dst)" if "i < n" for i using assms(1) that by (simp add: apart_def)
  show "\<forall>i < k + j. k \<le> unat (src + of_nat i - dst)"
  proof (intro allI impI)
    fix i assume "i < k + j"
    then have "n \<le> unat (src + of_nat i - dst)" using n assms(2) by simp
    then show "k \<le> unat (src + of_nat i - dst)" using assms(2) by simp
  qed
  show "apart (src + of_nat k) (dst + of_nat k) j"
    unfolding apart_def
  proof (intro allI impI)
    fix i assume "i < j"
    then have "n \<le> unat (src + of_nat i - dst)" using n assms(2) by simp
    moreover have eq: "src + of_nat k + of_nat i - (dst + of_nat k) = src + of_nat i - dst" by simp
    ultimately show "j \<le> unat (src + of_nat k + of_nat i - (dst + of_nat k))"
      unfolding eq using assms(2) by linarith
  qed
qed

lemma copy_dwords_blit:
  assumes "apart edi esi (unat ecx)"
  shows "copy_dwords ecx edi esi m = (let k = unat ecx div 4 * 4 in
    (of_nat (unat ecx mod 4), edi + of_nat k, esi + of_nat k, blit edi esi k m))"
  using assms
proof (induction ecx edi esi m rule: copy_dwords.induct)
  case (1 ecx edi esi m)
  show ?case
  proof (cases "3 < ecx")
    case False
    then have "unat ecx < 4" by (simp add: word_less_nat_alt)
    then show ?thesis using False by (subst copy_dwords.simps) simp
  next
    case True
    then have u: "4 \<le> unat ecx" by (simp add: word_less_nat_alt)
    have s: "unat (ecx - 4) = unat ecx - 4" using of_nat_unat_sub [OF u] by simp
    have n32: "unat ecx < 2 ^ 32" using unsigned_less [of ecx, where ?'a = nat] by simp
    let ?k = "(unat ecx - 4) div 4 * 4"
    obtain q where q: "unat ecx = q + 4" using u by (metis le_Suc_ex add.commute)
    have le: "4 + ?k \<le> unat ecx" unfolding q using div_times_less_eq_dividend [of q 4] by simp
    have dm: "unat ecx div 4 * 4 = 4 + ?k" "(unat ecx - 4) mod 4 = unat ecx mod 4"
      unfolding q using div_add_self2 [of 4 q] by simp_all
    have "apart (edi + 4) (esi + 4) (unat (ecx - 4))"
      using apart_shift(1) [OF "1.prems", of 4 "unat ecx - 4"] u s by simp
    from "1.IH" [OF True this] have "copy_dwords ecx edi esi m =
        (of_nat (unat ecx mod 4), edi + 4 + of_nat ?k, esi + 4 + of_nat ?k,
         blit (edi + of_nat 4) (esi + of_nat 4) ?k (blit edi esi 4 m))"
      using True by (subst copy_dwords.simps) (simp add: Let_def s dm(2) wr_rd_blit)
    also have "blit (edi + of_nat 4) (esi + of_nat 4) ?k (blit edi esi 4 m) = blit edi esi (4 + ?k) m"
      using le n32 apart_shift(2) [OF "1.prems" le] by (intro blit_blit) simp_all
    finally show ?thesis by (simp add: Let_def dm(1) add.assoc)
  qed
qed

lemma copy_bytes_blit:
  assumes "apart edi esi (unat ecx)"
  shows "copy_bytes ecx edi esi m = blit edi esi (unat ecx) m"
proof -
  define k where "k = unat ecx div 4 * 4"
  define r where "r = unat ecx mod 4"
  have n32: "unat ecx < 2 ^ 32" using unsigned_less [of ecx, where ?'a = nat] by simp
  have sum: "unat ecx = k + r" by (simp add: k_def r_def)
  have tail: "blit (edi + of_nat i) (esi + of_nat i) j (blit edi esi i m) = blit edi esi (i + j) m"
    if "i + j \<le> k + r" for i j
    using that n32 sum by (intro blit_blit apart_shift(2) [OF assms]) linarith+
  have dw: "copy_dwords ecx edi esi m = (of_nat r, edi + of_nat k, esi + of_nat k, blit edi esi k m)"
    unfolding copy_dwords_blit [OF assms] Let_def k_def r_def ..
  have "r < 4" by (simp add: r_def)
  then consider "r = 0" | "r = 1" | "r = 2" | "r = 3" by linarith
  then show ?thesis
  proof cases
    case 4
    have "copy_bytes ecx edi esi m = (blit edi esi (k + 2) m)
        (esi + of_nat k + 2 := blit edi esi (k + 2) m (edi + of_nat k + 2))"
      using tail [of k 2] 4 by (simp add: copy_bytes_def dw Let_def wr_rd_blit(2))
    also have "\<dots> = blit (edi + of_nat (k + 2)) (esi + of_nat (k + 2)) 1 (blit edi esi (k + 2) m)"
      unfolding wr_rd_blit(1) by (simp add: add.assoc add.commute add.left_commute)
    also have "\<dots> = blit edi esi (unat ecx) m"
      using tail [of "k + 2" 1] 4 sum by (simp add: numeral_eq_Suc)
    finally show ?thesis .
  qed (use tail [of k r] sum in \<open>simp_all add: copy_bytes_def dw Let_def wr_rd_blit\<close>)
qed

section \<open>Delivery of a message\<close>

definition segment_base :: "memory \<Rightarrow> tss \<Rightarrow> u32" where
  "segment_base m t = get_base m (ucast (ds_reg t) AND 0xfff8)"

definition buffer_of :: "memory \<Rightarrow> tss \<Rightarrow> u32" where
  "buffer_of m t = segment_base m t + edx_reg t"

definition message_length :: "tss \<Rightarrow> tss \<Rightarrow> u32" where
  "message_length a b = min (ecx_reg a) (ecx_reg b)"

lemma exchange_data_eq:
  assumes a: "tsss s p = Some a" and b: "tsss s r = Some b" and ne: "p \<noteq> r"
    and ap: "apart (buffer_of (mem s) a) (buffer_of (mem s) b) (unat (message_length a b))"
  shows "exchange_data p r s = Some (message_length a b,
    s\<lparr>tsss := (tsss s)(p \<mapsto> a\<lparr>eax_reg := message_length a b\<rparr>, r \<mapsto> b\<lparr>eax_reg := message_length a b\<rparr>),
      mem := blit (buffer_of (mem s) a) (buffer_of (mem s) b) (unat (message_length a b)) (mem s)\<rparr>)"
proof -
  have n: "(if ecx_reg b < ecx_reg a then ecx_reg b else ecx_reg a) = message_length a b"
    by (auto simp: message_length_def min_def)
  show ?thesis
    using a b ne copy_bytes_blit [OF ap]
    by (simp add: exchange_data_def n Let_def tss_upd_def buffer_of_def segment_base_def)
qed

lemma set_err_fld:
  assumes "set_err p e s = Some s'"
  shows "fld esi_reg s' = (fld esi_reg s)(p := e)" "fld eax_reg s' = fld eax_reg s"
    "fld tss_state s' = fld tss_state s" "fld enqueued s' = fld enqueued s" "mem s' = mem s"
    "curptr s' = curptr s" "nextptr s' = nextptr s"
  using assms by (auto simp: set_err_def tss_upd_iff fld_triv)

lemma syscall_send_delivers:
  assumes rdy: "ready_to_call s qs L" and t: "tsss s (curptr s) = Some t"
    and r: "ebx_reg t \<in> set (pproctab s)" and b: "tsss s (ebx_reg t) = Some b"
    and valid: "validate_data_area t (mem s) (edx_reg t) (ecx_reg t) = 0"
    and waits: "tss_state b = RECEIVING" "receivingFrom b = ANYPROC \<or> receivingFrom b = curptr s"
    and ap: "apart (buffer_of (mem s) t) (buffer_of (mem s) b) (unat (message_length t b))"
  shows "\<exists>s'. syscall_send s = Some s' \<and> curptr s' = curptr s \<and>
    mem s' = blit (buffer_of (mem s) t) (buffer_of (mem s) b) (unat (message_length t b)) (mem s) \<and>
    (\<forall>p \<in> {curptr s, ebx_reg t}. fld eax_reg s' p = message_length t b \<and> fld esi_reg s' p = OK) \<and>
    fld tss_state s' (ebx_reg t) = 0 \<and> fld enqueued s' (ebx_reg t)"
proof -
  let ?c = "curptr s" and ?r = "ebx_reg t" and ?n = "message_length t b"
  let ?m = "blit (buffer_of (mem s) t) (buffer_of (mem s) b) (unat ?n) (mem s)"
  have inv: "kinv_g {} s qs L" and cq: "?c \<in> set qs"
    using rdy by (simp_all add: ready_to_call_def)
  note cur = ready_cur [OF rdy]
  have "tss_state t = 0" using kinv_g_state [OF inv cur(1)] cq by (simp add: fld_Some [OF t])
  then have ne: "?c \<noteq> ?r" using waits(1) t b by (auto simp: RECEIVING_def)
  have ready: "receiving_from ?r ?c s = Some True"
    using b waits by (auto simp: receiving_from_def RECEIVING_def)
  let ?t = "t\<lparr>eax_reg := ?n\<rparr>" and ?b = "b\<lparr>eax_reg := ?n\<rparr>"
  define s1 where "s1 = s\<lparr>tsss := (tsss s)(?c \<mapsto> ?t, ?r \<mapsto> ?b), mem := ?m\<rparr>"
  have xd: "exchange_data ?c ?r s = Some (?n, s1)"
    unfolding s1_def by (rule exchange_data_eq [OF t b ne ap])
  have s1: "tsss s1 ?c = Some ?t" "tsss s1 ?r = Some ?b" "curptr s1 = ?c" "mem s1 = ?m"
    using ne by (simp_all add: s1_def)
  have upd: "tss_upd ?c (\<lambda>t. t\<lparr>eax_reg := ?n\<rparr>) s1 = Some s1" "tss_upd ?r (\<lambda>t. t\<lparr>eax_reg := ?n\<rparr>) s1 = Some s1"
    using s1(1,2) by (simp_all add: tss_upd_def fun_upd_idem)
  obtain s2 where s2: "exchange_data ?c ?r s = Some (?n, s2)" "kinv_g {} s2 qs L" "static s2 = static s"
    "fld tss_state s2 = fld tss_state s"
    using exchange_data_kinv_g [OF inv cur(2), of ?r] b xd by auto
  then have k1: "kinv_g {} s1 qs L" "static s1 = static s" using xd by simp_all
  have r1: "?r \<in> set (pproctab s1)" "fld tss_state s1 ?r = RECEIVING"
    using staticD(1) [OF k1(2)] r waits(1) by (simp_all add: fld_Some [OF s1(2)])
  obtain s3 qs3 where s3: "clear_receiving_from ?r s1 = Some s3" "kinv_g {} s3 qs3 L"
      "set qs3 = insert ?r (set qs)" "curptr s3 = ?c"
      "score s3 = score (s1\<lparr>tsss := (tsss s1)(?r \<mapsto> ?b\<lparr>receivingFrom := NULL, tss_state := 0\<rparr>)\<rparr>)"
      "static s3 = static s1"
    using clear_receiving_from_kinv_g [OF k1(1) r1 s1(2)] s1(3) by auto
  have m3: "mem s3 = ?m" using score_eqD(5) [OF s3(5)] s1(4) by simp
  have f3: "fld eax_reg s3 ?c = ?n" "fld eax_reg s3 ?r = ?n"
    unfolding score_flds [OF s3(5)] using s1(1) ne by (simp_all add: fld_Some)
  have d3: "?c \<in> dom (tsss s3)" "?r \<in> dom (tsss s3)"
    using staticD(4) [OF s3(6)] s1(1,2) by auto
  have rq: "fld tss_state s3 ?r = 0" "fld enqueued s3 ?r"
    using kinv_g_state [OF s3(2), of ?r] s3(3) kinv_g_queue [OF s3(2), of ?r] d3(2)
      kinv_g_parts(1) [OF s3(2)] by (auto simp: sched_inv_def flags_inv_def)
  obtain s4 where s4: "set_err ?c OK s3 = Some s4" using d3(1) by (auto simp: set_err_def tss_upd_Some)
  have "?r \<in> dom (tsss s4)" using s4 d3(2) by (auto simp: set_err_def tss_upd_iff)
  then obtain s5 where s5: "set_err ?r OK s4 = Some s5" by (auto simp: set_err_def tss_upd_Some)
  have "syscall_send s = Some s5"
    using t valid ready xd upd s3(1,4) s4 s5 s1(3) by (simp add: syscall_send_def Let_def)
  then show ?thesis
    using set_err_fld [OF s4] set_err_fld [OF s5] m3 f3 rq s3(4) by (intro exI [of _ s5]) simp
qed

section \<open>A waiting sender is served\<close>

lemma get_sender_picks:
  assumes inv: "kinv_g X s qs L" and r: "r \<in> set (pproctab s)" and p: "p \<in> set (L (Senders r))"
    and d: "d = p \<or> d = ANYPROC \<and> hd (L (Senders r)) = p"
  shows "get_sender d r s = Some p"
proof -
  let ?zs = "L (Senders r)"
  have i: "Senders r \<in> chain_ids s" using r by simp
  note seg = chains_invD [OF kinv_g_parts(2) [OF inv] i]
  have dom: "set ?zs \<subseteq> dom (tsss s)" using seg(2) kinv_g_proc(1) [OF inv] by blast
  have pn: "p \<noteq> NULL" using seg(2) p kinv_g_proc(2) [OF inv] by auto
  obtain t where t: "tsss s r = Some t" using kinv_g_proc(1) [OF inv r] by blast
  have sl: "slseg (fld nextSender s) (firstSender t) ?zs NULL"
    using seg(1) by (simp add: fld_Some [OF t])
  then have "firstSender t = hd ?zs" "firstSender t \<noteq> NULL" using p by (cases ?zs; simp)+
  then show ?thesis
    using t find_sender_chain [OF sl dom, of d] d p pn by (auto simp: get_sender_def)
qed

lemma exchange_full:
  assumes inv: "kinv_g X s qs L" and a: "tsss s p = Some a" and b: "tsss s r = Some b" and ne: "p \<noteq> r"
    and ap: "apart (buffer_of (mem s) a) (buffer_of (mem s) b) (unat (message_length a b))"
  defines "n \<equiv> message_length a b"
  shows "\<exists>s1. exchange_data p r s = Some (n, s1) \<and>
    tss_upd p (\<lambda>t. t\<lparr>eax_reg := n\<rparr>) s1 = Some s1 \<and> tss_upd r (\<lambda>t. t\<lparr>eax_reg := n\<rparr>) s1 = Some s1 \<and>
    kinv_g X s1 qs L \<and> static s1 = static s \<and> curptr s1 = curptr s \<and> nextptr s1 = nextptr s \<and>
    tsss s1 p = Some (a\<lparr>eax_reg := n\<rparr>) \<and> tsss s1 r = Some (b\<lparr>eax_reg := n\<rparr>) \<and>
    mem s1 = blit (buffer_of (mem s) a) (buffer_of (mem s) b) (unat n) (mem s)"
proof -
  define s1 where "s1 = s\<lparr>tsss := (tsss s)(p \<mapsto> a\<lparr>eax_reg := n\<rparr>, r \<mapsto> b\<lparr>eax_reg := n\<rparr>),
    mem := blit (buffer_of (mem s) a) (buffer_of (mem s) b) (unat n) (mem s)\<rparr>"
  have x: "exchange_data p r s = Some (n, s1)"
    unfolding s1_def n_def by (rule exchange_data_eq [OF a b ne ap])
  have "kinv_g X s1 qs L" "static s1 = static s"
    using exchange_data_kinv_g [OF inv, of p r] a b x by auto
  moreover have "tsss s1 p = Some (a\<lparr>eax_reg := n\<rparr>)" "tsss s1 r = Some (b\<lparr>eax_reg := n\<rparr>)"
    "curptr s1 = curptr s" "nextptr s1 = nextptr s"
    "mem s1 = blit (buffer_of (mem s) a) (buffer_of (mem s) b) (unat n) (mem s)"
    using ne by (simp_all add: s1_def)
  ultimately show ?thesis using x by (intro exI [of _ s1]) (simp add: tss_upd_def fun_upd_idem)
qed

lemma set_err_kinv_g:
  assumes "kinv_g X s qs L" and "p \<in> dom (tsss s)"
  shows "\<exists>s'. set_err p e s = Some s' \<and> kinv_g X s' qs L \<and> static s' = static s \<and>
    curptr s' = curptr s \<and> nextptr s' = nextptr s \<and> mem s' = mem s \<and>
    fld esi_reg s' = (fld esi_reg s)(p := e) \<and> fld eax_reg s' = fld eax_reg s"
proof -
  obtain s' where s': "set_err p e s = Some s'" "kinv_g X s' qs L" "static s' = static s"
      "curptr s' = curptr s" "nextptr s' = nextptr s"
    using upd_kinv_g [OF assms, of "\<lambda>t. t\<lparr>esi_reg := e\<rparr>"] by (auto simp: set_err_def)
  then show ?thesis using set_err_fld [OF s'(1)] by simp
qed

lemma syscall_receive_takes:
  assumes rdy: "ready_to_call s qs L" and t: "tsss s (curptr s) = Some t"
    and valid: "validate_data_area t (mem s) (edx_reg t) (ecx_reg t) = 0" "interrupts t = 0"
    and p: "p \<in> set (L (Senders (curptr s)))"
      "ebx_reg t = p \<or> ebx_reg t = ANYPROC \<and> hd (L (Senders (curptr s))) = p"
    and a: "tsss s p = Some a"
    and ap: "apart (buffer_of (mem s) a) (buffer_of (mem s) t) (unat (message_length a t))"
  shows "\<exists>s' qs'. syscall_receive s = Some s' \<and> curptr s' = curptr s \<and>
    kinv_g {} s' qs' (L(Senders (curptr s) := remove1 p (L (Senders (curptr s))))) \<and>
    set qs' = insert p (set qs) \<and>
    mem s' = blit (buffer_of (mem s) a) (buffer_of (mem s) t) (unat (message_length a t)) (mem s) \<and>
    (\<forall>q \<in> {curptr s, p}. fld eax_reg s' q = message_length a t \<and> fld esi_reg s' q = OK)"
proof -
  let ?c = "curptr s" and ?n = "message_length a t"
  let ?m = "blit (buffer_of (mem s) a) (buffer_of (mem s) t) (unat ?n) (mem s)"
  have inv: "kinv_g {} s qs L" and cq: "?c \<in> set qs" using rdy by (simp_all add: ready_to_call_def)
  note cur = ready_cur [OF rdy]
  have i: "Senders ?c \<in> chain_ids s" using cur(1) by simp
  have ne: "p \<noteq> ?c" using kinv_g_blocked [OF inv i p(1)] cq by auto
  have pn: "p \<noteq> NULL" using kinv_g_chain [OF inv i] p(1) kinv_g_proc(2) [OF inv] by blast
  have get: "get_sender (ebx_reg t) ?c s = Some p" by (rule get_sender_picks [OF inv cur(1) p])
  obtain s1 where s1: "exchange_data p ?c s = Some (?n, s1)"
      "tss_upd p (\<lambda>t. t\<lparr>eax_reg := ?n\<rparr>) s1 = Some s1" "tss_upd ?c (\<lambda>t. t\<lparr>eax_reg := ?n\<rparr>) s1 = Some s1"
      "kinv_g {} s1 qs L" "static s1 = static s" "curptr s1 = ?c" "tsss s1 p = Some (a\<lparr>eax_reg := ?n\<rparr>)"
      "tsss s1 ?c = Some (t\<lparr>eax_reg := ?n\<rparr>)" "mem s1 = ?m"
    using exchange_full [OF inv a t ne ap] by blast
  have c1: "?c \<in> set (pproctab s1)" using staticD(1) [OF s1(5)] cur(1) by simp
  obtain s2 qs2 where s2: "remove_from_senders_list p ?c s1 = Some s2"
      "kinv_g {} s2 qs2 (L(Senders ?c := remove1 p (L (Senders ?c))))" "set qs2 = insert p (set qs)"
      "static s2 = static s1" "curptr s2 = ?c" "mem s2 = ?m" "fld eax_reg s2 = fld eax_reg s1"
    using remove_from_senders_list_kinv_g [OF s1(4) c1 p(1)] s1(6,9) by auto
  have d2: "p \<in> dom (tsss s2)" "?c \<in> dom (tsss s2)" using staticD(4) [OF s2(4)] s1(7,8) by auto
  obtain s3 where s3: "set_err p OK s2 = Some s3"
      "kinv_g {} s3 qs2 (L(Senders ?c := remove1 p (L (Senders ?c))))" "static s3 = static s2"
      "curptr s3 = ?c" "mem s3 = ?m" "fld esi_reg s3 = (fld esi_reg s2)(p := OK)"
      "fld eax_reg s3 = fld eax_reg s2"
    using set_err_kinv_g [OF s2(2) d2(1), of OK] s2(5,6) by auto
  have "?c \<in> dom (tsss s3)" using staticD(4) [OF s3(3)] d2(2) by simp
  from set_err_kinv_g [OF s3(2) this, of OK] obtain s4 where s4: "set_err ?c OK s3 = Some s4"
      "kinv_g {} s4 qs2 (L(Senders ?c := remove1 p (L (Senders ?c))))" "curptr s4 = ?c" "mem s4 = ?m"
      "fld esi_reg s4 = (fld esi_reg s3)(?c := OK)" "fld eax_reg s4 = fld eax_reg s3"
    using s3(4,5) by auto
  have "syscall_receive s = Some s4"
    using t valid get pn s1(1-3,6) s2(1,5) s3(1,4) s4(1) by (simp add: syscall_receive_def Let_def)
  then show ?thesis
    using s4 s2(3,7) s3(6,7) by (intro exI [of _ s4] exI [of _ qs2]) (simp add: fld_Some [OF s1(7)] fld_Some [OF s1(8)])
qed

section \<open>A sender that finds no receiver waits in line\<close>

lemma syscall_send_blocks:
  assumes rdy: "ready_to_call s qs L" and t: "tsss s (curptr s) = Some t"
    and r: "ebx_reg t \<in> set (pproctab s)" and valid: "validate_data_area t (mem s) (edx_reg t) (ecx_reg t) = 0"
    and busy: "fld tss_state s (ebx_reg t) \<noteq> RECEIVING \<or>
      fld receivingFrom s (ebx_reg t) \<notin> {ANYPROC, curptr s}"
  shows "\<exists>s'. syscall_send s = Some s' \<and>
    kinv_g {} s' (remove1 (curptr s) qs) (L(Senders (ebx_reg t) := L (Senders (ebx_reg t)) @ [curptr s])) \<and>
    (if qs \<noteq> [curptr s] then curptr s' = nextptr s' \<and> nextptr s' \<in> set (remove1 (curptr s) qs)
     else curptr s' = curptr s \<and> nextptr s' = NULL)"
proof -
  let ?c = "curptr s" and ?r = "ebx_reg t"
  have inv: "kinv_g {} s qs L" and cq: "?c \<in> set qs" and nn: "nextptr s = NULL"
    using rdy by (simp_all add: ready_to_call_def)
  obtain b where b: "tsss s ?r = Some b" using kinv_g_proc(1) [OF inv r] by blast
  have "tss_state b \<in> {0, EMPTY, RECEIVING, SENDING}"
    using kinv_g_state [OF inv r] by (simp add: fld_Some [OF b])
  then have "receiving_from ?r ?c s = Some False"
    using busy by (auto simp: receiving_from_def b fld_Some [OF b] RECEIVING_def EMPTY_def SENDING_def)
  moreover obtain s' where "add_to_senders_list ?c ?r s = Some s'"
      "kinv_g {} s' (remove1 ?c qs) (L(Senders ?r := L (Senders ?r) @ [?c]))"
      "if qs \<noteq> [?c] then curptr s' = nextptr s' \<and> nextptr s' \<in> set (remove1 ?c qs)
       else curptr s' = ?c \<and> nextptr s' = NULL"
    using add_to_senders_list_kinv_g [OF inv r cq] nn by auto
  ultimately show ?thesis using t valid by (simp add: syscall_send_def Let_def)
qed

section \<open>An interrupt reaches its process\<close>

definition irq_bit :: "nat \<Rightarrow> u16" where
  "irq_bit n = push_bit n 1"

lemma notify_irq_wakes:
  assumes inv: "kinv_g {} s qs L" and p: "irqs s ! n \<in> set (pproctab s)"
    and rec: "fld tss_state s (irqs s ! n) = RECEIVING"
  shows "\<exists>s' qs'. notify_irq n s = Some s' \<and> kinv_g {} s' qs' L \<and> set qs' = insert (irqs s ! n) (set qs) \<and>
    fld tss_state s' (irqs s ! n) = 0 \<and> fld esi_reg s' (irqs s ! n) = ucast (irq_bit n) \<and>
    fld eax_reg s' (irqs s ! n) = 0 \<and> fld interrupts s' = fld interrupts s"
proof -
  let ?p = "irqs s ! n"
  obtain t where t: "tsss s ?p = Some t" using kinv_g_proc(1) [OF inv p] by blast
  let ?t1 = "t\<lparr>esi_reg := ucast (irq_bit n)\<rparr>"
  define s1 where "s1 = s\<lparr>tsss := (tsss s)(?p \<mapsto> ?t1)\<rparr>"
  have t1: "tsss s1 ?p = Some ?t1" and st1: "static s1 = static s"
    using static_tss [OF t] by (simp_all add: s1_def)
  have k1: "kinv_g {} s1 qs L" using inv kinv_g_tss [OF t, of ?t1] by (simp add: s1_def)
  have p1: "?p \<in> set (pproctab s1)" "fld tss_state s1 ?p = RECEIVING"
    using p rec by (simp_all add: s1_def fld_Some [OF t])
  obtain s2 qs2 where s2: "clear_receiving_from ?p s1 = Some s2" "kinv_g {} s2 qs2 L"
      "set qs2 = insert ?p (set qs)" "static s2 = static s1"
      "score s2 = score (s1\<lparr>tsss := (tsss s1)(?p \<mapsto> ?t1\<lparr>receivingFrom := NULL, tss_state := 0\<rparr>)\<rparr>)"
    using clear_receiving_from_kinv_g [OF k1 p1 t1] by blast
  have f2: "fld tss_state s2 ?p = 0" "fld esi_reg s2 ?p = ucast (irq_bit n)" "fld interrupts s2 = fld interrupts s"
    unfolding score_flds [OF s2(5)] using fld_triv [OF t, of interrupts] by (simp_all add: s1_def)
  have d2: "?p \<in> dom (tsss s2)" using staticD(4) [OF s2(4)] t1 by auto
  obtain t2 where t2: "tsss s2 ?p = Some t2" using d2 by blast
  let ?s3 = "s2\<lparr>tsss := (tsss s2)(?p \<mapsto> t2\<lparr>eax_reg := 0\<rparr>)\<rparr>"
  have "kinv_g {} ?s3 qs2 L" using s2(2) kinv_g_tss [OF t2, of "t2\<lparr>eax_reg := 0\<rparr>"] by simp
  moreover have "notify_irq n s = Some ?s3"
    using t s2(1) rec by (simp add: notify_irq_def Let_def set_err_def tss_upd_Some [OF t]
        tss_upd_Some [OF t2] s1_def irq_bit_def fld_Some [OF t] RECEIVING_def)
  ultimately show ?thesis
    using s2(3) f2 fld_upd_same [OF t2, of interrupts "t2\<lparr>eax_reg := 0\<rparr>"]
    by (intro exI [of _ ?s3] exI [of _ qs2]) (simp add: fld_Some [OF t2])
qed

lemma notify_irq_pends:
  assumes t: "tsss s (irqs s ! n) = Some t" and st: "tss_state t \<in> {0, EMPTY, SENDING}"
  shows "notify_irq n s = Some (s\<lparr>tsss := (tsss s)(irqs s ! n \<mapsto> t\<lparr>interrupts := interrupts t OR irq_bit n\<rparr>)\<rparr>)"
  using t st by (auto simp: notify_irq_def Let_def tss_upd_Some [OF t] irq_bit_def flag_defs)

lemma syscall_receive_pending:
  assumes t: "tsss s (curptr s) = Some t" and n: "interrupts t \<noteq> 0"
    and v: "validate_data_area t (mem s) (edx_reg t) (ecx_reg t) = 0"
  shows "syscall_receive s = Some (s\<lparr>tsss := (tsss s)(curptr s \<mapsto>
    t\<lparr>esi_reg := ucast (interrupts t), interrupts := 0, eax_reg := 0\<rparr>)\<rparr>)"
  using assms by (simp add: syscall_receive_def Let_def set_err_def tss_upd_def)

section \<open>The bounds check\<close>

lemma validate_data_area_sound:
  assumes "validate_data_area t m addr bytes = 0" and "unat addr + unat bytes < 2 ^ 32"
  shows "unat addr + unat bytes \<le> unat (get_limit m (ucast (ds_reg t) AND 0xfff8))"
proof -
  have "unat (addr + bytes) = unat addr + unat bytes" using assms(2) by (simp add: unat_word_ariths)
  then show ?thesis
    using assms(1) by (simp add: validate_data_area_def Let_def word_le_nat_alt not_less split: if_splits)
qed

lemma blit_inside:
  assumes "blit src dst n m a \<noteq> m a"
  shows "\<exists>i < n. a = dst + of_nat i"
proof -
  have "unat (a - dst) < n" using assms by (auto simp: blit_def split: if_splits)
  moreover have "a = dst + of_nat (unat (a - dst))" by simp
  ultimately show ?thesis by blast
qed

end
