(* ===== verification/MK_Ipc_Props.thy ===== *)
theory MK_Ipc_Props
  imports MK_Sample MK_Delivery
begin

text \<open>
  The properties of message passing, features and the end of a process, each with its instance on
  a sample machine.
\<close>

definition caller :: tss where
  "caller = tA\<lparr>ebx_reg := pC, ecx_reg := 8, edx_reg := 0\<rparr>"

lemma apart_sample: "apart 0x200000 0x200100 8"
  unfolding apart_def
proof (intro allI impI)
  fix i :: nat assume "i < 8"
  from below_8 [OF this] show "8 \<le> unat (0x200000 + of_nat i - 0x200100 :: u32)"
    by (elim below_cases) simp_all
qed

lemma caller_sel [simp]:
  "kview caller = kview tA" "ebx_reg caller = pC" "ecx_reg caller = 8" "edx_reg caller = 0"
  "ds_reg caller = 8" "interrupts caller = 0"
  by (simp_all add: caller_def sample_tss_defs kview_def sview_def enqueued_def)

lemma sample_call_sel [simp]:
  "tsss (sample_call t) = sample_tsss(pA \<mapsto> t)" "curptr (sample_call t) = pA"
  "mem (sample_call t) = sample_mem" "pproctab (sample_call t) = [pA, pB, pC, pD]"
  by (simp_all add: sample_call_def)

text \<open>
  C10: a send to a process that waits for it (or for anybody) copies the bytes of the sender's
  buffer into the receiver's, as many as the smaller of the two sizes says; both are told that
  size and the result OK, the receiver is ready and queued again, and the caller goes on.
\<close>

theorem send_delivers:
  assumes "ready_to_call s qs L" and "tsss s (curptr s) = Some t"
    and "ebx_reg t \<in> set (pproctab s)" and "tsss s (ebx_reg t) = Some b"
    and "validate_data_area t (mem s) (edx_reg t) (ecx_reg t) = 0"
    and "tss_state b = RECEIVING" and "receivingFrom b = ANYPROC \<or> receivingFrom b = curptr s"
    and "apart (buffer_of (mem s) t) (buffer_of (mem s) b) (unat (message_length t b))"
  shows "\<exists>s'. syscall_send s = Some s' \<and> curptr s' = curptr s \<and>
    mem s' = blit (buffer_of (mem s) t) (buffer_of (mem s) b) (unat (message_length t b)) (mem s) \<and>
    (\<forall>p \<in> {curptr s, ebx_reg t}. fld eax_reg s' p = message_length t b \<and> fld esi_reg s' p = OK) \<and>
    fld tss_state s' (ebx_reg t) = 0 \<and> fld enqueued s' (ebx_reg t)"
  by (rule syscall_send_delivers [OF assms])

theorem send_delivers_witness:
  "\<exists>s'. syscall_send (sample_call caller) = Some s' \<and>
     mem s' = blit 0x200000 0x200100 8 sample_mem \<and> fld eax_reg s' pC = 8 \<and> fld tss_state s' pC = 0"
proof -
  let ?s = "sample_call caller"
  have v: "validate_data_area caller (mem ?s) (edx_reg caller) (ecx_reg caller) = 0"
    by (simp add: validate_data_area_def sample_segment)
  have b: "buffer_of sample_mem caller = 0x200000" "buffer_of sample_mem tC = 0x200100"
    "message_length caller tC = 8"
    by (simp_all add: buffer_of_def segment_base_def message_length_def sample_tss_defs sample_segment)
  show ?thesis
    using send_delivers [OF sample_call_ready [OF caller_sel(1)], of caller tC] v b apart_sample
    by (auto simp: tC_def blank_tss_def RECEIVING_def)
qed

text \<open>
  C11: a send to a process that is not waiting for the caller appends the caller to the chain of
  the receiver's senders and takes it out of the run queue; the processor goes to another queued
  process when there is one.
\<close>

theorem send_blocks:
  assumes "ready_to_call s qs L" and "tsss s (curptr s) = Some t"
    and "ebx_reg t \<in> set (pproctab s)" and "validate_data_area t (mem s) (edx_reg t) (ecx_reg t) = 0"
    and "fld tss_state s (ebx_reg t) \<noteq> RECEIVING \<or> fld receivingFrom s (ebx_reg t) \<notin> {ANYPROC, curptr s}"
  shows "\<exists>s'. syscall_send s = Some s' \<and>
    kinv_g {} s' (remove1 (curptr s) qs) (L(Senders (ebx_reg t) := L (Senders (ebx_reg t)) @ [curptr s])) \<and>
    (if qs \<noteq> [curptr s] then curptr s' = nextptr s' \<and> nextptr s' \<in> set (remove1 (curptr s) qs)
     else curptr s' = curptr s \<and> nextptr s' = NULL)"
  by (rule syscall_send_blocks [OF assms])

theorem send_blocks_witness:
  "\<exists>s'. syscall_send (sample_call (caller\<lparr>ebx_reg := pB\<rparr>)) = Some s' \<and>
     kinv_g {} s' [pB] (\<lambda>i. if i = Senders pB then [pA] else []) \<and> curptr s' = pB"
proof -
  let ?t = "caller\<lparr>ebx_reg := pB\<rparr>"
  have k: "kview ?t = kview tA" by simp
  have "validate_data_area ?t (mem (sample_call ?t)) (edx_reg ?t) (ecx_reg ?t) = 0"
    by (simp add: validate_data_area_def sample_segment)
  then show ?thesis
    using send_blocks [OF sample_call_ready [OF k], of ?t]
    by (auto simp: fld_def sample_tss_defs RECEIVING_def fun_upd_def)
qed

text \<open>
  C12: a receive that finds a waiting sender (the one it asks for, or for anybody the one that
  has waited longest) takes its message: the bytes are copied, both are told the size and the
  result OK, the sender leaves the chain, the others keep their order, and it is queued again.
\<close>

theorem receive_takes_sender:
  assumes "ready_to_call s qs L" and "tsss s (curptr s) = Some t"
    and "validate_data_area t (mem s) (edx_reg t) (ecx_reg t) = 0" and "interrupts t = 0"
    and "p \<in> set (L (Senders (curptr s)))"
    and "ebx_reg t = p \<or> ebx_reg t = ANYPROC \<and> hd (L (Senders (curptr s))) = p"
    and "tsss s p = Some a"
    and "apart (buffer_of (mem s) a) (buffer_of (mem s) t) (unat (message_length a t))"
  shows "\<exists>s' qs'. syscall_receive s = Some s' \<and> curptr s' = curptr s \<and>
    kinv_g {} s' qs' (L(Senders (curptr s) := remove1 p (L (Senders (curptr s))))) \<and>
    set qs' = insert p (set qs) \<and>
    mem s' = blit (buffer_of (mem s) a) (buffer_of (mem s) t) (unat (message_length a t)) (mem s) \<and>
    (\<forall>q \<in> {curptr s, p}. fld eax_reg s' q = message_length a t \<and> fld esi_reg s' q = OK)"
  by (rule syscall_receive_takes [OF assms])

theorem receive_takes_sender_witness:
  "\<exists>s' qs'. syscall_receive waiting = Some s' \<and> kinv_g {} s' qs' (\<lambda>_. []) \<and> set qs' = {pA, pB} \<and>
     mem s' = blit 0x200000 0x200100 8 sample_mem \<and> fld eax_reg s' pB = 8"
proof -
  have v: "validate_data_area wB (mem waiting) (edx_reg wB) (ecx_reg wB) = 0"
    by (simp add: validate_data_area_def sample_segment waiting_tss_defs)
  have b: "buffer_of sample_mem wA = 0x200000" "buffer_of sample_mem wB = 0x200100"
    "message_length wA wB = 8" "interrupts wB = 0" "ebx_reg wB = NULL"
    by (simp_all add: buffer_of_def segment_base_def message_length_def waiting_tss_defs sample_segment)
  have e: "(\<lambda>_. [])(Senders pB := []) = (\<lambda>_. [])" by auto
  show ?thesis
    using receive_takes_sender [OF waiting_ready, of wB pA wA] v b apart_sample
    by (auto simp: waiting_chains_def e)
qed

text \<open>
  C13: when a process ends, every process that waited to send to it is queued again with the
  result PROCESSDIED, nobody waits on it any more, it is out of the queue and its slot is empty;
  all other chains stay.
\<close>

theorem exit_frees_senders:
  assumes "ready_to_call s qs L"
  shows "\<exists>s' qs'. syscall_exit s = Some s' \<and> ok_post s s' \<and>
    kinv_g {} s' qs' (L(Senders (curptr s) := [])) \<and>
    set qs' = set (L (Senders (curptr s))) \<union> set qs - {curptr s} \<and>
    fld tss_state s' (curptr s) = EMPTY \<and>
    (\<forall>p. fld esi_reg s' p = (if p \<in> set (L (Senders (curptr s))) then PROCESSDIED else fld esi_reg s p)) \<and>
    irqs s' = irqs (release_irqs_taken (curptr s) s)"
  by (rule syscall_exit_full [OF assms])

theorem exit_frees_senders_witness:
  "\<exists>s' qs'. syscall_exit waiting = Some s' \<and> kinv_g {} s' qs' (\<lambda>_. []) \<and> set qs' = {pA} \<and>
     fld tss_state s' pB = EMPTY \<and> fld esi_reg s' pA = PROCESSDIED"
proof -
  have e: "(\<lambda>_. [])(Senders pB := []) = (\<lambda>_. [])" by auto
  show ?thesis
    using exit_frees_senders [OF waiting_ready] by (auto simp: waiting_chains_def e)
qed

text \<open>
  C18: an interrupt whose owner is waiting for a message wakes it up: it is ready and queued, and
  its result is the word with just the interrupt's bit.
\<close>

theorem interrupt_wakes_receiver:
  assumes "kinv_g {} s qs L" and "irqs s ! n \<in> set (pproctab s)"
    and "fld tss_state s (irqs s ! n) = RECEIVING"
  shows "\<exists>s' qs'. notify_irq n s = Some s' \<and> kinv_g {} s' qs' L \<and> set qs' = insert (irqs s ! n) (set qs) \<and>
    fld tss_state s' (irqs s ! n) = 0 \<and> fld esi_reg s' (irqs s ! n) = ucast (irq_bit n) \<and>
    fld eax_reg s' (irqs s ! n) = 0 \<and> fld interrupts s' = fld interrupts s"
  by (rule notify_irq_wakes [OF assms])

theorem interrupt_wakes_receiver_witness:
  "\<exists>s' qs'. notify_irq 1 sample = Some s' \<and> kinv_g {} s' qs' (\<lambda>_. []) \<and> set qs' = {pC, pA, pB} \<and>
     fld esi_reg s' pC = 2"
  using interrupt_wakes_receiver [OF sample_kinv, of 1]
  by (auto simp: fld_def sample_tss_defs RECEIVING_def irq_bit_def)



text \<open>
  C36: the check of a feature argument returns, and it accepts exactly the 32 words that have one
  bit set.  The feature table is shorter than that: it has the four entries of \<open>sizeof(uint32_t)\<close>,
  so that an accepted feature from bit 4 on indexes beyond its end.
\<close>

theorem feature_beyond_table:
  assumes "length (featureTable s) = 4"
  shows "check_feature f = Some (if \<exists>n < 32. f = 2 ^ n then 0 else - 1) \<and>
    (\<forall>n < 32. (feature_slot (2 ^ n) s = None) = (4 \<le> n))"
  using assms check_feature_eq [of f] feature_slot_single [of _ s] by auto

theorem feature_beyond_table_witness:
  "check_feature 16 = Some 0 \<and> feature_slot 16 sample = None"
proof -
  have ft: "length (featureTable sample) = 4" by (simp add: sample_def)
  note f = feature_beyond_table [OF ft, of "2 ^ 4"]
  have "\<exists>n < 32. (2 ^ 4 :: u32) = 2 ^ n" by (rule exI [of _ 4]) (intro conjI refl, simp)
  then have "check_feature (2 ^ 4) = Some 0" using f by presburger
  moreover have "feature_slot (2 ^ 4) sample = None" using conjunct2 [OF f] by (simp del: power_numeral)
  ultimately show ?thesis by simp
qed

text \<open>
  A data area passes the check exactly when its end, computed modulo \<open>2 ^ 32\<close>, is within the
  limit of the data segment.  So an area that does not run over the end of the address space lies
  inside the segment, and one that does passes by its wrapped end, however far it reaches.
\<close>

theorem data_area_check:
  "validate_data_area t m addr bytes = 0 \<longleftrightarrow>
    (unat addr + unat bytes) mod 2 ^ 32 \<le> unat (get_limit m (ucast (ds_reg t) AND 0xfff8))"
  by (simp add: validate_data_area_def Let_def word_less_nat_alt not_less unat_word_ariths)

end
