(* ===== verification/MK_Access_Props.thy ===== *)
theory MK_Access_Props
  imports MK_Sample MK_System
begin

text \<open>
  The properties of access to ports and interrupts and of the clock, each with its instance on
  the sample machine.
\<close>




text \<open>
  A claim of a port succeeds exactly when nobody else owns it; then the caller owns it and no
  other port changes hands.  A refused claim changes nothing but the caller's result.
\<close>

theorem claim_port_outcome:
  assumes "tsss s (curptr s) = Some t"
  shows "\<exists>s'. syscall_claim_port s = Some s' \<and>
    (if port_accessers s (ebx_reg t AND 0xffff) \<in> {NULL, curptr s}
     then s' = s\<lparr>port_accessers := (port_accessers s)(ebx_reg t AND 0xffff := curptr s)\<rparr>
     else s' = s\<lparr>tsss := (tsss s)(curptr s \<mapsto> t\<lparr>esi_reg := UNAVAILABLE\<rparr>)\<rparr>)"
  using assms by (auto simp: syscall_claim_port_def Let_def set_err_def tss_upd_def)

theorem claim_port_outcome_witness:
  "\<exists>s'. syscall_claim_port (sample_call (tA\<lparr>ebx_reg := 0x70\<rparr>)) = Some s' \<and> port_accessers s' 0x70 = pA"
  using claim_port_outcome [of "sample_call (tA\<lparr>ebx_reg := 0x70\<rparr>)" "tA\<lparr>ebx_reg := 0x70\<rparr>"]
  by (auto simp: sample_call_def)

text \<open>
  Once a port has an owner it keeps that owner in every state the machine can reach, also
  after the owner has ended.
\<close>

theorem port_owner_is_permanent:
  assumes "reachable dev s s'" and "port_accessers s q \<noteq> NULL"
  shows "port_accessers s' q = port_accessers s q"
  by (rule reachable_port [OF assms])

theorem port_owner_is_permanent_witness:
  "\<exists>s'. hw_intrrpt (\<lambda>_ _. 0) 1 sample = Some s' \<and> port_accessers s' 0x60 = pA"
proof -
  have ok: "interrupt_ok 1 sample" by (simp add: interrupt_ok_def)
  obtain s' where s': "hw_intrrpt (\<lambda>_ _. 0) 1 sample = Some s'"
    using hw_intrrpt_inv [OF sample_kernel_inv ok] by blast
  have "reachable (\<lambda>_ _. 0) sample s'"
    by (rule reachable.step [OF reachable.refl kstep.interrupt [OF ok s']])
  from port_owner_is_permanent [OF this, of "0x60"] s' show ?thesis by simp
qed

text \<open>
  A request for an interrupt is refused with INVALIDIRQ for the clock, the system call
  interrupt and numbers above 15, with IRQINUSE when another process owns it, and succeeds
  otherwise; only then the caller becomes the owner, of that interrupt alone.
\<close>

theorem request_irq_outcome:
  assumes "tsss s (curptr s) = Some t" and "length (irqs s) = 16"
  shows "syscall_request_irq s =
    (if ebx_reg t = 0 \<or> ebx_reg t = 2 \<or> 15 < ebx_reg t then set_err (curptr s) INVALIDIRQ s
     else if irqs s ! unat (ebx_reg t) \<notin> {NULL, curptr s} then set_err (curptr s) IRQINUSE s
     else set_err (curptr s) OK (s\<lparr>irqs := (irqs s)[unat (ebx_reg t) := curptr s]\<rparr>))"
  using request_irq_cases [OF assms] by (auto simp: irq_number_ok_def)

theorem request_irq_outcome_witness:
  "syscall_request_irq (sample_call (tA\<lparr>ebx_reg := 1\<rparr>)) = set_err pA IRQINUSE (sample_call (tA\<lparr>ebx_reg := 1\<rparr>))"
  using request_irq_outcome [of "sample_call (tA\<lparr>ebx_reg := 1\<rparr>)" "tA\<lparr>ebx_reg := 1\<rparr>"]
  by (simp add: sample_call_def)

text \<open>
  C20: the end of a process gives back its interrupts 0 to 14 and leaves those of others alone;
  interrupt 15 stays with the dead process.
\<close>

theorem exit_gives_back_irqs:
  assumes "ready_to_call s qs L"
  shows "\<exists>s'. syscall_exit s = Some s' \<and> irqs s' ! 15 = irqs s ! 15 \<and>
    (\<forall>i < 15. irqs s' ! i = (if irqs s ! i = curptr s then NULL else irqs s ! i))"
proof -
  have len: "length (irqs s) = 16"
    using assms by (simp add: ready_to_call_def kinv_g_def tables_inv_def)
  then have "irqs (release_irqs_taken (curptr s) s) ! 15 = irqs s ! 15"
    "\<forall>i < 15. irqs (release_irqs_taken (curptr s) s) ! i = (if irqs s ! i = curptr s then NULL else irqs s ! i)"
    by (simp_all add: release_irqs_taken_eq nth_append)
  then show ?thesis using syscall_exit_full [OF assms] by metis
qed

theorem exit_gives_back_irqs_witness:
  "\<exists>s'. syscall_exit (sample\<lparr>irqs := (irqs sample)[15 := pA]\<rparr>) = Some s' \<and> irqs s' ! 14 = NULL \<and> irqs s' ! 15 = pA"
proof -
  have "kinv_g {} (sample\<lparr>irqs := (irqs sample)[15 := pA]\<rparr>) [pA, pB] (\<lambda>_. [])"
    by (rule kinv_g_irqs [OF sample_kinv]) simp_all
  then have "ready_to_call (sample\<lparr>irqs := (irqs sample)[15 := pA]\<rparr>) [pA, pB] (\<lambda>_. [])"
    by (simp add: ready_to_call_def)
  from exit_gives_back_irqs [OF this] obtain s' where
    "syscall_exit (sample\<lparr>irqs := (irqs sample)[15 := pA]\<rparr>) = Some s'" "irqs s' ! 15 = pA"
    "irqs s' ! 14 = NULL" by auto
  then show ?thesis by blast
qed

text \<open>
  C21: the clock stays a clock time, and over any run it advances by one second for every clock
  interrupt and by nothing else (it counts modulo 2^32 hours).
\<close>

theorem clock_counts_ticks:
  assumes "ticking dev s k s'" and "clock_ok s"
  shows "clock_ok s' \<and> uptime_of s' mod (3600 * 2 ^ 32) = (uptime_of s + k) mod (3600 * 2 ^ 32)"
  by (rule ticking_uptime [OF assms])

theorem clock_counts_ticks_witness:
  "\<exists>s'. hw_intrrpt (\<lambda>_ _. 0) 0 sample = Some s' \<and> clock_ok s' \<and> uptime_of s' mod (3600 * 2 ^ 32) = 3600"
proof -
  have ok: "interrupt_ok 0 sample" by (simp add: interrupt_ok_def)
  obtain s' where s': "hw_intrrpt (\<lambda>_ _. 0) 0 sample = Some s'"
    using hw_intrrpt_inv [OF sample_kernel_inv ok] by blast
  have t: "ticking (\<lambda>_ _. 0) sample 1 s'"
    using ticking.interrupt [OF ticking.start ok s'] by simp
  have "uptime_of sample = 3599" "clock_ok sample" by (simp_all add: uptime_of_def clock_ok_def sample_def)
  with clock_counts_ticks [OF t] s' show ?thesis by simp
qed

end
