(* ===== verification/MK_Memory_Props.thy ===== *)
theory MK_Memory_Props
  imports MK_Sample
begin

text \<open>
  The properties of the descriptor table and its allocator, each with its instance on the sample
  machine.
\<close>

lemma sample_bitmap [simp]: "gdtBitmap sample = 0x8000" "bitmap_fits sample"
  by (simp_all add: sample_def bitmap_fits_def)

lemma sample_mem_zero: "0x1c800 \<le> unat a \<Longrightarrow> unat a < 0x200000 \<Longrightarrow> sample_mem a = 0"
  by (auto simp: sample_mem_def word_le_nat_alt word_less_nat_alt)

lemma bitmap_address: "n < 8192 \<Longrightarrow> unat (KERNEL_BASE + (0x8000 + of_nat (n div 8)) :: u32) = 0x1c800 + n div 8"
proof -
  assume "n < 8192"
  then have "n div 8 < 1024" by (intro less_mult_imp_div_less) simp
  then show ?thesis by (simp add: unat_word_ariths unat_of_nat take_bit_nat_eq_self)
qed

lemma sample_all_free: "n < 8192 \<Longrightarrow> \<not> bitmap_bit (mem sample) (gdtBitmap sample) n"
proof -
  assume n: "n < 8192"
  then have "n div 8 < 1024" by (intro less_mult_imp_div_less) simp
  then have "sample_mem (KERNEL_BASE + (0x8000 + of_nat (n div 8))) = 0"
    by (intro sample_mem_zero) (simp_all only: bitmap_address [OF n])
  then show ?thesis by (simp add: bitmap_bit_def)
qed

text \<open>
  C22: a segment descriptor written below the kernel's image reads back with the base and the limit
  it was written with (in units of 4 KiB when the granularity says so).
\<close>

theorem segment_descriptor_roundtrip:
  fixes b pr pv ty g :: u32
  assumes "bitmap_fits s" and "below_kernel n" and "l < 0x100000" and "g = 0 \<or> g = 1"
  shows "get_base (mem (write_segment_desc (selector n) l b pr pv ty g s)) (selector n) = b \<and>
    get_limit (mem (write_segment_desc (selector n) l b pr pv ty g s)) (selector n) =
      (if g = 1 then push_bit 12 l else l)"
  using write_segment_desc_same [OF assms] by simp

theorem segment_descriptor_roundtrip_witness:
  "get_base (mem (write_segment_desc (selector 9) 0x1234 0x300000 1 3 1 1 sample)) (selector 9) = 0x300000 \<and>
   get_limit (mem (write_segment_desc (selector 9) 0x1234 0x300000 1 3 1 1 sample)) (selector 9) = 0x1234000"
  using segment_descriptor_roundtrip [of sample 9 "0x1234" 1 "0x300000" 1 3 1]
  by (simp add: below_kernel_def)

text \<open>
  Writing a segment descriptor leaves the base and the limit of every other descriptor alone,
  so no process gains access to memory through the creation of another.
\<close>

theorem segment_descriptors_isolated:
  fixes l b pr pv ty g :: u32
  assumes "bitmap_fits s" and "below_kernel n" and "below_kernel k" and "k \<noteq> n"
  shows "get_base (mem (write_segment_desc (selector n) l b pr pv ty g s)) (selector k) = get_base (mem s) (selector k) \<and>
    get_limit (mem (write_segment_desc (selector n) l b pr pv ty g s)) (selector k) = get_limit (mem s) (selector k)"
  using write_segment_desc_other [OF assms] by simp

theorem segment_descriptors_isolated_witness:
  "get_limit (mem (write_segment_desc (selector 9) 0x1234 0x300000 1 3 1 1 sample)) (selector 1) = 0xffff"
proof -
  have "selector 1 = 8" by (simp add: selector_def)
  then show ?thesis
    using segment_descriptors_isolated [of sample 9 1 "0x1234" "0x300000" 1 3 1 1] sample_segment(1)
    by (simp add: below_kernel_def)
qed

text \<open>
  Descriptors taken one after the other are all different and were all free, as long as
  enough are free; none of them is the number that stands for "none left".
\<close>

theorem descriptors_fresh:
  assumes "n \<le> card {k. k < 8192 \<and> \<not> bitmap_bit (mem s) (gdtBitmap s) k}"
    and "allocate (\<lambda>s. unat (get_free_gdt_idx s) div 8) (\<lambda>i. unfree_gdt_idx (of_nat (8 * i))) n s = (is, s')"
  shows "length is = n \<and> distinct is \<and>
    (\<forall>i \<in> set is. i < 8192 \<and> \<not> bitmap_bit (mem s) (gdtBitmap s) i)"
proof -
  have "\<forall>i \<in> set is. i < 8192" by (rule gdtbits.allocate_succeeds [OF assms])
  with gdtbits.allocate_fresh [OF assms(2)] show ?thesis by blast
qed

theorem descriptors_fresh_witness:
  "\<exists>is s'. allocate (\<lambda>s. unat (get_free_gdt_idx s) div 8) (\<lambda>i. unfree_gdt_idx (of_nat (8 * i))) 7 sample = (is, s') \<and>
     length is = 7 \<and> distinct is"
proof -
  have "{k. k < 8192 \<and> \<not> bitmap_bit (mem sample) (gdtBitmap sample) k} = {..<8192}"
    using sample_all_free by auto
  then have c: "7 \<le> card {k. k < 8192 \<and> \<not> bitmap_bit (mem sample) (gdtBitmap sample) k}" by simp
  obtain "is" s' where a: "allocate (\<lambda>s. unat (get_free_gdt_idx s) div 8)
      (\<lambda>i. unfree_gdt_idx (of_nat (8 * i))) 7 sample = (is, s')" by fastforce
  from descriptors_fresh [OF c a] a show ?thesis by blast
qed

text \<open>
  C23: giving a descriptor back does not make it available: the routine that should clear its bit
  in the bitmap changes a byte at the beginning of the kernel's segment instead, and every bit of
  the bitmap stays as it was.
\<close>

theorem freeing_frees_nothing:
  assumes "1024 \<le> unat (gdtBitmap s)" and "bitmap_fits s" and "i < 8192" and "n < 8192"
  shows "bitmap_bit (mem (free_gdt_idx (selector i) s)) (gdtBitmap s) n = bitmap_bit (mem s) (gdtBitmap s) n"
proof -
  have "unat (gdtBitmap s) + 1024 \<le> 2 ^ 32"
    using assms(2) by (simp add: bitmap_fits_def word_le_nat_alt)
  then show ?thesis
    using bitmap_free_low [OF assms(1) _ _ assms(4)] unfree_selector [OF assms(3)] assms(3)
    by (simp add: free_gdt_idx_def)
qed

theorem freeing_frees_nothing_witness:
  "bitmap_bit (mem (free_gdt_idx (selector 9) (unfree_gdt_idx (selector 9) sample))) 0x8000 9"
proof -
  let ?s = "unfree_gdt_idx (selector 9) sample"
  have g: "gdtBitmap ?s = 0x8000" "bitmap_fits ?s" by (simp_all add: unfree_gdt_idx_def bitmap_fits_def)
  have "bitmap_bit (mem ?s) (gdtBitmap ?s) 9"
    using bitmap_bit_unfree [of 9 "0x8000" "selector 9 div 8"] unfree_selector [of 9]
    by (simp add: unfree_gdt_idx_def)
  then show ?thesis using freeing_frees_nothing [of ?s 9 9] g by simp
qed

text \<open>
  C24: the allocator hands out descriptors for which the memory map has no room: from number 1024 on
  a descriptor lies behind the end of the area reserved for the table (\<open>0x10700\<close> to \<open>0x126ff\<close>), and
  from number 2080 on inside the kernel's image.
\<close>

theorem descriptor_table_overrun:
  assumes "\<forall>k < m. bitmap_bit (mem s) (gdtBitmap s) k" and "m < 8192"
    and "\<not> bitmap_bit (mem s) (gdtBitmap s) m" and "a \<in> descriptor_bytes (get_free_gdt_idx s)"
  shows "(1024 \<le> m \<longrightarrow> 0x12700 \<le> unat a) \<and> (2080 \<le> m \<longrightarrow> 0x14800 \<le> unat a)"
proof -
  let ?r = "getFreeBitInBitfield (mem s) (gdtBitmap s) 8192"
  note spec = getFreeBit_spec [where m = "mem s" and bf = "gdtBitmap s" and bits = 8192]
  have "\<not> m < unat ?r" using spec(2) [of m] assms(3) by blast
  moreover have "\<not> unat ?r < m" using spec(3) assms(1,2) by auto
  ultimately have "unat ?r = m" by simp
  then have "?r = of_nat m" using assms(2) by (simp add: word_unat_eq_iff unat_of_nat take_bit_nat_eq_self)
  then have "get_free_gdt_idx s = selector m" by (simp add: get_free_gdt_idx_def selector_def mult.commute)
  then have "unat a div 8 = 0x10700 div 8 + m"
    using descriptor_address assms(2,4) by simp
  moreover have "8 * (unat a div 8) \<le> unat a" by (rule times_div_less_eq_dividend)
  ultimately show ?thesis by auto
qed

text \<open>The sample machine with the first 1024 descriptors taken.\<close>

definition crowded :: kstate where
  "crowded = sample\<lparr>mem := (\<lambda>a. if 0x1c800 \<le> unat a \<and> unat a < 0x1c880 then 0xff else sample_mem a)\<rparr>"

lemma crowded_bits: "n < 8192 \<Longrightarrow> bitmap_bit (mem crowded) (gdtBitmap crowded) n = (n < 1024)"
proof -
  assume n: "n < 8192"
  let ?a = "KERNEL_BASE + (0x8000 + of_nat (n div 8)) :: u32"
  have b: "(0x1c800 \<le> unat ?a \<and> unat ?a < 0x1c880) = (n div 8 < 128)"
    unfolding bitmap_address [OF n] by simp
  have "n div 8 < 1024" using n by (intro less_mult_imp_div_less) simp
  then have "sample_mem ?a = 0"
    by (intro sample_mem_zero) (simp_all only: bitmap_address [OF n])
  moreover have "bit (0xff :: u8) (n mod 8)"
  proof -
    have "(0xff :: u8) = - 1" by simp
    then show ?thesis by (simp only: bit_minus_1_iff) (simp add: possible_bit_def)
  qed
  moreover have "(n div 8 < 128) = (n < 1024)" by presburger
  ultimately show ?thesis using b by (simp add: bitmap_bit_def crowded_def)
qed

theorem descriptor_table_overrun_witness:
  "\<exists>a \<in> descriptor_bytes (get_free_gdt_idx crowded). 0x12700 \<le> unat a"
proof -
  let ?a = "GDT_BASE + get_free_gdt_idx crowded"
  have "?a \<in> descriptor_bytes (get_free_gdt_idx crowded)" by (simp add: descriptor_bytes_def)
  then show ?thesis using descriptor_table_overrun [of 1024 crowded ?a] crowded_bits by auto
qed

end
