(* ===== verification/MK_Usrlib.thy ===== *)
theory MK_Usrlib
  imports MK_Memory
begin

text \<open>
  The user library \<^verbatim>\<open>usrlib/utilities.c\<close>: strings, number formatting, the buffered
  formatted output \<open>outf\<close> and the memory copy.

  A \<open>char\<close> array is a list of bytes.  Reading or writing outside of it is the value \<open>None\<close>.
  \<open>memcpy\<close> follows raw pointers and works on the byte memory.
\<close>

section \<open>Strings in buffers\<close>

abbreviation (input) chr :: "char \<Rightarrow> u8" where "chr c \<equiv> of_char c"

definition bytes_of :: "string \<Rightarrow> u8 list" where
  "bytes_of = map of_char"

definition get_byte :: "u8 list \<Rightarrow> nat \<Rightarrow> u8 option" where
  "get_byte b i = (if i < length b then Some (b ! i) else None)"

definition put_byte :: "nat \<Rightarrow> u8 \<Rightarrow> u8 list \<Rightarrow> u8 list option" where
  "put_byte i v b = (if i < length b then Some (b[i := v]) else None)"

text \<open>The C string a buffer holds: its bytes before the first zero.\<close>

definition cstr :: "u8 list \<Rightarrow> u8 list" where
  "cstr = takeWhile (\<lambda>c. c \<noteq> 0)"

definition is_cstr :: "u8 list \<Rightarrow> bool" where
  "is_cstr b \<longleftrightarrow> 0 \<in> set b"

partial_function (option) strlen_loop :: "u8 list \<Rightarrow> nat \<Rightarrow> u32 \<Rightarrow> u32 option" where
  "strlen_loop me cur result = do {
     c \<leftarrow> get_byte me cur;
     if c \<noteq> 0 then strlen_loop me (cur + 1) (result + 1) else Some result
   }"

definition strlen :: "u8 list \<Rightarrow> u32 option" where
  "strlen me = strlen_loop me 0 0"

text \<open>The argument \<open>num\<close> is a signed number; here it is its value, and it is not negative.\<close>

function strncpy_loop :: "nat \<Rightarrow> nat \<Rightarrow> u8 list \<Rightarrow> u8 list \<Rightarrow> u8 list option" where
  "strncpy_loop num i src dst =
     (if i < num then do {
        c \<leftarrow> get_byte src i;
        dst \<leftarrow> put_byte i c dst;
        if c = 0 then Some dst else strncpy_loop num (i + 1) src dst
      }
      else Some dst)"
  by pat_completeness auto

termination strncpy_loop
  by (relation "measure (\<lambda>(num, i, src, dst). num - i)") auto

declare strncpy_loop.simps [simp del]

definition strncpy :: "u8 list \<Rightarrow> u8 list \<Rightarrow> nat \<Rightarrow> u8 list option" where
  "strncpy dst src num = do {
     dst \<leftarrow> strncpy_loop num 0 src dst;
     if num = 0 then None else put_byte (num - 1) 0 dst
   }"

partial_function (option) streq_loop :: "u8 list \<Rightarrow> u8 list \<Rightarrow> nat \<Rightarrow> bool option" where
  "streq_loop a b i = do {
     x \<leftarrow> get_byte a i;
     y \<leftarrow> get_byte b i;
     if x \<noteq> y then Some False
     else if x = 0 then Some True
     else streq_loop a b (i + 1)
   }"

definition streq :: "u8 list \<Rightarrow> u8 list \<Rightarrow> bool option" where
  "streq a b = streq_loop a b 0"

section \<open>Numbers as text\<close>

fun zero_fill :: "nat \<Rightarrow> nat \<Rightarrow> u8 list \<Rightarrow> u8 list option" where
  "zero_fill i 0 buf = Some buf"
| "zero_fill i (Suc n) buf = do { buf \<leftarrow> put_byte i 0 buf; zero_fill (i + 1) n buf }"

definition hex_digit :: "u32 \<Rightarrow> u8" where
  "hex_digit val = (if val \<le> 9 then chr CHR ''0'' + ucast val else chr CHR ''A'' + ucast val - 10)"

function hex_loop :: "u32 \<Rightarrow> u32 \<Rightarrow> u8 \<Rightarrow> bool \<Rightarrow> nat \<Rightarrow> u8 list \<Rightarrow> u8 list option" where
  "hex_loop what bitmask shift first idx buf =
     (if 0 < bitmask then
        let val = bitmask AND what
        in if val = 0 \<and> bitmask \<noteq> 0xf \<and> \<not> first
           then hex_loop what (drop_bit 4 bitmask) (shift - 1) first idx buf
           else do {
             buf \<leftarrow> put_byte idx (hex_digit (drop_bit (unat shift * 4) val)) buf;
             hex_loop what (drop_bit 4 bitmask) (shift - 1) True (idx + 1) buf
           }
      else Some buf)"
  by pat_completeness auto

lemma drop_bit_less: "0 < (w :: u32) \<Longrightarrow> 0 < n \<Longrightarrow> unat (drop_bit n w) < unat w"
proof -
  assume w: "0 < w" and n: "0 < n"
  have "unat (drop_bit n w) = drop_bit n (unat w)"
    by (rule bit_eqI) (auto simp: bit_unsigned_iff bit_drop_bit_eq possible_bit_def dest: bit_imp_le_length)
  then have "unat (drop_bit n w) = unat w div 2 ^ n" by (simp only: drop_bit_eq_div)
  moreover have "0 < unat w" using w by (simp add: unat_gt_0)
  moreover have "(1 :: nat) < 2 ^ n" using n by (intro one_less_power) simp_all
  ultimately show ?thesis using div_less_dividend by simp
qed

termination hex_loop
  by (relation "measure (\<lambda>(what, bitmask, shift, first, idx, buf). unat bitmask)")
    (simp_all add: drop_bit_less)

declare hex_loop.simps [simp del]

definition hex2String :: "u32 \<Rightarrow> u8 list \<Rightarrow> nat \<Rightarrow> u8 list option" where
  "hex2String what buf buflen = do {
     buf \<leftarrow> put_byte 0 (chr CHR ''0'') buf;
     buf \<leftarrow> put_byte 1 (chr CHR ''x'') buf;
     buf \<leftarrow> zero_fill 2 (buflen - 2) buf;
     hex_loop what 0xf0000000 7 False 2 buf
   }"

text \<open>\<open>buf\<close> is the address \<open>off\<close> inside a buffer.\<close>

function uint_loop :: "u32 \<Rightarrow> u32 \<Rightarrow> bool \<Rightarrow> nat \<Rightarrow> u8 list \<Rightarrow> u8 list option" where
  "uint_loop what divider first idx buf =
     (if 0 < divider then
        let val = what div divider
        in if val = 0 \<and> divider \<noteq> 1 \<and> \<not> first
           then uint_loop (what - val * divider) (divider div 10) first idx buf
           else do {
             buf \<leftarrow> put_byte idx (chr CHR ''0'' + ucast val) buf;
             uint_loop (what - val * divider) (divider div 10) True (idx + 1) buf
           }
      else Some buf)"
  by pat_completeness auto

termination uint_loop
  by (relation "measure (\<lambda>(what, divider, first, idx, buf). unat divider)")
    (simp_all add: unat_div unat_gt_0 word_gt_0)

declare uint_loop.simps [simp del]

definition uint2String :: "u32 \<Rightarrow> nat \<Rightarrow> u8 list \<Rightarrow> nat \<Rightarrow> u8 list option" where
  "uint2String what off buf buflen = do {
     buf \<leftarrow> zero_fill off buflen buf;
     uint_loop what 1000000000 False off buf
   }"

definition int2String :: "u32 \<Rightarrow> u8 list \<Rightarrow> nat \<Rightarrow> u8 list option" where
  "int2String what buf buflen = do {
     buf \<leftarrow> zero_fill 0 buflen buf;
     if what <s 0 then do {
       buf \<leftarrow> put_byte 0 (chr CHR ''-'') buf;
       uint2String (- what) 1 buf (buflen - 1)
     }
     else uint2String what 0 buf (buflen - 1)
   }"

section \<open>Formatted output\<close>

text \<open>
  \<open>send w m block\<close> is the system call \<open>call_syscall_send_by_feature\<close> that sends the bytes \<open>m\<close> to
  the terminal: it gives the error code and the next state of the world.  The error code goes
  where the caller's pointer points; a null pointer is the address 0 of the process's segment,
  which takes it as well.  The arguments behind the format are a list of words.
\<close>

type_synonym 'w sender = "'w \<Rightarrow> u8 list \<Rightarrow> bool \<Rightarrow> u32 \<times> 'w"

abbreviation (input) MAX_MSG_SIZE :: nat where "MAX_MSG_SIZE \<equiv> 1921"

definition hasFailed :: "u32 \<Rightarrow> bool" where
  "hasFailed x \<longleftrightarrow> x <s 0"

definition conversion :: "u8 list \<Rightarrow> nat \<Rightarrow> u8 option option" where
  "conversion fmt cur = do {
     c \<leftarrow> get_byte fmt cur;
     if c \<noteq> chr CHR ''%'' then Some None
     else do {
       n \<leftarrow> get_byte fmt (cur + 1);
       Some (if n = chr CHR ''d'' \<or> n = chr CHR ''u'' \<or> n = chr CHR ''x'' then Some n else None)
     }
   }"

definition convert :: "u8 \<Rightarrow> u32 \<Rightarrow> u8 list option" where
  "convert c a =
     (let buf = replicate 15 0
      in if c = chr CHR ''d'' then int2String a buf 15
         else if c = chr CHR ''u'' then uint2String a 0 buf 15
         else hex2String a buf 15)"

fun put_bytes :: "nat \<Rightarrow> u8 list \<Rightarrow> nat \<Rightarrow> u8 list \<Rightarrow> u8 list option" where
  "put_bytes idx buf 0 msg = Some msg"
| "put_bytes idx buf (Suc n) msg =
     (case buf of [] \<Rightarrow> None
      | b # buf \<Rightarrow> do { msg \<leftarrow> put_byte idx b msg; put_bytes (idx + 1) buf n msg })"

definition flush_msg :: "'w sender \<Rightarrow> nat \<Rightarrow> u8 list \<Rightarrow> 'w \<Rightarrow> (u32 \<times> 'w \<times> u8 list) option" where
  "flush_msg send idx msg w = do {
     msg \<leftarrow> put_byte idx 0 msg;
     let (e, w) = send w (take (idx + 1) msg) True;
     Some (e, w, msg)
   }"

partial_function (option) outf_loop ::
    "'w sender \<Rightarrow> bool \<Rightarrow> u8 list \<Rightarrow> nat \<Rightarrow> nat \<Rightarrow> u32 list \<Rightarrow> u8 list \<Rightarrow> 'w \<Rightarrow> (u32 \<times> 'w) option" where
  "outf_loop send block fmt cur idx vl msg w = do {
     conv \<leftarrow> conversion fmt cur;
     case conv of
       None \<Rightarrow> do {
         c \<leftarrow> get_byte fmt cur;
         msg \<leftarrow> put_byte idx c msg;
         if c = 0 then Some (send w (take (idx + 1) msg) block)
         else if MAX_MSG_SIZE - 1 \<le> idx + 1 then do {
           c' \<leftarrow> get_byte fmt (cur + 1);
           if c' = 0 then outf_loop send block fmt (cur + 1) (idx + 1) vl msg w
           else do {
             (e, w, msg) \<leftarrow> flush_msg send (idx + 1) msg w;
             if hasFailed e then Some (e, w)
             else outf_loop send block fmt (cur + 1) 0 vl msg w
           }
         }
         else outf_loop send block fmt (cur + 1) (idx + 1) vl msg w
       }
     | Some n \<Rightarrow> (case vl of [] \<Rightarrow> None | a # vl \<Rightarrow> do {
         buf \<leftarrow> convert n a;
         len \<leftarrow> strlen buf;
         (e, w, msg, idx) \<leftarrow>
           (if of_nat (MAX_MSG_SIZE - idx) \<le> len then do {
              (e, w, msg) \<leftarrow> flush_msg send idx msg w; Some (e, w, msg, 0)
            } else Some (OK, w, msg, idx));
         if hasFailed e then Some (e, w)
         else do {
           msg \<leftarrow> put_bytes idx buf (unat len) msg;
           outf_loop send block fmt (cur + 2) (idx + unat len) vl msg w
         }
       })
   }"

text \<open>\<open>msg\<close> is what the array of that name holds when the function is entered.\<close>

definition outf :: "'w sender \<Rightarrow> u8 list \<Rightarrow> bool \<Rightarrow> u8 list \<Rightarrow> u32 list \<Rightarrow> 'w \<Rightarrow> (u32 \<times> 'w) option" where
  "outf send msg block fmt vl w = outf_loop send block fmt 0 0 vl msg w"

section \<open>Error texts\<close>

definition error_strings :: "string list" where
  "error_strings = [''OK'', ''unknown system call'', ''invalid buffer'', ''attempt to send to yourself'',
     ''would block'', ''no such feature'', ''no such irq'', ''irq already in use'', ''peer died'',
     ''no permissions for this operation'', ''requested resource unavailable'', ''feature busy'',
     ''attempt to read beyond end of device'', ''not an ATA device'']"

text \<open>The comparison of \<open>- errnum\<close> with the length of the table is one of unsigned words.\<close>

definition err2String :: "u32 \<Rightarrow> string" where
  "err2String errnum =
     (if 0 <s errnum \<or> of_nat (length error_strings) \<le> - errnum then ''impossible error''
      else error_strings ! unat (- errnum))"

section \<open>Copying memory\<close>

text \<open>
  The second and the third part of the copy write through \<open>dst_word\<close>, which is still null there:
  \<open>dst_word = (uint16_t * ) dst_word\<close>.  The last byte is copied in any case.
\<close>

function memcpy_dwords :: "u32 \<Rightarrow> u32 \<Rightarrow> u32 \<Rightarrow> memory \<Rightarrow> u32 \<times> u32 \<times> u32 \<times> memory" where
  "memcpy_dwords pending dst src m =
     (if 3 < pending then memcpy_dwords (pending - 4) (dst + 4) (src + 4) (wr32 dst (rd32 m src) m)
      else (pending, dst, src, m))"
  by pat_completeness auto

function memcpy_words :: "u32 \<Rightarrow> u32 \<Rightarrow> u32 \<Rightarrow> memory \<Rightarrow> u32 \<times> u32 \<times> memory" where
  "memcpy_words pending dst src m =
     (if 1 < pending then memcpy_words (pending - 2) (dst + 2) (src + 2) (wr16 dst (rd16 m src) m)
      else (dst, src, m))"
  by pat_completeness auto

lemma unat_sub_less: "(k :: u32) < n \<Longrightarrow> unat (n - (k + 1)) < unat n"
proof -
  assume "k < n"
  then have "k + 1 \<le> n" by (rule inc_le)
  moreover have "k + 1 \<noteq> 0" using \<open>k < n\<close> by (metis max_word_wrap not_less word_order.extremum)
  ultimately have "unat (n - (k + 1)) = unat n - unat (k + 1)" "0 < unat (k + 1)" "unat (k + 1) \<le> unat n"
    by (simp_all add: unat_sub unat_gt_0 word_le_nat_alt)
  then show ?thesis by linarith
qed

termination memcpy_dwords
  using unat_sub_less [of 3]
  by (relation "measure (\<lambda>(pending, dst, src, m). unat pending)") auto

termination memcpy_words
  using unat_sub_less [of 1]
  by (relation "measure (\<lambda>(pending, dst, src, m). unat pending)") auto

declare memcpy_dwords.simps [simp del] memcpy_words.simps [simp del]

definition memcpy :: "ptr \<Rightarrow> ptr \<Rightarrow> u32 \<Rightarrow> memory \<Rightarrow> memory" where
  "memcpy dst src num m =
     (let (pending, dst_dword, src_dword, m) = memcpy_dwords num dst src m;
          (dst_word, src_word, m) = memcpy_words pending NULL src_dword m
      in m(dst_word := m src_word))"

end
