(* ===== verification/MK_Text.thy ===== *)
theory MK_Text
  imports MK_Usrlib
begin

text \<open>
  What the string and number routines of the user library compute: each returns, stays inside
  its buffer, and agrees with a reference on lists.  \<open>outf_loop_eq\<close> is the conclusion for the
  formatted output.
\<close>

section \<open>Buffers\<close>

lemma put_byte_Some: "i < length b \<Longrightarrow> put_byte i v b = Some (b[i := v])"
  by (simp add: put_byte_def)

lemma get_byte_Some: "i < length b \<Longrightarrow> get_byte b i = Some (b ! i)"
  by (simp add: get_byte_def)

lemma zero_fill_Some:
  "i + n \<le> length b \<Longrightarrow> zero_fill i n b = Some (take i b @ replicate n 0 @ drop (i + n) b)"
proof (induction n arbitrary: i b)
  case (Suc n)
  then have "b[i := 0] = take i b @ 0 # drop (Suc i) b" by (simp add: upd_conv_take_nth_drop)
  with Suc show ?case by (simp add: put_byte_Some min_def add.commute)
qed simp

lemma cstr_nth: "j < length (cstr b) \<Longrightarrow> cstr b ! j = b ! j \<and> b ! j \<noteq> 0 \<and> j < length b"
  unfolding cstr_def using nth_mem [of j "takeWhile (\<lambda>c. c \<noteq> 0) b"]
  by (auto simp: takeWhile_nth dest: set_takeWhileD intro: less_le_trans [OF _ length_takeWhile_le])

lemma cstr_end: "is_cstr b \<Longrightarrow> length (cstr b) < length b \<and> b ! length (cstr b) = 0"
  unfolding cstr_def is_cstr_def
  using nth_length_takeWhile [of "\<lambda>c. c \<noteq> 0" b] takeWhile_eq_all_conv [of "\<lambda>c. c \<noteq> 0" b]
    length_takeWhile_le [of "\<lambda>c. c \<noteq> 0" b]
  by (metis le_neq_implies_less takeWhile_eq_take take_all_iff order_refl)

lemma cstr_eq_take:
  "n < length b \<Longrightarrow> b ! n = 0 \<Longrightarrow> (\<And>j. j < n \<Longrightarrow> b ! j \<noteq> 0) \<Longrightarrow> cstr b = take n b"
  unfolding cstr_def by (rule takeWhile_eq_take_P_nth) auto

section \<open>Strings\<close>

lemma strlen_loop_eq:
  assumes "is_cstr b" and "cur \<le> length (cstr b)"
  shows "strlen_loop b cur r = Some (r + of_nat (length (cstr b) - cur))"
  using assms
proof (induction "length (cstr b) - cur" arbitrary: cur r)
  case 0
  then have "cur = length (cstr b)" by simp
  then show ?case using cstr_end [OF 0(2)] by (subst strlen_loop.simps) (simp add: get_byte_def)
next
  case (Suc n)
  then have lt: "cur < length (cstr b)" by simp
  have "strlen_loop b (cur + 1) (r + 1) = Some (r + 1 + of_nat (length (cstr b) - (cur + 1)))"
    using Suc lt by (intro Suc.hyps(1)) simp_all
  moreover have "length (cstr b) - cur = Suc (length (cstr b) - (cur + 1))" using lt by simp
  ultimately show ?case
    using cstr_nth [OF lt] by (subst strlen_loop.simps) (simp add: get_byte_def)
qed

lemma strlen_eq: "is_cstr b \<Longrightarrow> strlen b = Some (of_nat (length (cstr b)))"
  by (simp add: strlen_def strlen_loop_eq)

lemma streq_loop_eq:
  assumes "is_cstr a" and "is_cstr b" and "i \<le> length (cstr a)" and "i \<le> length (cstr b)"
  shows "streq_loop a b i = Some (drop i (cstr a) = drop i (cstr b))"
  using assms
proof (induction "length (cstr a) - i" arbitrary: i)
  case 0
  then have i: "i = length (cstr a)" by simp
  then have a: "i < length a" "a ! i = 0" using cstr_end [OF 0(2)] by simp_all
  show ?case
  proof (cases "i = length (cstr b)")
    case True
    then show ?thesis using a cstr_end [OF 0(3)] i by (subst streq_loop.simps) (simp add: get_byte_def)
  next
    case False
    then have "i < length (cstr b)" using 0 by simp
    then show ?thesis using a cstr_nth [of i b] i by (subst streq_loop.simps) (simp add: get_byte_def)
  qed
next
  case (Suc n)
  then have i: "i < length (cstr a)" by simp
  note a = cstr_nth [OF i]
  show ?case
  proof (cases "i = length (cstr b)")
    case True
    then show ?thesis
      using a i cstr_end [OF Suc(4)] by (subst streq_loop.simps) (simp add: get_byte_def)
  next
    case False
    then have j: "i < length (cstr b)" using Suc by simp
    note b = cstr_nth [OF j]
    have "drop i (cstr a) = a ! i # drop (i + 1) (cstr a)" "drop i (cstr b) = b ! i # drop (i + 1) (cstr b)"
      using i j a b by (simp_all add: Cons_nth_drop_Suc [symmetric])
    moreover have "streq_loop a b (i + 1) = Some (drop (i + 1) (cstr a) = drop (i + 1) (cstr b))"
      using Suc i j by (intro Suc.hyps(1)) simp_all
    ultimately show ?thesis
      using a b by (subst streq_loop.simps) (simp add: get_byte_def)
  qed
qed

lemma streq_eq: "is_cstr a \<Longrightarrow> is_cstr b \<Longrightarrow> streq a b = Some (cstr a = cstr b)"
  by (simp add: streq_def streq_loop_eq)

lemma strncpy_loop_eq:
  assumes "num \<le> length dst" and "is_cstr src" and "i \<le> length (cstr src)"
  shows "\<exists>d. strncpy_loop num i src dst = Some d \<and> length d = length dst \<and>
    (\<forall>j < length dst. d ! j = (if i \<le> j \<and> j < num \<and> j \<le> length (cstr src) then src ! j else dst ! j))"
  using assms
proof (induction num i src dst rule: strncpy_loop.induct)
  case (1 num i src dst)
  show ?case
  proof (cases "i < num")
    case False
    then show ?thesis using "1.prems" by (subst strncpy_loop.simps) auto
  next
    case True
    note e = cstr_end [OF "1.prems"(2)]
    have l: "i < length src" "i < length dst" using True e "1.prems" by simp_all
    show ?thesis
    proof (cases "src ! i = 0")
      case True
      then have "i = length (cstr src)" using cstr_nth [of i src] "1.prems"(3) by fastforce
      then show ?thesis using True \<open>i < num\<close> l "1.prems"
        by (subst strncpy_loop.simps) (auto simp: get_byte_def put_byte_def nth_list_update)
    next
      case nz: False
      then have "i < length (cstr src)" using e "1.prems"(3) by (metis le_neq_implies_less)
      then obtain d where d: "strncpy_loop num (i + 1) src (dst[i := src ! i]) = Some d"
          "length d = length dst" "\<forall>j < length dst. d ! j = (if i + 1 \<le> j \<and> j < num \<and>
             j \<le> length (cstr src) then src ! j else dst[i := src ! i] ! j)"
        using "1.IH" [OF \<open>i < num\<close>, of "src ! i" "dst[i := src ! i]"] "1.prems" nz l
        by (auto simp: get_byte_def put_byte_def)
      moreover have "strncpy_loop num i src dst = strncpy_loop num (i + 1) src (dst[i := src ! i])"
        using \<open>i < num\<close> l nz by (subst strncpy_loop.simps) (simp add: get_byte_def put_byte_def)
      ultimately show ?thesis using \<open>i < num\<close> "1.prems"(3) l
        by (intro exI [of _ d]) (auto simp: nth_list_update)
    qed
  qed
qed

lemma strncpy_eq:
  assumes "0 < num" and "num \<le> length dst" and "is_cstr src"
  shows "\<exists>d. strncpy dst src num = Some d \<and> length d = length dst \<and>
    cstr d = take (num - 1) (cstr src) \<and> drop num d = drop num dst"
proof -
  obtain d where d: "strncpy_loop num 0 src dst = Some d" "length d = length dst"
      "\<forall>j < length dst. d ! j = (if j < num \<and> j \<le> length (cstr src) then src ! j else dst ! j)"
    using strncpy_loop_eq [OF assms(2,3), of 0] by auto
  let ?d = "d[num - 1 := 0]" and ?n = "min (num - 1) (length (cstr src))"
  note e = cstr_end [OF assms(3)]
  have "cstr ?d = take ?n ?d"
  proof (rule cstr_eq_take)
    show "?n < length ?d" using assms d(2) by simp
    show "?d ! ?n = 0"
    proof (cases "num - 1 \<le> length (cstr src)")
      case False
      then show ?thesis using assms d e by (auto simp: nth_list_update min_def)
    qed (use assms d(2) in \<open>simp add: min_def\<close>)
    show "?d ! j \<noteq> 0" if "j < ?n" for j
      using that assms d cstr_nth [of j src] by (auto simp: nth_list_update split: if_splits)
  qed
  also have "\<dots> = take (num - 1) (cstr src)"
    using assms d cstr_nth [of _ src] by (intro nth_equalityI) (auto simp: nth_list_update)
  finally have "cstr ?d = take (num - 1) (cstr src)" .
  moreover have "drop num ?d = drop num dst"
    using assms d by (intro nth_equalityI) auto
  ultimately show ?thesis
    using d(1,2) assms by (intro exI [of _ ?d]) (simp add: strncpy_def put_byte_def)
qed

section \<open>Numerals\<close>

text \<open>
  The reference: the numeral of \<open>n\<close> to the base \<open>b\<close> with the digits \<open>f\<close>, and the same with a
  fixed number of digits.
\<close>

function numeral_text :: "(nat \<Rightarrow> u8) \<Rightarrow> nat \<Rightarrow> nat \<Rightarrow> u8 list" where
  "numeral_text f b n = (if n < b \<or> b < 2 then [f n] else numeral_text f b (n div b) @ [f (n mod b)])"
  by pat_completeness auto

termination numeral_text
  by (relation "measure (\<lambda>(f, b, n). n)") auto

declare numeral_text.simps [simp del]

fun padded_text :: "(nat \<Rightarrow> u8) \<Rightarrow> nat \<Rightarrow> nat \<Rightarrow> nat \<Rightarrow> u8 list" where
  "padded_text f b 0 n = []"
| "padded_text f b (Suc k) n = f (n div b ^ k) # padded_text f b k (n mod b ^ k)"

lemma length_padded [simp]: "length (padded_text f b k n) = k"
  by (induction k arbitrary: n) simp_all

lemma padded_snoc:
  assumes "0 < b" and "n < b ^ Suc k"
  shows "padded_text f b (Suc k) n = padded_text f b k (n div b) @ [f (n mod b)]"
  using assms(2)
proof (induction k arbitrary: n)
  case 0
  then show ?case by simp
next
  case (Suc k)
  let ?p = "b ^ Suc k"
  have lt: "n mod ?p < ?p" using assms(1) by simp
  have "padded_text f b (Suc (Suc k)) n = f (n div ?p) # padded_text f b (Suc k) (n mod ?p)"
    by (rule padded_text.simps(2))
  also have "padded_text f b (Suc k) (n mod ?p) = padded_text f b k (n mod ?p div b) @ [f (n mod ?p mod b)]"
    by (rule Suc.IH [OF lt])
  also have "n mod ?p div b = n div b mod b ^ k"
    using mod_mult2_eq [of n b "b ^ k"] assms(1) by (simp add: power_commutes)
  also have "n mod ?p mod b = n mod b" by (simp add: mod_mod_cancel)
  also have "n div ?p = n div b div b ^ k" by (simp add: div_mult2_eq)
  finally show ?case by simp
qed

lemma numeral_padded:
  assumes "2 \<le> b" and "n < b ^ Suc k" and "k = 0 \<or> b ^ k \<le> n"
  shows "numeral_text f b n = padded_text f b (Suc k) n"
  using assms(2,3)
proof (induction k arbitrary: n)
  case 0
  then show ?case using assms(1) by (subst numeral_text.simps) simp
next
  case (Suc k)
  then have le: "b ^ Suc k \<le> n" by simp
  have "b \<le> b ^ Suc k" using assms(1) by simp
  then have nb: "\<not> (n < b \<or> b < 2)" using le assms(1) by linarith
  have "b ^ k \<le> n div b" using le assms(1) by (simp add: less_eq_div_iff_mult_less_eq mult.commute)
  moreover have "n div b < b ^ Suc k" using Suc.prems(1) assms(1) by (simp add: less_mult_imp_div_less mult.commute)
  ultimately have "numeral_text f b (n div b) = padded_text f b (Suc k) (n div b)"
    by (intro Suc.IH) simp_all
  then show ?case
    using nb padded_snoc [of b n "Suc k" f] Suc.prems(1) assms(1) by (subst numeral_text.simps) simp
qed

lemma length_numeral:
  "2 \<le> b \<Longrightarrow> n < b ^ k \<Longrightarrow> 0 < k \<Longrightarrow> length (numeral_text f b n) \<le> k"
proof (induction f b n arbitrary: k rule: numeral_text.induct)
  case (1 f b n)
  show ?case
  proof (cases "n < b \<or> b < 2")
    case False
    obtain j where k: "k = Suc j" using 1(4) by (cases k) simp_all
    have "0 < j" using 1(3) False k by (cases j) simp_all
    note j = k this
    have "n div b < b ^ j" using 1(3) j False by (simp add: less_mult_imp_div_less mult.commute)
    then show ?thesis using "1.IH" [OF False 1(2) _ j(2)] False j(1) by (subst numeral_text.simps) simp
  qed (use 1(4) in \<open>subst numeral_text.simps, simp\<close>)
qed

text \<open>Reading a numeral back.\<close>

definition numeral_value :: "(u8 \<Rightarrow> nat) \<Rightarrow> nat \<Rightarrow> u8 list \<Rightarrow> nat" where
  "numeral_value g b = foldl (\<lambda>n c. b * n + g c) 0"

lemma numeral_value_text:
  assumes "\<And>d. d < b \<Longrightarrow> g (f d) = d" and "2 \<le> b"
  shows "numeral_value g b (numeral_text f b n) = n"
proof (induction n rule: less_induct)
  case (less n)
  show ?case
  proof (cases "n < b")
    case True
    then show ?thesis using assms(1) by (subst numeral_text.simps) (simp add: numeral_value_def)
  next
    case False
    then have "n div b < n" using assms(2) by (intro div_less_dividend) simp_all
    from less.IH [OF this] show ?thesis
      using False assms by (subst numeral_text.simps) (simp add: numeral_value_def)
  qed
qed

lemma set_numeral: "2 \<le> b \<Longrightarrow> set (numeral_text f b n) \<subseteq> f ` {..<b}"
proof (induction n rule: less_induct)
  case (less n)
  show ?case
  proof (cases "n < b")
    case True
    then show ?thesis by (subst numeral_text.simps) auto
  next
    case False
    then have "n div b < n" using less.prems by (intro div_less_dividend) simp_all
    from less.IH [OF this less.prems] show ?thesis
      using False less.prems by (subst numeral_text.simps) auto
  qed
qed

definition dec_digit :: "nat \<Rightarrow> u8" where
  "dec_digit d = chr CHR ''0'' + of_nat d"

definition hexa_digit :: "nat \<Rightarrow> u8" where
  "hexa_digit d = (if d \<le> 9 then chr CHR ''0'' + of_nat d else chr CHR ''A'' + of_nat d - 10)"

definition dec_text :: "u32 \<Rightarrow> u8 list" where
  "dec_text w = numeral_text dec_digit 10 (unat w)"

definition hex_text :: "u32 \<Rightarrow> u8 list" where
  "hex_text w = numeral_text hexa_digit 16 (unat w)"

section \<open>The number loops\<close>

lemma put_next: "idx < length buf \<Longrightarrow> put_byte idx c buf = Some (take idx buf @ c # drop (idx + 1) buf)"
  by (simp add: put_byte_def upd_conv_take_nth_drop)

text \<open>\<open>overlay idx out buf\<close>: the buffer with \<open>out\<close> written from \<open>idx\<close> on.\<close>

definition overlay :: "nat \<Rightarrow> u8 list \<Rightarrow> u8 list \<Rightarrow> u8 list" where
  "overlay idx out buf = take idx buf @ out @ drop (idx + length out) buf"

lemma overlay_Nil [simp]: "overlay idx [] buf = buf"
  by (simp add: overlay_def)

lemma overlay_step:
  "idx < length buf \<Longrightarrow>
     overlay (idx + 1) out (take idx buf @ c # drop (idx + 1) buf) = overlay idx (c # out) buf"
  by (simp add: overlay_def ac_simps)

lemma ten_power: "k < 10 \<Longrightarrow> unat (10 ^ k :: u32) = 10 ^ k"
proof -
  assume "k < 10"
  then have "(10 :: nat) ^ k \<le> 10 ^ 9" by (intro power_increasing) simp_all
  then have "(10 :: nat) ^ k < 2 ^ 32" by simp
  moreover have "(10 ^ k :: u32) = of_nat (10 ^ k)" by simp
  ultimately show ?thesis by (simp only: unat_of_nat) (simp add: take_bit_nat_eq_self)
qed

lemma ten_power_div: "k < 10 \<Longrightarrow> (10 ^ k :: u32) div 10 = (if k = 0 then 0 else 10 ^ (k - 1))"
proof (cases k)
  case (Suc j)
  assume "k < 10"
  then show ?thesis using Suc ten_power [of k] ten_power [of j]
    by (simp add: word_unat_eq_iff unat_div)
qed simp

lemma dec_digit_eq: "unat val < 10 \<Longrightarrow> chr CHR ''0'' + ucast (val :: u32) = dec_digit (unat val)"
proof -
  have "(ucast val :: u8) = of_nat (unat val)" by simp
  then show ?thesis by (simp add: dec_digit_def)
qed

lemma uint_loop_emit:
  assumes "0 < d" and "\<not> (what div d = 0 \<and> d \<noteq> 1 \<and> \<not> first)"
    and "put_byte idx (chr CHR ''0'' + ucast (what div d)) buf = Some b"
  shows "uint_loop what d first idx buf = uint_loop (what - what div d * d) (d div 10) True (idx + 1) b"
  using assms by (subst uint_loop.simps) (auto simp: Let_def)

lemma uint_loop_eq:
  assumes "unat what < 10 ^ Suc k" and "k < 10" and "idx + Suc k \<le> length buf"
  shows "uint_loop what (10 ^ k) first idx buf =
    Some (overlay idx (if first then padded_text dec_digit 10 (Suc k) (unat what) else dec_text what) buf)"
  using assms
proof (induction k arbitrary: what first idx buf)
  case 0
  then have w: "unat what < 10" by simp
  then have "uint_loop what 1 first idx buf = Some (take idx buf @ dec_digit (unat what) # drop (idx + 1) buf)"
    using 0 put_next [of idx buf] dec_digit_eq [OF w]
    by (subst uint_loop.simps) (simp add: uint_loop.simps [of _ 0])
  moreover have "numeral_text dec_digit 10 (unat what) = [dec_digit (unat what)]"
    using w by (simp add: numeral_text.simps)
  ultimately show ?case by (simp add: dec_text_def overlay_def)
next
  case (Suc k)
  let ?p = "10 ^ Suc k :: nat" and ?d = "10 ^ Suc k :: u32"
  let ?r = "what - what div ?d * ?d"
  have d: "unat ?d = ?p" by (rule ten_power [OF Suc.prems(2)])
  have "1 < ?p" by (rule one_less_power) simp_all
  then have dpos: "0 < ?d" "?d \<noteq> 1" using d by (auto simp: word_gt_0 simp del: power_Suc)
  have nxt: "?d div 10 = 10 ^ k" using ten_power_div [OF Suc.prems(2)] by simp
  have val: "unat (what div ?d) = unat what div ?p" unfolding unat_div d ..
  have r: "unat ?r = unat what mod ?p"
  proof -
    have "?r = what mod ?d" by (metis minus_div_mult_eq_mod)
    then show ?thesis unfolding d [symmetric] by (simp only: unat_mod)
  qed
  have rl: "unat ?r < 10 ^ Suc k" unfolding r by simp
  have kl: "k < 10" using Suc.prems(2) by simp
  have vl: "unat (what div ?d) < 10"
    unfolding val using Suc.prems(1) by (intro less_mult_imp_div_less) simp
  show ?case
  proof (cases "unat what < ?p \<and> \<not> first")
    case True
    then have "what div ?d = 0" using val by (simp add: word_unat_eq_iff)
    moreover from this have "?r = what" by simp
    ultimately have "uint_loop what ?d first idx buf = uint_loop what (10 ^ k) first idx buf"
      using True dpos nxt by (subst uint_loop.simps) (simp add: Let_def del: power_Suc)
    also have "\<dots> = Some (overlay idx (if first then padded_text dec_digit 10 (Suc k) (unat what) else dec_text what) buf)"
      using True kl Suc.prems(3) by (intro Suc.IH) (simp_all del: power_Suc)
    finally show ?thesis using True by simp
  next
    case False
    have nz: "\<not> (what div ?d = 0 \<and> ?d \<noteq> 1 \<and> \<not> first)"
    proof
      assume a: "what div ?d = 0 \<and> ?d \<noteq> 1 \<and> \<not> first"
      then have "unat what div ?p = 0" using val by simp
      then have "unat what < ?p" by (simp only: div_eq_0_iff) simp
      with a False show False by simp
    qed
    let ?c = "dec_digit (unat what div ?p)"
    let ?b = "take idx buf @ ?c # drop (idx + 1) buf"
    have "uint_loop what ?d first idx buf = uint_loop ?r (10 ^ k) True (idx + 1) ?b"
      unfolding nxt [symmetric] using put_next [of idx buf] Suc.prems(3)
      by (intro uint_loop_emit [OF dpos(1) nz]) (simp only: dec_digit_eq [OF vl] val)
    also have "\<dots> = Some (overlay (idx + 1) (padded_text dec_digit 10 (Suc k) (unat ?r)) ?b)"
      using Suc.IH [OF rl kl, of "idx + 1" ?b True] Suc.prems(3) by simp
    also have "\<dots> = Some (overlay idx (padded_text dec_digit 10 (Suc (Suc k)) (unat what)) buf)"
      unfolding r using Suc.prems(3) by (subst overlay_step) simp_all
    finally have u: "uint_loop what ?d first idx buf =
        Some (overlay idx (padded_text dec_digit 10 (Suc (Suc k)) (unat what)) buf)" .
    have "first \<or> dec_text what = padded_text dec_digit 10 (Suc (Suc k)) (unat what)"
      using numeral_padded [of 10 "unat what" "Suc k" dec_digit] Suc.prems(1) False
      by (auto simp: dec_text_def simp del: power_Suc padded_text.simps)
    then show ?thesis using u by (auto simp del: power_Suc padded_text.simps)
  qed
qed

lemma dec_digit_nz: "d < 10 \<Longrightarrow> dec_digit d \<noteq> 0"
proof -
  assume "d < 10"
  then have "d \<in> {0, 1, 2, 3, 4, 5, 6, 7, 8, 9}" using below_11 [of d] by auto
  then show ?thesis by (elim below_cases) (simp_all add: dec_digit_def)
qed

lemma dec_text_props: "0 \<notin> set (dec_text w)" "length (dec_text w) \<le> 10"
proof -
  show "0 \<notin> set (dec_text w)"
    using set_numeral [of 10 dec_digit "unat w"] dec_digit_nz by (force simp: dec_text_def)
  have "unat w < 2 ^ 32" using unsigned_less [of w, where ?'a = nat] by simp
  then have "unat w < 10 ^ 10" by simp
  then show "length (dec_text w) \<le> 10" using length_numeral [of 10 "unat w" 10] by (simp add: dec_text_def)
qed

lemma takeWhile_nonzero: "(0 :: u8) \<notin> set xs \<Longrightarrow> takeWhile (\<lambda>c. c \<noteq> 0) (xs @ ys) = xs @ takeWhile (\<lambda>c. c \<noteq> 0) ys"
  by (induction xs) auto

lemma cstr_overlay:
  assumes "0 \<notin> set (take idx buf)" and "0 \<notin> set out" and "idx + length out < length buf"
    and "buf ! (idx + length out) = 0"
  shows "cstr (overlay idx out buf) = take idx buf @ out" "is_cstr (overlay idx out buf)"
proof -
  have d: "drop (idx + length out) buf = 0 # drop (Suc (idx + length out)) buf"
    using assms(3,4) by (metis Cons_nth_drop_Suc)
  show "is_cstr (overlay idx out buf)" unfolding is_cstr_def overlay_def d by simp
  show "cstr (overlay idx out buf) = take idx buf @ out"
    unfolding cstr_def overlay_def d using assms(1,2) by (simp add: takeWhile_nonzero)
qed

lemma uint2String_eq:
  assumes "off + 11 \<le> length buf" and "11 \<le> n" and "off + n \<le> length buf"
    and "0 \<notin> set (take off buf)"
  shows "\<exists>b. uint2String what off buf n = Some b \<and> length b = length buf \<and> is_cstr b \<and>
    cstr b = take off buf @ dec_text what"
proof -
  let ?z = "take off buf @ replicate n 0 @ drop (off + n) buf"
  have "unat what < 2 ^ 32" using unsigned_less [of what, where ?'a = nat] by simp
  then have w: "unat what < 10 ^ Suc 9" by simp
  have z: "zero_fill off n buf = Some ?z" by (rule zero_fill_Some [OF assms(3)])
  have "uint_loop what (10 ^ 9) False off ?z = Some (overlay off (dec_text what) ?z)"
    using uint_loop_eq [OF w, of off ?z False] assms by simp
  moreover have "?z ! (off + length (dec_text what)) = 0"
    using dec_text_props(2) [of what] assms by (simp add: nth_append)
  moreover have l: "off + length (dec_text what) < length ?z"
    using dec_text_props(2) [of what] assms by simp
  moreover have "take off ?z = take off buf" using assms by simp
  moreover have "length (overlay off (dec_text what) ?z) = length buf"
    using l assms by (simp add: overlay_def)
  ultimately show ?thesis
    using z cstr_overlay [of off ?z "dec_text what"] assms(4) dec_text_props(1) [of what]
    by (simp add: uint2String_def)
qed

text \<open>The text of a signed number.\<close>

definition sdec_text :: "u32 \<Rightarrow> u8 list" where
  "sdec_text w = (if w <s 0 then chr CHR ''-'' # dec_text (- w) else dec_text w)"

lemma int2String_eq:
  assumes "12 < n" and "n \<le> length buf"
  shows "\<exists>b. int2String what buf n = Some b \<and> length b = length buf \<and> is_cstr b \<and> cstr b = sdec_text what"
proof -
  let ?z = "replicate n 0 @ drop n buf"
  have z: "zero_fill 0 n buf = Some ?z" using zero_fill_Some [of 0 n buf] assms(2) by simp
  have n: "11 \<le> n - 1" "n - 1 \<le> length buf" "length ?z = length buf" "1 + (n - 1) \<le> length buf"
      "1 + 11 \<le> length buf" "0 + 11 \<le> length buf"
    using assms by simp_all
  show ?thesis
  proof (cases "what <s 0")
    case False
    obtain b where "uint2String what 0 ?z (n - 1) = Some b" "length b = length ?z" "is_cstr b"
        "cstr b = take 0 ?z @ dec_text what"
      using uint2String_eq [of 0 ?z "n - 1" what] n by auto
    then show ?thesis using False z assms by (simp add: int2String_def sdec_text_def)
  next
    case True
    let ?y = "?z[0 := chr CHR ''-'']"
    have t: "take 1 ?y = [chr CHR ''-'']" using assms by (cases n) simp_all
    have nm: "(chr CHR ''-'' :: u8) \<noteq> 0" by simp
    have "0 < length ?z" using n(3,5) by linarith
    then have y: "put_byte 0 (chr CHR ''-'') ?z = Some ?y" by (rule put_byte_Some)
    obtain b where "uint2String (- what) 1 ?y (n - 1) = Some b" "length b = length ?y" "is_cstr b"
        "cstr b = take 1 ?y @ dec_text (- what)"
      using uint2String_eq [of 1 ?y "n - 1" "- what"] n t nm by auto
    then show ?thesis
      using True z y n(3) t by (simp add: int2String_def sdec_text_def)
  qed
qed

section \<open>The hexadecimal loop\<close>

definition nibble :: "u32 \<Rightarrow> nat \<Rightarrow> nat" where
  "nibble w k = unat w div 16 ^ k mod 16"

abbreviation (input) nibble_mask :: "nat \<Rightarrow> u32" where
  "nibble_mask k \<equiv> push_bit (4 * k) 0xf"

lemma nibble_mask_facts:
  assumes "k < 8"
  shows "0 < nibble_mask k" "(nibble_mask k = 0xf) = (k = 0)"
    "drop_bit 4 (nibble_mask k) = (if k = 0 then 0 else nibble_mask (k - 1))"
    "unat (of_nat k :: u8) = k"
  using below_8 [OF assms] by (elim below_cases; simp)+

lemma unat_drop_bit: "unat (drop_bit n (w :: u32)) = unat w div 2 ^ n"
proof -
  have "unat (drop_bit n w) = drop_bit n (unat w)"
    by (rule bit_eqI) (auto simp: bit_unsigned_iff bit_drop_bit_eq possible_bit_def dest: bit_imp_le_length)
  then show ?thesis by (simp only: drop_bit_eq_div)
qed

lemma masked_nibble:
  assumes "k < 8"
  shows "unat (drop_bit (4 * k) (nibble_mask k AND w)) = nibble w k"
    "(nibble_mask k AND w = 0) = (nibble w k = 0)"
proof -
  let ?d = "take_bit 4 (drop_bit (4 * k) w)"
  have f: "(0xf :: u32) = mask 4" by (simp add: mask_eq_exp_minus_1)
  have v: "nibble_mask k AND w = push_bit (4 * k) ?d"
    unfolding f by (rule bit_word_eqI) (auto simp: bit_simps)
  have d: "drop_bit (4 * k) (nibble_mask k AND w) = ?d"
    unfolding v using assms by (intro bit_word_eqI) (auto simp: bit_simps)
  have "unat ?d = unat (drop_bit (4 * k) w) mod 2 ^ 4"
    by (simp add: take_bit_eq_mod unat_mod)
  moreover have "(2 :: nat) ^ (4 * k) = 16 ^ k" by (simp add: power_mult)
  ultimately have u: "unat ?d = nibble w k" by (simp add: unat_drop_bit nibble_def)
  then show "unat (drop_bit (4 * k) (nibble_mask k AND w)) = nibble w k" using d by simp
  show "(nibble_mask k AND w = 0) = (nibble w k = 0)"
  proof
    assume "nibble_mask k AND w = 0"
    then have "?d = 0" using d by simp
    then show "nibble w k = 0" using u by simp
  next
    assume "nibble w k = 0"
    then have "?d = 0" using u by (simp add: word_unat_eq_iff)
    then show "nibble_mask k AND w = 0" using v by simp
  qed
qed

lemma hex_digit_eq: "unat v < 16 \<Longrightarrow> hex_digit v = hexa_digit (unat v)"
  by (simp add: hex_digit_def hexa_digit_def word_le_nat_alt)

lemma hex_loop_emit:
  assumes "0 < m" and "\<not> (m AND what = 0 \<and> m \<noteq> 0xf \<and> \<not> first)"
    and "put_byte idx (hex_digit (drop_bit (unat shift * 4) (m AND what))) buf = Some b"
  shows "hex_loop what m shift first idx buf = hex_loop what (drop_bit 4 m) (shift - 1) True (idx + 1) b"
  using assms by (subst hex_loop.simps) (auto simp: Let_def)

lemma hex_loop_skip:
  "0 < m \<Longrightarrow> m AND what = 0 \<Longrightarrow> m \<noteq> 0xf \<Longrightarrow>
     hex_loop what m shift False idx buf = hex_loop what (drop_bit 4 m) (shift - 1) False idx buf"
  by (subst hex_loop.simps) (auto simp: Let_def)

lemma hex_loop_eq:
  assumes "k < 8" and "idx + Suc k \<le> length buf"
  shows "hex_loop what (nibble_mask k) (of_nat k) first idx buf =
    Some (overlay idx (let v = unat what mod 16 ^ Suc k
      in if first then padded_text hexa_digit 16 (Suc k) v else numeral_text hexa_digit 16 v) buf)"
  using assms
proof (induction k arbitrary: first idx buf)
  case 0
  note m = nibble_mask_facts [OF 0(1)] and n = masked_nibble [OF 0(1)]
  have d: "drop_bit (4 * 0) (nibble_mask 0 AND what) = nibble_mask 0 AND what" by simp
  have nb: "nibble what 0 = unat what mod 16" by (simp add: nibble_def)
  have "hex_loop what (nibble_mask 0) (of_nat 0) first idx buf =
      hex_loop what (drop_bit 4 (nibble_mask 0)) (of_nat 0 - 1) True (idx + 1)
        (take idx buf @ hexa_digit (unat what mod 16) # drop (idx + 1) buf)"
    using put_next [of idx buf] 0(2) n(1) nb m(4)
    by (intro hex_loop_emit) (simp_all add: hex_digit_eq)
  also have "\<dots> = Some (take idx buf @ hexa_digit (unat what mod 16) # drop (idx + 1) buf)"
    by (simp add: hex_loop.simps)
  finally show ?case by (simp add: overlay_def numeral_text.simps Let_def)
next
  case (Suc k)
  let ?k = "Suc k" and ?v = "unat what mod 16 ^ Suc (Suc k)"
  have kl: "k < 8" using Suc.prems(1) by simp
  note m = nibble_mask_facts [OF Suc.prems(1)] and n = masked_nibble [OF Suc.prems(1), of what]
  have nxt: "drop_bit 4 (nibble_mask ?k) = nibble_mask k" using m(3) by simp
  have sh: "(of_nat ?k :: u8) - 1 = of_nat k" by simp
  have pow: "(16 :: nat) ^ Suc (Suc k) = 16 ^ ?k * 16" by simp
  have top: "?v div 16 ^ ?k = nibble what ?k"
    unfolding pow nibble_def using mod_mult2_eq [of "unat what" "16 ^ ?k" 16] by simp
  have low: "?v mod 16 ^ ?k = unat what mod 16 ^ ?k"
    by (rule mod_mod_cancel) simp
  have nl: "nibble what ?k < 16" by (simp add: nibble_def)
  show ?case
  proof (cases "nibble what ?k = 0 \<and> \<not> first")
    case True
    have "hex_loop what (nibble_mask ?k) (of_nat ?k) False idx buf =
        hex_loop what (drop_bit 4 (nibble_mask ?k)) (of_nat ?k - 1) False idx buf"
      using m(1,2) n(2) True by (intro hex_loop_skip) simp_all
    also have "\<dots> = Some (overlay idx (numeral_text hexa_digit 16 (unat what mod 16 ^ ?k)) buf)"
      unfolding nxt sh using Suc.IH [OF kl, of idx buf False] Suc.prems(2) by (simp add: Let_def)
    also have "unat what mod 16 ^ ?k = ?v"
      using top low True mod_div_trivial div_mult_mod_eq [of ?v "16 ^ ?k"] by (simp del: power_Suc)
    finally show ?thesis using True by (simp add: Let_def del: power_Suc)
  next
    case False
    have nz: "\<not> (nibble_mask ?k AND what = 0 \<and> nibble_mask ?k \<noteq> 0xf \<and> \<not> first)"
      using False n(2) by blast
    let ?b = "take idx buf @ hexa_digit (nibble what ?k) # drop (idx + 1) buf"
    have u: "unat (drop_bit (4 * ?k) (nibble_mask ?k AND what)) < 16" using n(1) nl by simp
    have p: "put_byte idx (hex_digit (drop_bit (unat (of_nat ?k :: u8) * 4) (nibble_mask ?k AND what))) buf = Some ?b"
      unfolding m(4) mult.commute [of ?k 4] hex_digit_eq [OF u] n(1)
      using Suc.prems(2) by (intro put_next) simp
    have "hex_loop what (nibble_mask ?k) (of_nat ?k) first idx buf =
        hex_loop what (nibble_mask k) (of_nat k) True (idx + 1) ?b"
      using hex_loop_emit [OF m(1) nz p] unfolding nxt sh .
    also have "\<dots> = Some (overlay (idx + 1) (padded_text hexa_digit 16 ?k (unat what mod 16 ^ ?k)) ?b)"
      using Suc.IH [OF kl, of "idx + 1" ?b True] Suc.prems(2) by (simp add: Let_def del: power_Suc)
    also have "\<dots> = Some (overlay idx (padded_text hexa_digit 16 (Suc ?k) ?v) buf)"
      using Suc.prems(2) top low by (subst overlay_step) (simp_all del: power_Suc)
    finally have e: "hex_loop what (nibble_mask ?k) (of_nat ?k) first idx buf =
        Some (overlay idx (padded_text hexa_digit 16 (Suc ?k) ?v) buf)" .
    have "first \<or> numeral_text hexa_digit 16 ?v = padded_text hexa_digit 16 (Suc ?k) ?v"
    proof (cases first)
      case nf: False
      then have "0 < ?v div 16 ^ ?k" using False top by simp
      then have "16 ^ ?k \<le> ?v" by (metis div_less gr_implies_not0 not_less)
      then show ?thesis using numeral_padded [of 16 ?v ?k hexa_digit] by simp
    qed simp
    then show ?thesis using e by (auto simp: Let_def simp del: power_Suc padded_text.simps)
  qed
qed

lemma hexa_digit_nz: "d < 16 \<Longrightarrow> hexa_digit d \<noteq> 0"
proof -
  assume "d < 16"
  from below_16 [OF this] show ?thesis by (elim below_cases) (simp_all add: hexa_digit_def)
qed

lemma hex_text_props: "0 \<notin> set (hex_text w)" "length (hex_text w) \<le> 8"
proof -
  show "0 \<notin> set (hex_text w)"
    using set_numeral [of 16 hexa_digit "unat w"] hexa_digit_nz by (force simp: hex_text_def)
  have "unat w < 2 ^ 32" using unsigned_less [of w, where ?'a = nat] by simp
  then have "unat w < 16 ^ 8" by simp
  then show "length (hex_text w) \<le> 8" using length_numeral [of 16 "unat w" 8] by (simp add: hex_text_def)
qed

lemma hex2String_eq:
  assumes "11 \<le> n" and "n \<le> length buf"
  shows "\<exists>b. hex2String what buf n = Some b \<and> length b = length buf \<and> is_cstr b \<and>
    cstr b = [chr CHR ''0'', chr CHR ''x''] @ hex_text what"
proof -
  let ?pre = "[chr CHR ''0'', chr CHR ''x''] :: u8 list"
  obtain x y rest where buf: "buf = x # y # rest"
    using assms by (cases buf; cases "tl buf") auto
  let ?z = "?pre @ replicate (n - 2) 0 @ drop (n - 2) rest"
  have p: "put_byte 0 (chr CHR ''0'') buf = Some (chr CHR ''0'' # y # rest)"
    "put_byte 1 (chr CHR ''x'') (chr CHR ''0'' # y # rest) = Some (?pre @ rest)"
    by (simp_all add: put_byte_def buf)
  have z: "zero_fill 2 (n - 2) (?pre @ rest) = Some ?z"
    using zero_fill_Some [of 2 "n - 2" "?pre @ rest"] assms by (simp add: buf)
  have "unat what < 2 ^ 32" using unsigned_less [of what, where ?'a = nat] by simp
  then have w: "unat what mod 16 ^ Suc 7 = unat what" by simp
  have m: "nibble_mask 7 = 0xf0000000" "(of_nat 7 :: u8) = 7" by simp_all
  have l: "length ?z = length buf" using assms by (simp add: buf)
  have h: "hex_loop what 0xf0000000 7 False 2 ?z = Some (overlay 2 (hex_text what) ?z)"
    using hex_loop_eq [of 7 2 ?z what False, unfolded m w] l assms by (simp add: Let_def hex_text_def)
  have "length (hex_text what) < n - 2" using hex_text_props(2) [of what] assms by linarith
  then have z0: "?z ! (2 + length (hex_text what)) = 0"
    by (simp add: nth_append)
  have c: "cstr (overlay 2 (hex_text what) ?z) = take 2 ?z @ hex_text what" "is_cstr (overlay 2 (hex_text what) ?z)"
    by (rule cstr_overlay; use hex_text_props [of what] l assms z0 in simp)+
  have "length (overlay 2 (hex_text what) ?z) = length buf"
    using hex_text_props(2) [of what] l assms by (simp add: overlay_def)
  then show ?thesis
    using p z h c by (simp add: hex2String_def)
qed

section \<open>What \<open>outf\<close> prints\<close>

definition conv_char :: "u8 \<Rightarrow> bool" where
  "conv_char n \<longleftrightarrow> n = chr CHR ''d'' \<or> n = chr CHR ''u'' \<or> n = chr CHR ''x''"

definition conv_text :: "u8 \<Rightarrow> u32 \<Rightarrow> u8 list" where
  "conv_text c a = (if c = chr CHR ''d'' then sdec_text a else if c = chr CHR ''u'' then dec_text a
     else [chr CHR ''0'', chr CHR ''x''] @ hex_text a)"

text \<open>The text a format and its arguments stand for; \<open>None\<close> when an argument is missing.\<close>

function render :: "u8 list \<Rightarrow> u32 list \<Rightarrow> u8 list option" where
  "render [] vl = Some []"
| "render (c # cs) vl =
     (if c = chr CHR ''%'' \<and> cs \<noteq> [] \<and> conv_char (hd cs)
      then (case vl of [] \<Rightarrow> None
            | a # vl \<Rightarrow> do { r \<leftarrow> render (tl cs) vl; Some (conv_text (hd cs) a @ r) })
      else do { r \<leftarrow> render cs vl; Some (c # r) })"
  by pat_completeness auto

termination render
  by (relation "measure (\<lambda>(cs, vl). length cs)") (auto simp: neq_Nil_conv)

lemma sdec_text_props: "length (sdec_text a) \<le> 11"
  using dec_text_props(2) [of a] dec_text_props(2) [of "- a"] by (simp add: sdec_text_def)

lemma convert_eq:
  "\<exists>b. convert c a = Some b \<and> is_cstr b \<and> cstr b = conv_text c a \<and> length (conv_text c a) \<le> 11"
proof -
  have i: "\<exists>b. int2String a (replicate 15 0) 15 = Some b \<and> is_cstr b \<and> cstr b = sdec_text a"
    using int2String_eq [of 15 "replicate 15 0" a] by auto
  have u: "\<exists>b. uint2String a 0 (replicate 15 0) 15 = Some b \<and> is_cstr b \<and> cstr b = dec_text a"
    using uint2String_eq [of 0 "replicate 15 0" 15 a] by auto
  have h: "\<exists>b. hex2String a (replicate 15 0) 15 = Some b \<and> is_cstr b \<and>
      cstr b = [chr CHR ''0'', chr CHR ''x''] @ hex_text a"
    using hex2String_eq [of 15 "replicate 15 0" a] by auto
  show ?thesis
    using i u h sdec_text_props [of a] dec_text_props(2) [of a] hex_text_props(2) [of a]
    by (auto simp: convert_def conv_text_def Let_def)
qed

lemma put_bytes_eq:
  "n \<le> length buf \<Longrightarrow> idx + n \<le> length msg \<Longrightarrow>
     put_bytes idx buf n msg = Some (overlay idx (take n buf) msg)"
proof (induction idx buf n msg rule: put_bytes.induct)
  case (2 idx buf n msg)
  then obtain b bs where buf: "buf = b # bs" by (cases buf) auto
  then show ?case
    using 2 put_next [of idx msg b] overlay_step [of idx msg "take n bs" b] by simp
qed simp

lemma take_overlay: "idx \<le> length msg \<Longrightarrow> take (idx + length out) (overlay idx out msg) = take idx msg @ out"
  by (simp add: overlay_def)

lemma render_plain: "set t \<inter> {chr CHR ''%''} = {} \<Longrightarrow> render (t @ cs) vl = map_option ((@) t) (render cs vl)"
proof (induction t)
  case (Cons c t)
  then show ?case by (cases "render cs vl") (auto simp: conv_char_def)
qed (cases "render cs vl"; simp)

lemma outf_loop_eq:
  assumes "is_cstr fmt" and "cur \<le> length (cstr fmt)"
    and "render (drop cur (cstr fmt)) vl = Some out" and "idx + length out < 1920" and "length msg = 1921"
  shows "outf_loop send block fmt cur idx vl msg w = Some (send w (take idx msg @ out @ [0]) block)"
  using assms
proof (induction "length (cstr fmt) - cur" arbitrary: cur idx vl out msg rule: less_induct)
  case less
  note e = cstr_end [OF less.prems(1)]
  show ?case
  proof (cases "cur = length (cstr fmt)")
    case True
    then have "fmt ! cur = 0" "cur < length fmt" using e by simp_all
    moreover from this have "conversion fmt cur = Some None"
      by (simp add: conversion_def get_byte_def)
    moreover have "out = []" using less.prems(3) True by simp
    ultimately show ?thesis
      using less.prems(4,5)
      by (subst outf_loop.simps) (simp add: get_byte_def put_byte_def take_Suc_conv_app_nth)
  next
    case False
    then have lt: "cur < length (cstr fmt)" using less.prems(2) by simp
    note c = cstr_nth [OF lt]
    let ?c = "fmt ! cur" and ?cs = "drop (cur + 1) (cstr fmt)"
    have d: "drop cur (cstr fmt) = ?c # ?cs" using lt c by (simp add: Cons_nth_drop_Suc [symmetric])
    have n: "cur + 1 < length fmt" "fmt ! (cur + 1) = (if ?cs = [] then 0 else hd ?cs)"
      using lt e cstr_nth [of "cur + 1" fmt] by (auto simp: hd_drop_conv_nth less_Suc_eq_le
          dest: le_antisym intro: le_less_trans)
    have conv: "conversion fmt cur =
        Some (if ?c = chr CHR ''%'' \<and> ?cs \<noteq> [] \<and> conv_char (hd ?cs) then Some (hd ?cs) else None)"
      using c n by (auto simp: conversion_def get_byte_def conv_char_def)
    show ?thesis
    proof (cases "?c = chr CHR ''%'' \<and> ?cs \<noteq> [] \<and> conv_char (hd ?cs)")
      case True
      then obtain a vl' r where vl: "vl = a # vl'" and r: "render (tl ?cs) vl' = Some r"
        and out: "out = conv_text (hd ?cs) a @ r"
        using less.prems(3) unfolding d by (auto split: list.splits simp del: drop_Suc)
      obtain b where b: "convert (hd ?cs) a = Some b" "is_cstr b" "cstr b = conv_text (hd ?cs) a"
          "length (conv_text (hd ?cs) a) \<le> 11" using convert_eq by blast
      let ?n = "length (conv_text (hd ?cs) a)"
      let ?msg = "overlay idx (conv_text (hd ?cs) a) msg"
      have sl: "strlen b = Some (of_nat ?n)" using strlen_eq [OF b(2)] b(3) by simp
      have un: "unat (of_nat ?n :: u32) = ?n" using b(4) by (simp add: unat_of_nat take_bit_nat_eq_self)
      have big: "\<not> of_nat (MAX_MSG_SIZE - idx) \<le> (of_nat ?n :: u32)"
      proof -
        have "unat (of_nat (MAX_MSG_SIZE - idx) :: u32) = MAX_MSG_SIZE - idx"
          by (simp only: unat_of_nat) (simp add: take_bit_nat_eq_self)
        moreover have "?n < MAX_MSG_SIZE - idx" using less.prems(4) out by simp
        ultimately show ?thesis unfolding word_le_nat_alt un by linarith
      qed
      have "length (cstr b) < length b" using cstr_end [OF b(2)] by simp
      then have tk: "take ?n b = conv_text (hd ?cs) a"
        using b(3) takeWhile_eq_take [of "\<lambda>c. c \<noteq> 0" b] by (simp add: cstr_def)
      have pb: "put_bytes idx b ?n msg = Some ?msg"
        using put_bytes_eq [of ?n b idx msg] less.prems(4,5) out \<open>length (cstr b) < length b\<close> b(3) tk by simp
      have "outf_loop send block fmt cur idx vl msg w = outf_loop send block fmt (cur + 2) (idx + ?n) vl' ?msg w"
        using conv True vl b(1) sl big pb un
        by (subst outf_loop.simps) (simp add: hasFailed_def OK_def)
      also have "\<dots> = Some (send w (take (idx + ?n) ?msg @ r @ [0]) block)"
      proof (rule less.hyps)
        have "?cs \<noteq> []" using True by blast
        then have "cur + 2 \<le> length (cstr fmt)" by simp
        then show "cur + 2 \<le> length (cstr fmt)" "length (cstr fmt) - (cur + 2) < length (cstr fmt) - cur"
          by simp_all
        show "render (drop (cur + 2) (cstr fmt)) vl' = Some r" using r by (simp add: tl_drop drop_Suc [symmetric] numeral_2_eq_2)
        show "length ?msg = 1921" using less.prems(4,5) out by (simp add: overlay_def)
      qed (use less.prems out in simp_all)
      also have "take (idx + ?n) ?msg = take idx msg @ conv_text (hd ?cs) a"
        using less.prems(4,5) by (simp add: take_overlay)
      finally show ?thesis by (simp add: out)
    next
      case plain: False
      then obtain r where r: "render ?cs vl = Some r" and out: "out = ?c # r"
        using less.prems(3) unfolding d by (auto split: if_splits)
      let ?msg = "msg[idx := ?c]"
      have "outf_loop send block fmt cur idx vl msg w = outf_loop send block fmt (cur + 1) (idx + 1) vl ?msg w"
        using conv plain c less.prems(4,5) out
        by (subst outf_loop.simps) (auto simp: get_byte_def put_byte_def)
      also have "\<dots> = Some (send w (take (idx + 1) ?msg @ r @ [0]) block)"
        using less.prems lt r out by (intro less.hyps) simp_all
      also have "take (idx + 1) ?msg = take idx msg @ [?c]"
        using less.prems(4,5) out by (simp add: take_Suc_conv_app_nth)
      finally show ?thesis by (simp add: out)
    qed
  qed
qed

end
