(* ===== verification/MK_Process.thy ===== *)
theory MK_Process
  imports MK_Text MK_Kernel_Inv
begin

text \<open>
  Creation of processes (\<open>create_process\<close> of \<^verbatim>\<open>kernel/utilities_C.c\<close>): the choice of a free slot
  of the process table, the checks on the memory areas, the descriptors of the six segments and of
  the task-state segment, and the way back when one of them cannot be had.
\<close>

section \<open>The operation\<close>

definition memAreaValid :: "u32 \<Rightarrow> u32 \<Rightarrow> bool \<Rightarrow> bool" where
  "memAreaValid base limit video =
     (let lowerBound = (if video then 0xc0000 else 0xa0000)
      in if base > lowerBound \<and> base < 0x100000 then False
         else if base \<le> lowerBound \<and> base + limit > lowerBound then False
         else True)"

text \<open>The number of 4 KiB pages for a segment of more than \<open>0xfffff\<close> bytes.\<close>

definition page_limit :: "u32 \<Rightarrow> u32" where
  "page_limit limit = (if limit AND 0x3ff = 0 then drop_bit 12 limit else drop_bit 12 limit + 1)"

text \<open>An area is its base and its limit; with the base \<open>NO_BASE\<close> there is no segment.\<close>

type_synonym area = "u32 \<times> u32"

fun open_segment :: "u32 \<Rightarrow> area \<Rightarrow> u32 \<Rightarrow> bool \<Rightarrow> kstate \<Rightarrow> bool \<times> u32 \<times> kstate" where
  "open_segment privilege (base, limit) ty video s =
     (if base = NO_BASE then (True, INVALID_GDT_IDX, s)
      else if \<not> memAreaValid base limit video then (False, INVALID_GDT_IDX, s)
      else let idx = get_free_gdt_idx s
           in if idx = INVALID_GDT_IDX then (False, INVALID_GDT_IDX, s)
              else if limit > 0xfffff
              then (True, idx, write_segment_desc idx (page_limit limit) base 1 privilege ty 1 s)
              else (True, idx, write_segment_desc idx limit base 1 privilege ty 0 s))"

text \<open>The blocks for the single segments, one after the other; the first failure ends them.\<close>

fun open_segments :: "u32 \<Rightarrow> (area \<times> u32 \<times> bool) list \<Rightarrow> kstate \<Rightarrow> bool \<times> u32 list \<times> kstate" where
  "open_segments privilege [] s = (True, [], s)"
| "open_segments privilege ((a, ty, video) # rs) s =
     (let (ok, i, s) = open_segment privilege a ty video s
      in if ok then let (ok, is, s) = open_segments privilege rs s in (ok, i # is, s)
         else (False, i # replicate (length rs) INVALID_GDT_IDX, s))"

fun free_segments :: "u32 list \<Rightarrow> kstate \<Rightarrow> kstate" where
  "free_segments [] s = s"
| "free_segments (i # is) s = free_segments is (if i \<noteq> INVALID_GDT_IDX then free_gdt_idx i s else s)"

text \<open>
  The search goes through the table until it finds the entry that stands behind its end
  (\<open>pproctab_end\<close>): no process is free.
\<close>

fun empty_slot :: "kstate \<Rightarrow> ptr list \<Rightarrow> ptr option option" where
  "empty_slot s [] = Some None"
| "empty_slot s (process # rest) =
     (if process = pproctab_end s then Some None
      else do {
        t \<leftarrow> tsss s process;
        if tss_state t = EMPTY then Some (Some process) else empty_slot s rest
      })"

definition segment_requests ::
    "area \<Rightarrow> area \<Rightarrow> area \<Rightarrow> area \<Rightarrow> area \<Rightarrow> area \<Rightarrow> (area \<times> u32 \<times> bool) list" where
  "segment_requests cs ds es fs gs ss =
     [(cs, 0, False), (ds, 1, False), (es, 1, False), (fs, 1, False), (gs, 1, True), (ss, 1, False)]"

definition process_tss ::
    "u32 \<Rightarrow> u32 \<Rightarrow> u32 \<Rightarrow> u32 \<Rightarrow> u32 \<Rightarrow> u32 list \<Rightarrow> u8 list \<Rightarrow> tss \<Rightarrow> tss" where
  "process_tss tssIdx privilege ticks start stack is name t = t\<lparr>
     idx_tss := ucast tssIdx, schedticks := ticks, ticksleft := ticks,
     esp_reg := stack, ebp_reg := stack, eip_reg := start, eflag_reg := 0x200,
     tss_state := 0, callMask := 0, tss_next := NULL, tss_previous := NULL,
     firstSender := NULL, nextSender := NULL, receivingFrom := NULL,
     iomap_base := ucast SIZEOF_TSS, procname := name,
     cs_reg := ucast (is ! 0 + privilege), ds_reg := ucast (is ! 1 + privilege),
     es_reg := ucast (is ! 2 + privilege), fs_reg := ucast (is ! 3 + privilege),
     gs_reg := ucast (is ! 4 + privilege), ss_reg := ucast (is ! 5 + privilege)\<rparr>"

text \<open>
  The call of \<open>write_tss_desc\<close> has six arguments, the assembly routine reads seven: it takes the
  fifth for a privilege level it does not use, the sixth for the busy flag, and for the
  granularity what lies behind the arguments on the stack, \<open>stk\<close>.

  \<open>None\<close> is a fault: a pointer of the table that is not a task-state segment, or a name that does
  not end inside its buffer.
\<close>

definition create_process ::
    "u32 \<Rightarrow> u32 \<Rightarrow> u32 \<Rightarrow> u32 \<Rightarrow> area \<Rightarrow> area \<Rightarrow> area \<Rightarrow> area \<Rightarrow> area \<Rightarrow> area \<Rightarrow> u8 list \<Rightarrow>
     kstate \<Rightarrow> (ptr \<times> kstate) option" where
  "create_process stk privilege ticks start cs ds es fs gs ss name s = do {
     slot \<leftarrow> empty_slot s (pproctab s);
     case slot of
       None \<Rightarrow> Some (NULL, s)
     | Some process \<Rightarrow>
         (let (ok, is, s) = open_segments privilege (segment_requests cs ds es fs gs ss) s;
              tssIdx = get_free_gdt_idx s
          in if \<not> ok \<or> tssIdx = INVALID_GDT_IDX then Some (NULL, free_segments is s)
             else do {
               let s = write_tss_desc tssIdx SIZEOF_TSS (KERNEL_BASE + process) 1 1 0 stk s;
               t \<leftarrow> tsss s process;
               name \<leftarrow> strncpy (procname t) name 18;
               s \<leftarrow> tss_upd process (process_tss tssIdx privilege ticks start (snd ss) is name) s;
               Some (process, s)
             })
   }"

section \<open>The checks on a memory area\<close>

lemma memAreaValid_sound:
  assumes "memAreaValid base limit video" and "unat base + unat limit < 2 ^ 32"
    and "unat base \<le> a" and "a < unat base + unat limit"
  shows "\<not> ((if video then 0xc0000 else 0xa0000) \<le> a \<and> a < 0x100000)"
proof -
  define lb :: u32 where "lb = (if video then 0xc0000 else 0xa0000)"
  have u: "unat lb = (if video then 0xc0000 else 0xa0000)" by (simp add: lb_def)
  have sum: "unat (base + limit) = unat base + unat limit"
    using assms(2) by (simp add: unat_word_ariths)
  have "\<not> (base > lb \<and> base < 0x100000)" "\<not> (base \<le> lb \<and> base + limit > lb)"
    using assms(1) unfolding memAreaValid_def lb_def [symmetric] Let_def by (simp_all split: if_splits)
  then have "\<not> (unat lb < unat base \<and> unat base < 0x100000)"
      "\<not> (unat base \<le> unat lb \<and> unat lb < unat base + unat limit)"
    by (simp_all add: word_less_nat_alt word_le_nat_alt sum)
  then show ?thesis using assms(3,4) unfolding u [symmetric] by linarith
qed

lemma page_limit_pages:
  "unat (page_limit l) = (if unat l mod 1024 = 0 then unat l div 4096 else unat l div 4096 + 1)"
proof -
  have "(0x3ff :: u32) = mask 10" by (simp add: mask_eq_exp_minus_1)
  then have "l AND 0x3ff = take_bit 10 l" by (simp add: take_bit_eq_mask)
  then have "unat (l AND 0x3ff) = unat l mod 1024"
    by (simp add: take_bit_eq_mod unat_mod)
  then have z: "(l AND 0x3ff = 0) = (unat l mod 1024 = 0)" by (metis unat_eq_zero)
  have d: "unat (drop_bit 12 l) = unat l div 4096" by (simp add: drop_bit_eq_div unat_div)
  have "unat l < 2 ^ 32" using unsigned_less [of l, where ?'a = nat] by simp
  then have "unat l div 4096 < 2 ^ 20" by (intro less_mult_imp_div_less) simp
  then have "unat (drop_bit 12 l + 1) = unat l div 4096 + 1"
    unfolding d [symmetric] by (simp add: unat_word_ariths)
  then show ?thesis using z d by (simp add: page_limit_def)
qed

section \<open>What taking a descriptor changes\<close>

abbreviation used_bit :: "kstate \<Rightarrow> nat \<Rightarrow> bool" where
  "used_bit s \<equiv> bitmap_bit (mem s) (gdtBitmap s)"

text \<open>The descriptors before the kernel's image that are free.\<close>

definition free_low :: "kstate \<Rightarrow> nat set" where
  "free_low s = {k. below_kernel k \<and> \<not> used_bit s k}"

lemma finite_free_low [simp]: "finite (free_low s)"
  by (rule finite_subset [of _ "{..<2080}"]) (auto simp: free_low_def below_kernel_def)

text \<open>Descriptor operations write nothing but memory and the limit of the table.\<close>

definition memory_only :: "kstate \<Rightarrow> kstate \<Rightarrow> bool" where
  "memory_only s s' \<longleftrightarrow> (\<exists>m l. s' = s\<lparr>mem := m, gdt_limit := l\<rparr>)"

lemma memory_only_refl [simp]: "memory_only s s"
  unfolding memory_only_def by (intro exI [of _ "mem s"] exI [of _ "gdt_limit s"]) simp

lemma memory_only_trans: "memory_only a b \<Longrightarrow> memory_only b c \<Longrightarrow> memory_only a c"
  unfolding memory_only_def by force

lemma memory_only_sel:
  assumes "memory_only s s'"
  shows "tsss s' = tsss s" "gdtBitmap s' = gdtBitmap s" "bitmap_fits s' = bitmap_fits s"
    "kernel_inv s' = kernel_inv s" "kinv_g X s' qs L = kinv_g X s qs L" "static s' = static s"
    "schedqueue s' = schedqueue s" "pproctab s' = pproctab s"
    "curptr s' = curptr s" "nextptr s' = nextptr s"
proof -
  obtain m l where s': "s' = s\<lparr>mem := m, gdt_limit := l\<rparr>" using assms by (auto simp: memory_only_def)
  show "kernel_inv s' = kernel_inv s" unfolding kernel_inv_def s' by simp
qed (use assms in \<open>auto simp: memory_only_def bitmap_fits_def static_def\<close>)

lemma unfree_memory_only [simp]: "memory_only s (unfree_gdt_idx i s)"
  unfolding memory_only_def unfree_gdt_idx_def
  by (intro exI [of _ "unfreeBitInBitfield (gdtBitmap s) (i div 8) (mem s)"] exI [of _ "gdt_limit s"]) simp

lemma free_memory_only [simp]: "memory_only s (free_gdt_idx i s)"
  unfolding memory_only_def free_gdt_idx_def
  by (intro exI [of _ "freeBitInBitfield (gdtBitmap s) (i div 8) (mem s)"] exI [of _ "gdt_limit s"]) simp

lemma grow_memory_only: "memory_only s ((grow_gdt i s)\<lparr>mem := m\<rparr>)"
  unfolding memory_only_def grow_gdt_def
  by (intro exI [of _ m] exI [of _ "if gdt_limit s < ucast i then ucast (i + 8 - 1) else gdt_limit s"]) simp

lemma free_segments_memory_only: "memory_only s (free_segments is s)"
  by (induction "is" s rule: free_segments.induct) (auto intro: memory_only_trans [OF free_memory_only])

definition descriptor_written :: "u32 \<Rightarrow> kstate \<Rightarrow> kstate \<Rightarrow> bool" where
  "descriptor_written i s s' \<longleftrightarrow> (\<exists>l b p q.
     s' = unfree_gdt_idx i ((grow_gdt i s)\<lparr>mem := put_descriptor i l b p q (mem s)\<rparr>))"

lemma grow_mem: "mem (grow_gdt i s) = mem s"
  by (simp add: grow_gdt_def)

lemma segment_written: "descriptor_written i s (write_segment_desc i l b pr pv ty g s)"
  unfolding descriptor_written_def write_segment_desc_def Let_def grow_mem by blast

lemma tss_written: "descriptor_written i s (write_tss_desc i l b pr pv busy g s)"
  unfolding descriptor_written_def write_tss_desc_def Let_def grow_mem by blast

lemma written_memory_only: "descriptor_written i s s' \<Longrightarrow> memory_only s s'"
  unfolding descriptor_written_def
  using memory_only_trans [OF grow_memory_only unfree_memory_only] by blast

lemma written_bits:
  assumes w: "descriptor_written (selector n) s s'" and fits: "bitmap_fits s" and n: "below_kernel n"
    and k: "k < 8192"
  shows "used_bit s' k = (used_bit s k \<or> k = n)"
proof -
  obtain l b p q where s': "s' = unfree_gdt_idx (selector n)
      ((grow_gdt (selector n) s)\<lparr>mem := put_descriptor (selector n) l b p q (mem s)\<rparr>)"
    using w by (auto simp: descriptor_written_def)
  let ?m = "put_descriptor (selector n) l b p q (mem s)"
  have g: "gdtBitmap (grow_gdt (selector n) s) = gdtBitmap s" by (simp add: grow_gdt_def)
  have n': "n < 8192" using n by (simp add: below_kernel_def)
  have byte: "KERNEL_BASE + (gdtBitmap s + of_nat (k div 8)) = bitmap_byte s (selector k)"
  proof -
    have "unat (selector k div 8 div 8) = k div 8" using unfree_selector [OF k] by (simp add: unat_div)
    then have "of_nat (unat (selector k div 8 div 8)) = (of_nat (k div 8) :: u32)" by simp
    then have "selector k div 8 div 8 = of_nat (k div 8)" by simp
    then show ?thesis by (simp add: bitmap_byte_def)
  qed
  have "?m (bitmap_byte s (selector k)) = mem s (bitmap_byte s (selector k))"
    by (rule put_descriptor_outside [OF bitmap_apart [OF fits n k]])
  then have "bitmap_bit ?m (gdtBitmap s) k = used_bit s k" by (simp add: bitmap_bit_def byte)
  moreover have "used_bit s' k = (bitmap_bit ?m (gdtBitmap s) k \<or> k = unat (selector n div 8))"
    unfolding s' using bitmap_bit_unfree [of k "gdtBitmap s"] k by (simp add: unfree_gdt_idx_def g)
  ultimately show ?thesis using unfree_selector [OF n'] by simp
qed

lemma written_other:
  assumes w: "descriptor_written (selector n) s s'" and fits: "bitmap_fits s" and n: "below_kernel n"
    and k: "below_kernel k" and ne: "k \<noteq> n"
  shows "get_base (mem s') (selector k) = get_base (mem s) (selector k)"
    "get_limit (mem s') (selector k) = get_limit (mem s) (selector k)"
proof -
  obtain l b p q where s': "s' = unfree_gdt_idx (selector n)
      ((grow_gdt (selector n) s)\<lparr>mem := put_descriptor (selector n) l b p q (mem s)\<rparr>)"
    using w by (auto simp: descriptor_written_def)
  let ?g = "(grow_gdt (selector n) s)\<lparr>mem := put_descriptor (selector n) l b p q (mem s)\<rparr>"
  have lt: "n < 8192" "k < 8192" using n k by (simp_all add: below_kernel_def)
  have b: "bitmap_byte ?g i = bitmap_byte s i" for i by (simp add: bitmap_byte_def grow_gdt_def)
  have same: "mem s' a = mem s a" if "a \<in> descriptor_bytes (selector k)" for a
  proof -
    have "a \<noteq> bitmap_byte ?g (selector n)" unfolding b using that bitmap_apart [OF fits k lt(1)] by blast
    then have "mem s' a = put_descriptor (selector n) l b p q (mem s) a"
      unfolding s' by (subst unfree_other) simp_all
    then show ?thesis
      using put_descriptor_outside descriptor_bytes_disjoint [OF lt(2,1) ne that] by simp
  qed
  show "get_base (mem s') (selector k) = get_base (mem s) (selector k)"
    "get_limit (mem s') (selector k) = get_limit (mem s) (selector k)"
    by (rule descriptor_cong, rule same, assumption)+
qed

text \<open>A free descriptor before the kernel's image is found when there is one.\<close>

lemma get_free_low:
  assumes "free_low s \<noteq> {}"
  obtains n where "get_free_gdt_idx s = selector n" "below_kernel n" "\<not> used_bit s n"
    "get_free_gdt_idx s \<noteq> INVALID_GDT_IDX"
proof -
  let ?r = "getFreeBitInBitfield (mem s) (gdtBitmap s) 8192"
  note spec = getFreeBit_spec [where m = "mem s" and bf = "gdtBitmap s" and bits = 8192]
  obtain k where k: "below_kernel k" "\<not> used_bit s k" using assms by (auto simp: free_low_def)
  have "\<not> k < unat ?r" using spec(2) [of k] k(2) by blast
  then have lt: "unat ?r < 2080" using k(1) by (simp add: below_kernel_def)
  have e: "get_free_gdt_idx s = selector (unat ?r)"
    by (simp add: get_free_gdt_idx_def selector_def)
  have "unat (selector (unat ?r)) = 8 * unat ?r"
    unfolding selector_def using lt by (simp only: unat_of_nat) (simp add: take_bit_nat_eq_self)
  then have "unat (get_free_gdt_idx s) < 65536" using lt e by simp
  then have "get_free_gdt_idx s \<noteq> INVALID_GDT_IDX" by auto
  moreover have "\<not> used_bit s (unat ?r)" using spec(3) lt by simp
  ultimately show ?thesis using that [OF e] lt by (simp add: below_kernel_def)
qed

lemma card_free_low:
  assumes "descriptor_written (selector n) s s'" and "bitmap_fits s" and "below_kernel n"
  shows "card (free_low s) \<le> Suc (card (free_low s'))"
proof -
  have "free_low s' = free_low s - {n}"
    using written_bits [OF assms] by (auto simp: free_low_def below_kernel_def)
  moreover have "n \<in> free_low s \<Longrightarrow> 0 < card (free_low s)" using card_gt_0_iff by fastforce
  ultimately show ?thesis by (simp add: card_Diff_singleton_if)
qed

section \<open>What a segment grants\<close>

text \<open>The size of the segment that is opened for a limit: whole pages above \<open>0xfffff\<close>.\<close>

definition granted :: "u32 \<Rightarrow> u32" where
  "granted limit = (if limit > 0xfffff then push_bit 12 (page_limit limit) else limit)"

definition area_fits :: "area \<Rightarrow> bool" where
  "area_fits a \<longleftrightarrow> unat (fst a) + unat (snd a) < 2 ^ 32"

definition segment_granted :: "memory \<Rightarrow> area \<Rightarrow> u32 \<Rightarrow> bool" where
  "segment_granted m a i \<longleftrightarrow>
     (if fst a = NO_BASE then i = INVALID_GDT_IDX
      else get_base m i = fst a \<and> get_limit m i = granted (snd a))"

lemma page_limit_small:
  assumes "memAreaValid base limit video" and "area_fits (base, limit)" and "limit > 0xfffff"
  shows "page_limit limit < 0x100000"
proof -
  have sum: "unat (base + limit) = unat base + unat limit"
    using assms(2) by (simp add: unat_word_ariths area_fits_def)
  have l: "0xfffff < unat limit" using assms(3) by (simp add: word_less_nat_alt)
  have "\<not> (base \<le> (if video then 0xc0000 else 0xa0000) \<and> base + limit > (if video then 0xc0000 else 0xa0000))"
    "\<not> (base > (if video then 0xc0000 else 0xa0000) \<and> base < 0x100000)"
    using assms(1) by (auto simp: memAreaValid_def Let_def split: if_splits)
  then have "0x100000 \<le> unat base"
    using l by (auto simp: word_less_nat_alt word_le_nat_alt sum split: if_splits)
  then have "unat limit div 4096 + 1 < 0x100000" using assms(2) by (simp add: area_fits_def)
  moreover have "unat (page_limit limit) \<le> unat limit div 4096 + 1" by (simp add: page_limit_pages)
  ultimately have "unat (page_limit limit) < 0x100000" by linarith
  then show ?thesis by (simp add: word_less_nat_alt)
qed

lemma open_segment_granted:
  assumes "open_segment pv a ty video s = (True, i, s')" and fits: "bitmap_fits s"
    and room: "free_low s \<noteq> {}" and a: "area_fits a" and present: "fst a \<noteq> NO_BASE"
  obtains n where "i = selector n" "below_kernel n" "\<not> used_bit s n"
    "descriptor_written (selector n) s s'" "segment_granted (mem s') a i"
proof -
  obtain base limit where ab: "a = (base, limit)" by fastforce
  obtain n where n: "get_free_gdt_idx s = selector n" "below_kernel n" "\<not> used_bit s n"
      "get_free_gdt_idx s \<noteq> INVALID_GDT_IDX" using get_free_low [OF room] .
  have v: "memAreaValid base limit video" using assms(1) present by (auto simp: ab split: if_splits)
  show ?thesis
  proof (cases "limit > 0xfffff")
    case True
    then have e: "i = selector n"
        "s' = write_segment_desc (selector n) (page_limit limit) base 1 pv ty 1 s"
      using assms(1) present n(1,4) v by (auto simp: ab Let_def)
    have "segment_granted (mem s') a i"
      using write_segment_desc_same [OF fits n(2) page_limit_small [OF v a [unfolded ab] True], of 1] True present
      by (simp add: e ab segment_granted_def granted_def)
    with that [OF e(1) n(2,3)] show ?thesis using segment_written e(2) by blast
  next
    case False
    then have e: "i = selector n" "s' = write_segment_desc (selector n) limit base 1 pv ty 0 s"
      using assms(1) present n(1,4) v by (auto simp: ab Let_def)
    have "limit < 0x100000" using False by (simp add: word_less_nat_alt word_le_nat_alt not_less)
    then have "segment_granted (mem s') a i"
      using write_segment_desc_same [OF fits n(2), of limit 0] False present
      by (simp add: e ab segment_granted_def granted_def)
    with that [OF e(1) n(2,3)] show ?thesis using segment_written e(2) by blast
  qed
qed

lemma open_segment_memory_only: "open_segment pv a ty video s = (ok, i, s') \<Longrightarrow> memory_only s s'"
  by (cases a) (auto simp: Let_def split: if_splits intro: written_memory_only segment_written)

lemma open_segments_memory_only: "open_segments pv rs s = (ok, is, s') \<Longrightarrow> memory_only s s'"
proof (induction pv rs s arbitrary: ok "is" s' rule: open_segments.induct)
  case (2 pv a ty video rs s)
  obtain ok1 i s1 where one: "open_segment pv a ty video s = (ok1, i, s1)" by (metis prod_cases3)
  obtain ok2 js s2 where two: "open_segments pv rs s1 = (ok2, js, s2)" by (metis prod_cases3)
  have "memory_only s s1" by (rule open_segment_memory_only [OF one])
  moreover have "ok1 \<Longrightarrow> memory_only s1 s2" using "2.IH" one two by auto
  ultimately show ?case
    using "2.prems" one two by (cases ok1) (auto intro: memory_only_trans)
qed simp

text \<open>Descriptors in use keep what they describe.\<close>

definition descriptors_kept :: "kstate \<Rightarrow> kstate \<Rightarrow> bool" where
  "descriptors_kept s s' \<longleftrightarrow> (\<forall>k. below_kernel k \<and> used_bit s k \<longrightarrow>
     used_bit s' k \<and> get_base (mem s') (selector k) = get_base (mem s) (selector k) \<and>
     get_limit (mem s') (selector k) = get_limit (mem s) (selector k))"

lemma descriptors_kept_refl [simp]: "descriptors_kept s s"
  by (simp add: descriptors_kept_def)

lemma descriptors_kept_trans: "descriptors_kept a b \<Longrightarrow> descriptors_kept b c \<Longrightarrow> descriptors_kept a c"
  unfolding descriptors_kept_def by metis

lemma written_kept:
  assumes "descriptor_written (selector n) s s'" and "bitmap_fits s" and "below_kernel n"
    and "\<not> used_bit s n"
  shows "descriptors_kept s s'"
  unfolding descriptors_kept_def
proof (intro allI impI)
  fix k assume k: "below_kernel k \<and> used_bit s k"
  then have "k \<noteq> n" using assms(4) by blast
  then show "used_bit s' k \<and> get_base (mem s') (selector k) = get_base (mem s) (selector k) \<and>
     get_limit (mem s') (selector k) = get_limit (mem s) (selector k)"
    using written_other [OF assms(1-3)] written_bits [OF assms(1-3), of k] k by (simp add: below_kernel_def)
qed

lemma kept_granted:
  assumes "descriptors_kept s s'" and "below_kernel n" and "used_bit s n"
  shows "segment_granted (mem s') a (selector n) = segment_granted (mem s) a (selector n)"
  using assms by (auto simp: descriptors_kept_def segment_granted_def)

definition opened :: "kstate \<Rightarrow> (area \<times> u32 \<times> bool) list \<Rightarrow> u32 list \<Rightarrow> kstate \<Rightarrow> bool" where
  "opened s rs is s' \<longleftrightarrow> list_all2 (\<lambda>(a, _) i. segment_granted (mem s') a i \<and>
     (fst a \<noteq> NO_BASE \<longrightarrow> (\<exists>n. i = selector n \<and> below_kernel n \<and> \<not> used_bit s n \<and> used_bit s' n))) rs is"

lemma opened_granted: "opened s rs is s' \<Longrightarrow> list_all2 (segment_granted (mem s')) (map fst rs) is"
  unfolding opened_def by (simp add: list_all2_map1) (erule list_all2_mono, auto)

lemma opened_later:
  assumes "opened s rs is s'" and "descriptors_kept s' s''"
  shows "opened s rs is s''"
  unfolding opened_def
proof (rule list_all2_mono [OF assms(1) [unfolded opened_def]], clarify)
  fix base limit ty video i
  assume g: "segment_granted (mem s') (base, limit) i"
    and n: "fst (base, limit) \<noteq> NO_BASE \<longrightarrow>
      (\<exists>n. i = selector n \<and> below_kernel n \<and> \<not> used_bit s n \<and> used_bit s' n)"
  show "segment_granted (mem s'') (base, limit) i \<and> (fst (base, limit) \<noteq> NO_BASE \<longrightarrow>
      (\<exists>n. i = selector n \<and> below_kernel n \<and> \<not> used_bit s n \<and> used_bit s'' n))"
  proof (cases "base = NO_BASE")
    case False
    then obtain n where "i = selector n" "below_kernel n" "\<not> used_bit s n" "used_bit s' n" using n by auto
    then show ?thesis using g kept_granted [OF assms(2), of n] assms(2)
      by (auto simp: descriptors_kept_def)
  qed (use g in \<open>simp add: segment_granted_def\<close>)
qed

lemma opened_earlier:
  assumes "opened s1 rs is s'" and "descriptors_kept s s1"
  shows "opened s rs is s'"
  unfolding opened_def
proof (rule list_all2_mono [OF assms(1) [unfolded opened_def]])
  have old: "\<not> used_bit s n" if "below_kernel n" "\<not> used_bit s1 n" for n
    using assms(2) that unfolding descriptors_kept_def by blast
  show "(\<lambda>(a, _) i. segment_granted (mem s') a i \<and> (fst a \<noteq> NO_BASE \<longrightarrow>
      (\<exists>n. i = selector n \<and> below_kernel n \<and> \<not> used_bit s n \<and> used_bit s' n))) r i"
    if "(\<lambda>(a, _) i. segment_granted (mem s') a i \<and> (fst a \<noteq> NO_BASE \<longrightarrow>
      (\<exists>n. i = selector n \<and> below_kernel n \<and> \<not> used_bit s1 n \<and> used_bit s' n))) r i" for r i
    using that old by (cases r) fastforce
qed

lemma open_segments_spec:
  assumes "open_segments pv rs s = (True, is, s')" and "bitmap_fits s"
    and "length rs \<le> card (free_low s)" and "\<And>a x. (a, x) \<in> set rs \<Longrightarrow> fst a = NO_BASE \<or> area_fits a"
  shows "opened s rs is s' \<and> descriptors_kept s s' \<and> card (free_low s) \<le> card (free_low s') + length rs"
  using assms
proof (induction pv rs s arbitrary: "is" s' rule: open_segments.induct)
  case (1 pv s)
  then show ?case by (simp add: opened_def)
next
  case (2 pv a ty video rs s)
  obtain ok i s1 where one: "open_segment pv a ty video s = (ok, i, s1)" by (metis prod_cases3)
  obtain ok2 js s2 where two: "open_segments pv rs s1 = (ok2, js, s2)" by (metis prod_cases3)
  have ok: "ok" "ok2" "is = i # js" "s' = s2"
    using "2.prems"(1) one two by (cases ok; simp)+
  have mo: "memory_only s s1" by (rule open_segment_memory_only [OF one])
  have fits: "bitmap_fits s1" using "2.prems"(2) memory_only_sel(3) [OF mo] by simp
  have head: "opened s [(a, ty, video)] [i] s1 \<and> descriptors_kept s s1 \<and>
      card (free_low s) \<le> Suc (card (free_low s1))"
  proof (cases "fst a = NO_BASE")
    case True
    then have "i = INVALID_GDT_IDX" "s1 = s" using one by (cases a; simp)+
    then show ?thesis using True by (simp add: opened_def segment_granted_def)
  next
    case False
    have "card (free_low s) \<noteq> 0" using "2.prems"(3) by (simp del: card_0_eq)
    then have room: "free_low s \<noteq> {}" by (metis card.empty)
    have af: "area_fits a" using "2.prems"(4) [of a "(ty, video)"] False by simp
    obtain n where n: "i = selector n" "below_kernel n" "\<not> used_bit s n"
        "descriptor_written (selector n) s s1" "segment_granted (mem s1) a i"
      using open_segment_granted [OF one [unfolded ok(1) eqTrueI [OF ok(1)]] "2.prems"(2) room af False] ok(1)
      by (metis (full_types))
    have "used_bit s1 n"
      using written_bits [OF n(4) "2.prems"(2) n(2), of n] n(2) by (simp add: below_kernel_def)
    then show ?thesis
      using n written_kept [OF n(4) "2.prems"(2) n(2,3)] card_free_low [OF n(4) "2.prems"(2) n(2)]
      by (auto simp: opened_def)
  qed
  have two': "open_segments pv rs s1 = (True, js, s')" using two ok by simp
  have room': "length rs \<le> card (free_low s1)" using head "2.prems"(3) by simp
  have areas': "\<And>b x. (b, x) \<in> set rs \<Longrightarrow> fst b = NO_BASE \<or> area_fits b"
    using "2.prems"(4) by (meson list.set_intros(2))
  have tail: "opened s1 rs js s' \<and> descriptors_kept s1 s' \<and> card (free_low s1) \<le> card (free_low s') + length rs"
    by (rule "2.IH" [OF one [symmetric] refl refl ok(1) two' fits room' areas'])
  have "opened s rs js s'"
    using opened_earlier tail head by blast
  moreover have "opened s [(a, ty, video)] [i] s'" using opened_later head tail by blast
  ultimately have "opened s ((a, ty, video) # rs) (i # js) s'" by (simp add: opened_def)
  moreover have "descriptors_kept s s'" using descriptors_kept_trans head tail by blast
  ultimately show ?case using head tail ok(3) by simp
qed

section \<open>Choosing a slot\<close>

lemma empty_slot_Some:
  assumes "set ps \<subseteq> dom (tsss s)"
  shows "\<exists>r. empty_slot s ps = Some r \<and>
    (\<forall>p. r = Some p \<longrightarrow> p \<in> set ps \<and> fld tss_state s p = EMPTY)"
  using assms
proof (induction ps)
  case (Cons p ps)
  then obtain t where "tsss s p = Some t" by auto
  then show ?case using Cons by (auto simp: fld_Some)
qed simp

lemma empty_slot_None:
  assumes "set ps \<subseteq> dom (tsss s)" and "pproctab_end s \<notin> set ps"
  shows "empty_slot s ps = Some None \<longleftrightarrow> (\<forall>p \<in> set ps. fld tss_state s p \<noteq> EMPTY)"
  using assms
proof (induction ps)
  case (Cons p ps)
  then obtain t where "tsss s p = Some t" by auto
  then show ?case using Cons by (auto simp: fld_Some)
qed simp

section \<open>The invariant\<close>

definition ticks_room :: "kstate \<Rightarrow> u32 \<Rightarrow> bool" where
  "ticks_room s ticks \<longleftrightarrow>
     (\<Sum>p \<in> set (pproctab s). unat (fld schedticks s p)) + unat ticks < 2 ^ 32"

lemma fresh_process_kinv_g:
  assumes inv: "kinv_g {} s qs L" and p: "p \<in> set (pproctab s)" and e: "fld tss_state s p = EMPTY"
    and ticks: "0 < ticks" "ticks_room s ticks" and t: "tsss s p = Some t"
    and t': "tss_state t' = 0" "schedticks t' = ticks" "tss_next t' = NULL" "tss_previous t' = NULL"
      "firstSender t' = NULL" "nextSender t' = NULL" "misc t' = misc t"
  shows "kinv_g {} (s\<lparr>tsss := (tsss s)(p \<mapsto> t')\<rparr>) qs (L(Senders p := []))" (is "kinv_g {} ?s qs ?L")
proof -
  have ids: "chain_ids ?s = chain_ids s" by (simp add: chain_ids_def)
  have dom: "dom (tsss ?s) = dom (tsss s)" using t by auto
  have nq: "p \<notin> set qs" using kinv_g_state [OF inv p] e by (auto simp: EMPTY_def)
  have nL: "p \<notin> set (L i)" if "i \<in> chain_ids s" for i
    using kinv_g_blocked [OF inv that, of p] e by (auto simp: flag_defs)
  note ci = inv [unfolded kinv_g_def sched_inv_def chain_inv_def]
  have "links_ok s" using ci by blast
  then have links: "links_ok ?s"
    using t' unfolding links_ok_def dom fld_upd by (simp add: link_ok_upd del: fun_upd_apply)
  have seg: "dlseg (fld tss_previous ?s) (fld tss_next ?s) NULL (sq_head (schedqueue s)) qs NULL"
  proof (rule dlseg_eq)
    show "dlseg (fld tss_previous s) (fld tss_next s) NULL (sq_head (schedqueue s)) qs NULL"
      using ci by blast
  qed (use nq in auto)
  have fall: "falling ?s qs"
    using ci nq unfolding falling_def by (auto intro: sorted_wrt_mono_rel [rotated])
  have sum: "map (fld schedticks ?s) qs = map (fld schedticks s) qs" using nq by auto
  have "(\<Sum>q \<in> set (pproctab s). unat (fld schedticks ?s q)) \<le>
      (\<Sum>q \<in> set (pproctab s). unat (fld schedticks s q) + (if q = p then unat ticks else 0))"
    using t' by (intro sum_mono) simp
  also have "\<dots> = (\<Sum>q \<in> set (pproctab s). unat (fld schedticks s q)) + unat ticks"
    using p by (simp add: sum.distrib)
  finally have bound: "ticks_bounded ?s" using ticks(2) by (simp add: ticks_bounded_def ticks_room_def)
  have "chain_inv ?s qs"
    unfolding chain_inv_def dom
    using ci links seg fall sum bound nq p by auto
  moreover have "flags_inv ?s qs"
  proof -
    have "enqueued t' = enqueued t" using t'(7) by (simp add: enqueued_def)
    then have "fld enqueued ?s = fld enqueued s" using t by (auto simp: fun_eq_iff fld_Some)
    moreover have "flags_inv s qs" using ci by blast
    ultimately show ?thesis unfolding flags_inv_def dom by presburger
  qed
  moreover have "chains_inv ?s ?L"
  proof (rule chains_invI)
    fix i assume "i \<in> chain_ids ?s"
    then have i: "i \<in> chain_ids s" unfolding ids .
    note old = kinv_g_chain [OF inv i]
    show "set (?L i) \<subseteq> set (pproctab ?s)" using old by (cases "i = Senders p") auto
    have head: "chain_head ?s i = (if i = Senders p then NULL else chain_head s i)"
      using t'(5) by (cases i) (auto simp: chain_head_def)
    have "fld nextSender ?s q = fld nextSender s q" if "q \<in> set (L i)" for q
      using nL [OF i] that by auto
    then have "slseg (fld nextSender ?s) (chain_head s i) (L i) NULL"
      by (intro slseg_eq [OF conjunct1 [OF old]])
    then show "slseg (fld nextSender ?s) (chain_head ?s i) (?L i) NULL" using head by simp
  next
    fix i j assume "i \<in> chain_ids ?s" "j \<in> chain_ids ?s" "i \<noteq> j"
    moreover fix q assume "q \<in> set (?L i)"
    ultimately show "q \<notin> set (?L j)"
      using kinv_g_disjoint [OF inv, of i j q] unfolding ids by (auto split: if_splits)
  qed
  moreover have "tables_inv ?s" using inv by (simp add: kinv_g_def tables_inv_def)
  moreover have "states_inv {} ?s qs ?L"
    unfolding states_inv_def ids
  proof (intro conjI ballI)
    fix q assume "q \<in> set (pproctab ?s) - {}"
    then have q: "q \<in> set (pproctab s)" by simp
    show "fld tss_state ?s q \<in> {0, EMPTY, RECEIVING, SENDING}"
      "fld tss_state ?s q \<noteq> EMPTY \<longrightarrow> 0 < fld schedticks ?s q" "q \<in> set qs \<longrightarrow> fld tss_state ?s q = 0"
      using kinv_g_state [OF inv q] t' ticks(1) by (cases "q = p"; simp)+
  next
    fix i q assume i: "i \<in> chain_ids s" and "q \<in> set (?L i) - {}"
    then have q: "q \<in> set (L i)" by (auto split: if_splits)
    then have "q \<noteq> p" using nL [OF i] by blast
    then show "q \<notin> set qs" "fld tss_state ?s q \<in> {0, SENDING}"
      using kinv_g_blocked [OF inv i q] by simp_all
  qed
  ultimately show ?thesis by (simp add: kinv_g_def sched_inv_def)
qed

section \<open>Creation succeeds or leaves the processes alone\<close>

definition names_fit :: "kstate \<Rightarrow> bool" where
  "names_fit s \<longleftrightarrow> (\<forall>p \<in> set (pproctab s). length (fld procname s p) = 18)"

text \<open>What the created process has in its task-state segment.\<close>

definition created :: "kstate \<Rightarrow> kstate \<Rightarrow> ptr \<Rightarrow> u32 \<Rightarrow> u32 \<Rightarrow> u32 \<Rightarrow> u32 \<Rightarrow> u32 list \<Rightarrow> u8 list \<Rightarrow> bool" where
  "created s s' p privilege ticks start stack is name \<longleftrightarrow> (\<exists>t i nm. tsss s p = Some t \<and>
     tsss s' = (tsss s)(p \<mapsto> process_tss i privilege ticks start stack is nm t) \<and>
     length nm = length (procname t) \<and> cstr nm = take 17 (cstr name))"

lemma create_process_cases:
  assumes tab: "set (pproctab s) \<subseteq> dom (tsss s)" and names: "names_fit s" and name: "is_cstr name"
  shows "\<exists>r s'. create_process stk pv ticks start cs ds es fs gs ss name s = Some (r, s') \<and>
    (r = NULL \<and> memory_only s s' \<or>
     r \<in> set (pproctab s) \<and> fld tss_state s r = EMPTY \<and>
     (\<exists>is s1 s2. open_segments pv (segment_requests cs ds es fs gs ss) s = (True, is, s1) \<and>
        descriptor_written (get_free_gdt_idx s1) s1 s2 \<and>
        (\<exists>m. s' = s2\<lparr>tsss := m\<rparr>) \<and> created s s' r pv ticks start (snd ss) is name))"
proof -
  obtain slot where slot: "empty_slot s (pproctab s) = Some slot"
      "\<And>p. slot = Some p \<Longrightarrow> p \<in> set (pproctab s) \<and> fld tss_state s p = EMPTY"
    using empty_slot_Some [OF tab] by blast
  show ?thesis
  proof (cases slot)
    case None
    then show ?thesis by (simp add: create_process_def slot(1))
  next
    case (Some p)
    then have p: "p \<in> set (pproctab s)" "fld tss_state s p = EMPTY" using slot(2) by auto
    obtain ok "is" s1 where o: "open_segments pv (segment_requests cs ds es fs gs ss) s = (ok, is, s1)"
      by (metis prod_cases3)
    have mo: "memory_only s s1" by (rule open_segments_memory_only [OF o])
    let ?i = "get_free_gdt_idx s1"
    show ?thesis
    proof (cases "ok \<and> ?i \<noteq> INVALID_GDT_IDX")
      case False
      then have "create_process stk pv ticks start cs ds es fs gs ss name s = Some (NULL, free_segments is s1)"
        by (auto simp: create_process_def slot(1) Some o Let_def)
      then show ?thesis using memory_only_trans [OF mo free_segments_memory_only] by blast
    next
      case True
      define s2 where "s2 = write_tss_desc ?i SIZEOF_TSS (KERNEL_BASE + p) 1 1 0 stk s1"
      have w: "descriptor_written ?i s1 s2" unfolding s2_def by (rule tss_written)
      have t2: "tsss s2 = tsss s"
        using memory_only_sel(1) [OF mo] memory_only_sel(1) [OF written_memory_only [OF w]] by simp
      obtain t where t: "tsss s p = Some t" using p(1) tab by auto
      have len: "length (procname t) = 18" using names p(1) t by (auto simp: names_fit_def fld_def)
      then obtain nm where nm: "strncpy (procname t) name 18 = Some nm" "length nm = length (procname t)"
          "cstr nm = take 17 (cstr name)"
        using strncpy_eq [of 18 "procname t" name] name by auto
      let ?t = "process_tss ?i pv ticks start (snd ss) is nm t"
      let ?s = "s2\<lparr>tsss := (tsss s)(p \<mapsto> ?t)\<rparr>"
      have "create_process stk pv ticks start cs ds es fs gs ss name s = Some (p, ?s)"
        using True t by (simp add: create_process_def slot(1) Some o Let_def nm(1) tss_upd_def t2
            flip: s2_def)
      moreover have "created s ?s p pv ticks start (snd ss) is name"
        unfolding created_def using t nm(2,3) by auto
      ultimately show ?thesis using p o w True by auto
    qed
  qed
qed

lemma process_tss_sel:
  "tss_state (process_tss i pv ticks start stack is nm t) = 0"
  "schedticks (process_tss i pv ticks start stack is nm t) = ticks"
  "tss_next (process_tss i pv ticks start stack is nm t) = NULL"
  "tss_previous (process_tss i pv ticks start stack is nm t) = NULL"
  "firstSender (process_tss i pv ticks start stack is nm t) = NULL"
  "nextSender (process_tss i pv ticks start stack is nm t) = NULL"
  "misc (process_tss i pv ticks start stack is nm t) = misc t"
  by (simp_all add: process_tss_def)

lemma create_process_kinv_g:
  assumes inv: "kinv_g {} s qs L" and names: "names_fit s" and name: "is_cstr name"
    and ticks: "0 < ticks" "ticks_room s ticks"
  shows "\<exists>r s'. create_process stk pv ticks start cs ds es fs gs ss name s = Some (r, s') \<and>
    static s' = static s \<and> curptr s' = curptr s \<and> nextptr s' = nextptr s \<and>
    (r = NULL \<and> tsss s' = tsss s \<and> kinv_g {} s' qs L \<or>
     r \<in> set (pproctab s) \<and> fld tss_state s r = EMPTY \<and> fld tss_state s' r = 0 \<and>
     fld schedticks s' r = ticks \<and> (\<forall>q. q \<noteq> r \<longrightarrow> tsss s' q = tsss s q) \<and>
     kinv_g {} s' qs (L(Senders r := [])))"
proof -
  have tab: "set (pproctab s) \<subseteq> dom (tsss s)" using kinv_g_proc(1) [OF inv] by auto
  from create_process_cases [OF tab names name, of stk pv ticks start cs ds es fs gs ss]
  obtain r s' where c: "create_process stk pv ticks start cs ds es fs gs ss name s = Some (r, s')"
    and o: "r = NULL \<and> memory_only s s' \<or> r \<in> set (pproctab s) \<and> fld tss_state s r = EMPTY \<and>
     (\<exists>is s1 s2. open_segments pv (segment_requests cs ds es fs gs ss) s = (True, is, s1) \<and>
        descriptor_written (get_free_gdt_idx s1) s1 s2 \<and>
        (\<exists>m. s' = s2\<lparr>tsss := m\<rparr>) \<and> created s s' r pv ticks start (snd ss) is name)" by blast
  from o show ?thesis
  proof
    assume "r = NULL \<and> memory_only s s'"
    then show ?thesis using c inv memory_only_sel [of s s'] by auto
  next
    assume a: "r \<in> set (pproctab s) \<and> fld tss_state s r = EMPTY \<and>
     (\<exists>is s1 s2. open_segments pv (segment_requests cs ds es fs gs ss) s = (True, is, s1) \<and>
        descriptor_written (get_free_gdt_idx s1) s1 s2 \<and>
        (\<exists>m. s' = s2\<lparr>tsss := m\<rparr>) \<and> created s s' r pv ticks start (snd ss) is name)"
    then obtain "is" s1 s2 m where d: "open_segments pv (segment_requests cs ds es fs gs ss) s = (True, is, s1)"
        "descriptor_written (get_free_gdt_idx s1) s1 s2" "s' = s2\<lparr>tsss := m\<rparr>"
        "created s s' r pv ticks start (snd ss) is name" by blast
    have mo: "memory_only s s2"
      using memory_only_trans [OF open_segments_memory_only [OF d(1)] written_memory_only [OF d(2)]] .
    obtain t i nm where t: "tsss s r = Some t"
        "tsss s' = (tsss s)(r \<mapsto> process_tss i pv ticks start (snd ss) is nm t)"
      using d(4) by (auto simp: created_def)
    let ?t = "process_tss i pv ticks start (snd ss) is nm t"
    have s': "s' = s2\<lparr>tsss := (tsss s2)(r \<mapsto> ?t)\<rparr>"
      using d(3) t(2) memory_only_sel(1) [OF mo] by simp
    have t2: "tsss s2 r = Some t" using t(1) memory_only_sel(1) [OF mo] by simp
    have "kinv_g {} s' qs (L(Senders r := []))"
      unfolding s'
    proof (rule fresh_process_kinv_g [OF _ _ _ ticks(1) _ t2])
      show "kinv_g {} s2 qs L" using inv memory_only_sel(5) [OF mo] by simp
      show "r \<in> set (pproctab s2)" "fld tss_state s2 r = EMPTY" "ticks_room s2 ticks"
        using a ticks(2) memory_only_sel [OF mo] by (simp_all add: fld_def ticks_room_def)
    qed (simp_all add: process_tss_sel)
    moreover have "static s' = static s"
      unfolding s' using static_tss [OF t2] memory_only_sel(6) [OF mo] by simp
    moreover have "curptr s' = curptr s" "nextptr s' = nextptr s"
      unfolding s' using memory_only_sel [OF mo] by simp_all
    moreover have "fld tss_state s' r = 0" "fld schedticks s' r = ticks"
      using t(2) by (simp_all add: fld_def process_tss_sel)
    ultimately show ?thesis using c a t by auto
  qed
qed

section \<open>A created process gets the memory that was asked for\<close>

lemma create_process_segments:
  assumes tab: "set (pproctab s) \<subseteq> dom (tsss s)" "NULL \<notin> set (pproctab s)" and names: "names_fit s"
    and name: "is_cstr name" and fits: "bitmap_fits s" and room: "7 \<le> card (free_low s)"
    and areas: "\<forall>a \<in> {cs, ds, es, fs, gs, ss}. fst a = NO_BASE \<or> area_fits a"
    and c: "create_process stk pv ticks start cs ds es fs gs ss name s = Some (r, s')" and r: "r \<noteq> NULL"
  shows "\<exists>is. opened s (segment_requests cs ds es fs gs ss) is s' \<and> descriptors_kept s s' \<and>
    created s s' r pv ticks start (snd ss) is name"
proof -
  from create_process_cases [OF tab(1) names name, of stk pv ticks start cs ds es fs gs ss] c r
  obtain "is" s1 s2 m where d: "open_segments pv (segment_requests cs ds es fs gs ss) s = (True, is, s1)"
      "descriptor_written (get_free_gdt_idx s1) s1 s2" "s' = s2\<lparr>tsss := m\<rparr>"
      "created s s' r pv ticks start (snd ss) is name" by auto
  have len: "length (segment_requests cs ds es fs gs ss) = 6" by (simp add: segment_requests_def)
  have ar: "fst a = NO_BASE \<or> area_fits a" if "(a, x) \<in> set (segment_requests cs ds es fs gs ss)" for a x
  proof -
    have "a \<in> {cs, ds, es, fs, gs, ss}" using that by (auto simp: segment_requests_def)
    with areas show ?thesis by (rule bspec)
  qed
  have sp: "opened s (segment_requests cs ds es fs gs ss) is s1" "descriptors_kept s s1"
      "card (free_low s) \<le> card (free_low s1) + 6"
    using open_segments_spec [OF d(1) fits _ ar] room by (simp_all add: len)
  have "card (free_low s1) \<noteq> 0" using sp(3) room by linarith
  then have "free_low s1 \<noteq> {}" by (metis card.empty)
  from get_free_low [OF this] obtain n where n: "get_free_gdt_idx s1 = selector n" "below_kernel n"
      "\<not> used_bit s1 n" by metis
  have "bitmap_fits s1" using fits memory_only_sel(3) [OF open_segments_memory_only [OF d(1)]] by simp
  from written_kept [OF d(2) [unfolded n(1)] this n(2,3)]
  have "descriptors_kept s1 s'" using d(3) by (simp add: descriptors_kept_def)
  then show ?thesis using opened_later [OF sp(1)] descriptors_kept_trans [OF sp(2)] d(4) by blast
qed

section \<open>When creation succeeds\<close>

definition area_ok :: "area \<Rightarrow> bool \<Rightarrow> bool" where
  "area_ok a video \<longleftrightarrow> fst a = NO_BASE \<or> memAreaValid (fst a) (snd a) video \<and> area_fits a"

lemma open_segment_ok:
  assumes "area_ok a video" and "bitmap_fits s" and "free_low s \<noteq> {}"
  shows "\<exists>i s'. open_segment pv a ty video s = (True, i, s') \<and> card (free_low s) \<le> Suc (card (free_low s'))"
proof (cases "fst a = NO_BASE")
  case True
  then show ?thesis by (cases a) simp
next
  case False
  obtain n where n: "get_free_gdt_idx s = selector n" "below_kernel n" "\<not> used_bit s n"
      "get_free_gdt_idx s \<noteq> INVALID_GDT_IDX" using get_free_low [OF assms(3)] .
  have v: "memAreaValid (fst a) (snd a) video" using assms(1) False by (simp add: area_ok_def)
  define s' where "s' = (if snd a > 0xfffff
      then write_segment_desc (selector n) (page_limit (snd a)) (fst a) 1 pv ty 1 s
      else write_segment_desc (selector n) (snd a) (fst a) 1 pv ty 0 s)"
  have "open_segment pv a ty video s = (True, selector n, s')"
    using n(1,4) v False by (cases a) (auto simp: s'_def Let_def)
  moreover have "descriptor_written (selector n) s s'" by (simp add: s'_def segment_written)
  ultimately show ?thesis using card_free_low [OF _ assms(2) n(2)] by blast
qed

lemma open_segments_ok:
  assumes "\<And>a ty video. (a, ty, video) \<in> set rs \<Longrightarrow> area_ok a video" and "bitmap_fits s"
    and "length rs \<le> card (free_low s)"
  shows "\<exists>is s'. open_segments pv rs s = (True, is, s')"
  using assms
proof (induction rs arbitrary: s)
  case (Cons r rs)
  obtain a ty video where r: "r = (a, ty, video)" by (metis prod_cases3)
  have "card (free_low s) \<noteq> 0" using Cons.prems(3) by (simp del: card_0_eq)
  then have ne: "free_low s \<noteq> {}" by (metis card.empty)
  have "area_ok a video" using Cons.prems(1) [of a ty video] by (simp add: r)
  from open_segment_ok [OF this Cons.prems(2) ne, of pv ty] obtain i s1 where
    o: "open_segment pv a ty video s = (True, i, s1)" "card (free_low s) \<le> Suc (card (free_low s1))"
    by blast
  have "bitmap_fits s1" using memory_only_sel(3) [OF open_segment_memory_only [OF o(1)]] Cons.prems(2) by simp
  moreover have "length rs \<le> card (free_low s1)" using o(2) Cons.prems(3) by simp
  ultimately have "\<exists>is s'. open_segments pv rs s1 = (True, is, s')"
    using Cons.prems(1) by (intro Cons.IH) auto
  then show ?case using o(1) by (auto simp: r)
qed simp

lemma create_process_succeeds:
  assumes tab: "set (pproctab s) \<subseteq> dom (tsss s)" "NULL \<notin> set (pproctab s)"
      "pproctab_end s \<notin> set (pproctab s)"
    and slot: "\<exists>p \<in> set (pproctab s). fld tss_state s p = EMPTY"
    and names: "names_fit s" and name: "is_cstr name" and fits: "bitmap_fits s"
    and room: "7 \<le> card (free_low s)"
    and areas: "\<forall>a \<in> {cs, ds, es, fs, ss}. area_ok a False" "area_ok gs True"
  shows "\<exists>r s'. create_process stk pv ticks start cs ds es fs gs ss name s = Some (r, s') \<and> r \<noteq> NULL"
proof -
  let ?rs = "segment_requests cs ds es fs gs ss"
  have len: "length ?rs = 6" by (simp add: segment_requests_def)
  have ok: "area_ok a video" if "(a, ty, video) \<in> set ?rs" for a ty video
    using that areas by (fastforce simp: segment_requests_def)
  obtain "is" s1 where o: "open_segments pv ?rs s = (True, is, s1)"
    using open_segments_ok [OF ok fits] room len by fastforce
  have ar: "fst a = NO_BASE \<or> area_fits a" if "(a, x) \<in> set ?rs" for a x
    using ok [of a "fst x" "snd x"] that by (simp add: area_ok_def) blast
  have "card (free_low s) \<le> card (free_low s1) + 6"
    using open_segments_spec [OF o fits _ ar] room by (simp add: len)
  then have "card (free_low s1) \<noteq> 0" using room by linarith
  then have "free_low s1 \<noteq> {}" by (metis card.empty)
  from get_free_low [OF this] have i: "get_free_gdt_idx s1 \<noteq> INVALID_GDT_IDX" by blast
  have "empty_slot s (pproctab s) \<noteq> Some None" using empty_slot_None [OF tab(1,3)] slot by blast
  then obtain p where p: "empty_slot s (pproctab s) = Some (Some p)" "p \<in> set (pproctab s)"
    using empty_slot_Some [OF tab(1)] by (metis not_None_eq)
  obtain r s' where c: "create_process stk pv ticks start cs ds es fs gs ss name s = Some (r, s')"
    using create_process_cases [OF tab(1) names name] by blast
  have "r = p" using c i by (auto simp: create_process_def p(1) o Let_def split: bind_splits)
  then show ?thesis using c p(2) tab(2) by auto
qed

end
