(* ===== verification/MK_Process_Props.thy ===== *)
theory MK_Process_Props
  imports MK_Process MK_Memory_Props
begin

text \<open>
  The properties of process creation, each with its instance on the sample machine, whose free
  slot is \<open>pD\<close>.
\<close>

section \<open>The sample machine\<close>

abbreviation flat :: area where "flat \<equiv> (0x300000, 0x123456)"
abbreviation screen :: area where "screen \<equiv> (0xb8000, 4096)"




section \<open>Memory areas and limits\<close>

text \<open>
  C16: an area that does not run over the end of the address space is accepted exactly when it has
  no byte between \<open>0xa0000\<close> (\<open>0xc0000\<close> for the video segment, which may include the screen) and
  \<open>0xfffff\<close>.
\<close>

theorem accepted_areas:
  assumes "area_fits (base, limit)" and "0 < limit"
  shows "memAreaValid base limit video \<longleftrightarrow>
    \<not> (\<exists>a. unat base \<le> a \<and> a < unat base + unat limit \<and>
         (if video then 0xc0000 else 0xa0000) \<le> a \<and> a < 0x100000)"
proof -
  define lb :: u32 where "lb = (if video then 0xc0000 else 0xa0000)"
  have u: "unat lb = (if video then 0xc0000 else 0xa0000)" by (simp add: lb_def)
  have sum: "unat (base + limit) = unat base + unat limit"
    using assms(1) by (simp add: area_fits_def unat_word_ariths)
  have l: "0 < unat limit" using assms(2) by (simp add: word_less_nat_alt)
  have "memAreaValid base limit video \<longleftrightarrow> \<not> (base > lb \<and> base < 0x100000) \<and> \<not> (base \<le> lb \<and> base + limit > lb)"
    unfolding memAreaValid_def lb_def [symmetric] Let_def by auto
  also have "\<dots> \<longleftrightarrow> \<not> (unat lb < unat base \<and> unat base < 0x100000) \<and>
      \<not> (unat base \<le> unat lb \<and> unat lb < unat base + unat limit)"
    by (simp add: word_less_nat_alt word_le_nat_alt sum)
  also have "\<dots> \<longleftrightarrow> \<not> (\<exists>a. unat base \<le> a \<and> a < unat base + unat limit \<and> unat lb \<le> a \<and> a < 0x100000)"
    (is "?L = (\<not> ?E)")
  proof
    assume ?L
    then show "\<not> ?E" by linarith
  next
    assume ne: "\<not> ?E"
    have "unat lb < 0x100000" by (simp add: u)
    then show ?L using ne l by (metis le_add1 le_refl less_imp_le_nat nat_less_le less_add_same_cancel1)
  qed
  finally show ?thesis unfolding u .
qed

theorem accepted_areas_witness:
  "memAreaValid 0x100000 0x1000 False \<and> \<not> memAreaValid 0xb8000 4096 False \<and> memAreaValid 0xb8000 4096 True"
proof -
  have f: "area_fits (0x100000, 0x1000)" "area_fits (0xb8000, 4096)" by (simp_all add: area_fits_def)
  have "\<not> (\<exists>a::nat. 0x100000 \<le> a \<and> a < 0x101000 \<and> 0xa0000 \<le> a \<and> a < 0x100000)" by linarith
  then have "memAreaValid 0x100000 0x1000 False" using accepted_areas [OF f(1), of False] by simp
  moreover have "\<exists>a::nat. 0xb8000 \<le> a \<and> a < 0xb9000 \<and> 0xa0000 \<le> a \<and> a < 0x100000"
    by (intro exI [of _ "0xb8000"]) simp
  then have "\<not> memAreaValid 0xb8000 4096 False" using accepted_areas [OF f(2), of False] by simp
  moreover have "\<not> (\<exists>a::nat. 0xb8000 \<le> a \<and> a < 0xb9000 \<and> 0xc0000 \<le> a \<and> a < 0x100000)" by linarith
  then have "memAreaValid 0xb8000 4096 True" using accepted_areas [OF f(2), of True] by simp
  ultimately show ?thesis by blast
qed

text \<open>
  The number of pages computed for a large segment covers the requested bytes except when the
  limit is a multiple of 1024 and not of 4096; then the last, incomplete page is missing.
\<close>

theorem page_limit_coverage:
  "unat l \<le> 4096 * unat (page_limit l) \<longleftrightarrow> \<not> (unat l mod 1024 = 0 \<and> unat l mod 4096 \<noteq> 0)"
proof -
  define q x where "q = unat l div 4096" and "x = unat l mod 4096"
  have d: "unat l = 4096 * q + x" by (simp add: q_def x_def)
  have m: "x < 4096" by (simp add: x_def)
  have "unat l mod 4096 mod 1024 = unat l mod 1024" by (rule mod_mod_cancel) simp
  then have z: "x = 0 \<Longrightarrow> unat l mod 1024 = 0" by (simp add: x_def)
  show ?thesis
    unfolding page_limit_pages q_def [symmetric] x_def [symmetric] using d m z by (cases "x = 0") simp_all
qed

section \<open>Creation\<close>





text \<open>
  When every slot of the process table is taken, creation returns \<open>NULL\<close> and changes nothing.
\<close>

theorem create_process_full_table:
  assumes "set (pproctab s) \<subseteq> dom (tsss s)" and "\<forall>p \<in> set (pproctab s). fld tss_state s p \<noteq> EMPTY"
  shows "create_process stk pv ticks start cs ds es fs gs ss name s = Some (NULL, s)"
proof -
  obtain r where r: "empty_slot s (pproctab s) = Some r"
      "\<forall>p. r = Some p \<longrightarrow> p \<in> set (pproctab s) \<and> fld tss_state s p = EMPTY"
    using empty_slot_Some [OF assms(1)] by blast
  then have "r = None" using assms(2) by (cases r) auto
  then show ?thesis using r(1) by (simp add: create_process_def)
qed

theorem create_process_full_table_witness:
  "create_process 0 3 1 0 flat flat flat flat screen flat [0] (sample\<lparr>pproctab := [pA, pB, pC]\<rparr>) =
     Some (NULL, sample\<lparr>pproctab := [pA, pB, pC]\<rparr>)"
  by (rule create_process_full_table) (auto simp: fld_def sample_tss_defs EMPTY_def)

end
