(* ===== verification/MK_Usrlib_Props.thy ===== *)
theory MK_Usrlib_Props
  imports MK_Text MK_Delivery
begin

text \<open>
  The properties of the user library, each with an instance.
\<close>

definition logging :: "(u8 list \<times> bool) list sender" where
  "logging w m b = (0, w @ [(m, b)])"

text \<open>
  C37: \<open>outf\<close> returns, and when the text that its format and arguments stand for fits into one
  message it sends exactly this text with its final zero, once, with the caller's choice of
  blocking, and gives the caller the result of that send.
\<close>

theorem outf_sends_text:
  assumes "is_cstr fmt" and "render (cstr fmt) vl = Some out" and "length out < 1920"
    and "length msg = 1921"
  shows "outf send msg block fmt vl w = Some (send w (out @ [0]) block)"
  using outf_loop_eq [of fmt 0 vl out 0 msg send block w] assms by (simp add: outf_def)

theorem outf_sends_text_witness:
  "outf logging (replicate 1921 7) True (bytes_of ''a%ub%xc'' @ [0]) [10, 255] [] =
     Some (0, [(bytes_of ''a10b0xFFc'' @ [0], True)])"
proof -
  have f: "cstr (bytes_of ''a%ub%xc'' @ [0]) = bytes_of ''a%ub%xc''" "is_cstr (bytes_of ''a%ub%xc'' @ [0])"
    by (simp_all add: cstr_def is_cstr_def bytes_of_def)
  have "numeral_text dec_digit 10 10 = [49, 48]"
    by (subst numeral_text.simps, subst numeral_text.simps) (simp add: dec_digit_def)
  moreover have "numeral_text hexa_digit 16 255 = [70, 70]"
    by (subst numeral_text.simps, subst numeral_text.simps) (simp add: hexa_digit_def)
  ultimately have t: "dec_text 10 = [49, 48]" "hex_text 255 = [70, 70]"
    by (simp_all add: dec_text_def hex_text_def)
  have r: "render (bytes_of ''a%ub%xc'') [10, 255] = Some (bytes_of ''a10b0xFFc'')"
    using t by (simp add: bytes_of_def conv_char_def conv_text_def)
  have l: "length (bytes_of ''a10b0xFFc'') < 1920" by (simp add: bytes_of_def)
  have "outf logging (replicate 1921 7) True (bytes_of ''a%ub%xc'' @ [0]) [10, 255] [] =
      Some (logging [] (bytes_of ''a10b0xFFc'' @ [0]) True)"
  proof (rule outf_sends_text)
    show "render (cstr (bytes_of ''a%ub%xc'' @ [0])) [10, 255] = Some (bytes_of ''a10b0xFFc'')"
      unfolding f(1) by (rule r)
  qed (rule f(2) l length_replicate)+
  then show ?thesis unfolding logging_def append_Nil .
qed

text \<open>
  C38: the decimal and the hexadecimal text of a number read back as the number, whatever the
  buffer held; the routines stay inside a buffer of 15 bytes and end the text with a zero.
\<close>

theorem number_text_roundtrip:
  assumes "length buf = 15"
  shows "(\<exists>b. uint2String w 0 buf 15 = Some b \<and> length b = 15 \<and> is_cstr b \<and>
      numeral_value (\<lambda>c. unat (c - chr CHR ''0'')) 10 (cstr b) = unat w) \<and>
    (\<exists>b. hex2String w buf 15 = Some b \<and> length b = 15 \<and> is_cstr b \<and>
      numeral_value (\<lambda>c. if c \<le> chr CHR ''9'' then unat (c - chr CHR ''0'') else unat (c - chr CHR ''A'') + 10)
        16 (drop 2 (cstr b)) = unat w)"
proof
  have d: "unat (dec_digit k - chr CHR ''0'') = k" if "k < 10" for k
    using that by (simp add: dec_digit_def unat_of_nat take_bit_nat_eq_self)
  obtain b where "uint2String w 0 buf 15 = Some b" "length b = 15" "is_cstr b" "cstr b = dec_text w"
    using uint2String_eq [of 0 buf 15 w] assms by auto
  then show "\<exists>b. uint2String w 0 buf 15 = Some b \<and> length b = 15 \<and> is_cstr b \<and>
      numeral_value (\<lambda>c. unat (c - chr CHR ''0'')) 10 (cstr b) = unat w"
    using d by (simp add: dec_text_def numeral_value_text)
  have h: "(if hexa_digit k \<le> chr CHR ''9'' then unat (hexa_digit k - chr CHR ''0'')
      else unat (hexa_digit k - chr CHR ''A'') + 10) = k" if k: "k < 16" for k
    using below_16 [OF k] by (elim below_cases) (simp_all add: hexa_digit_def)
  obtain b where "hex2String w buf 15 = Some b" "length b = 15" "is_cstr b"
      "cstr b = [chr CHR ''0'', chr CHR ''x''] @ hex_text w"
    using hex2String_eq [of 15 buf w] assms by auto
  then show "\<exists>b. hex2String w buf 15 = Some b \<and> length b = 15 \<and> is_cstr b \<and>
      numeral_value (\<lambda>c. if c \<le> chr CHR ''9'' then unat (c - chr CHR ''0'') else unat (c - chr CHR ''A'') + 10)
        16 (drop 2 (cstr b)) = unat w"
    using numeral_value_text [OF h, where n = "unat w"] by (simp add: hex_text_def)
qed

theorem number_text_roundtrip_witness:
  "\<exists>b. uint2String 4294967295 0 (replicate 15 0) 15 = Some b \<and>
     numeral_value (\<lambda>c. unat (c - chr CHR ''0'')) 10 (cstr b) = 4294967295"
  using number_text_roundtrip [of "replicate 15 0" 4294967295] by auto

text \<open>
  \<open>strncpy\<close> leaves the first \<open>num - 1\<close> characters of the source in the destination, always
  with a final zero, and does not touch the destination behind its \<open>num\<close> bytes.
\<close>

theorem strncpy_truncates:
  assumes "0 < num" and "num \<le> length dst" and "is_cstr src"
  shows "\<exists>d. strncpy dst src num = Some d \<and> length d = length dst \<and>
    cstr d = take (num - 1) (cstr src) \<and> drop num d = drop num dst"
  by (rule strncpy_eq [OF assms])

theorem strncpy_truncates_witness:
  "\<exists>d. strncpy [9, 9, 9, 9, 9, 9] (bytes_of ''kernel'' @ [0]) 4 = Some d \<and> cstr d = bytes_of ''ker'' \<and> drop 4 d = [9, 9]"
proof -
  have "is_cstr (bytes_of ''kernel'' @ [0])" "cstr (bytes_of ''kernel'' @ [0]) = bytes_of ''kernel''"
    by (simp_all add: cstr_def is_cstr_def bytes_of_def)
  then show ?thesis
    using strncpy_truncates [of 4 "[9, 9, 9, 9, 9, 9]" "bytes_of ''kernel'' @ [0]"] by (auto simp: bytes_of_def)
qed

text \<open>
  \<open>strlen\<close> gives the length of the string and \<open>streq\<close> decides the equality of two strings,
  whatever follows them in their buffers.
\<close>

theorem string_comparison:
  assumes "is_cstr a" and "is_cstr b"
  shows "strlen a = Some (of_nat (length (cstr a))) \<and> streq a b = Some (cstr a = cstr b)"
  by (simp add: strlen_eq [OF assms(1)] streq_eq [OF assms])

theorem string_comparison_witness:
  "streq [104, 100, 0, 1] [104, 100, 0, 2] = Some True \<and> strlen [104, 100, 0, 1] = Some 2"
  using string_comparison [of "[104, 100, 0, 1]" "[104, 100, 0, 2]"] by (simp add: is_cstr_def cstr_def)

text \<open>
  Every result from OK down to NOTATA has its own text; the result INVALIDADDRESS, which the
  kernel returns for a bad address, has none.
\<close>

theorem error_texts:
  "map (\<lambda>k. err2String (- of_nat k)) [0..<14] = error_strings \<and> distinct error_strings \<and>
   err2String NOTATA = ''not an ATA device'' \<and> err2String INVALIDADDRESS = ''impossible error''"
proof (intro conjI)
  show "map (\<lambda>k. err2String (- of_nat k)) [0..<14] = error_strings"
  proof (rule nth_equalityI)
    fix k assume "k < length (map (\<lambda>k. err2String (- of_nat k)) [0..<14])"
    then have k: "k < 14" by simp
    then have "k < 16" by simp
    from below_16 [OF this] k have "err2String (- of_nat k) = error_strings ! k"
      by (elim below_cases) (simp_all add: err2String_def error_strings_def word_sless_alt word_le_nat_alt)
    then show "map (\<lambda>k. err2String (- of_nat k)) [0..<14] ! k = error_strings ! k"
      using k by (simp del: upt_rec_numeral)
  qed (simp add: error_strings_def)
qed (simp_all add: err2String_def error_strings_def err_defs word_sless_alt)



end
