(* ===== verification/MK_Console.thy ===== *)
theory MK_Console
  imports MK_Process
begin

text \<open>
  What the kernel prints on its console (\<open>uptime\<close>, \<open>show_queue\<close>, \<open>show_tss\<close>, \<open>do_exception\<close>),
  the search for storage controllers on the PCI bus, and the small helpers of
  \<^verbatim>\<open>kernel/utilities_C.c\<close>.  The console is the list of what was printed, oldest first; how the
  assembly routines of \<^verbatim>\<open>kernel/video.hla\<close> draw it is not modelled.
\<close>

section \<open>Printing\<close>

abbreviation (input) LF :: u8 where "LF \<equiv> 10"

definition kputs :: "kout list \<Rightarrow> kstate \<Rightarrow> kstate" where
  "kputs ks s = s\<lparr>console := console s @ ks\<rparr>"

text \<open>A name is printed up to its zero; without one the routine runs out of the array.\<close>

definition kputname :: "u8 list \<Rightarrow> kstate \<Rightarrow> kstate option" where
  "kputname nm s = (if is_cstr nm then Some (kputs [KBytes (cstr nm)] s) else None)"

definition uptime :: "kstate \<Rightarrow> kstate" where
  "uptime s = kputs [KUnsint (hours s), KString '' hours '', KUnsint (ucast (minutes s)),
     KString '' minutes '', KUnsint (ucast (seconds s)), KString '' seconds.'', KChar LF] s"

partial_function (option) show_queue_loop :: "ptr \<Rightarrow> kstate \<Rightarrow> kstate option" where
  "show_queue_loop cur s =
     (if cur \<noteq> NULL then do {
        t \<leftarrow> tsss s cur;
        s \<leftarrow> kputname (procname t) (kputs [KString ''process ''] s);
        show_queue_loop (tss_next t) (kputs [KString '' ''] s)
      }
      else Some s)"

definition show_queue :: "kstate \<Rightarrow> kstate option" where
  "show_queue s = do {
     let s = kputs [KString ''showing q'', KChar LF] s;
     s \<leftarrow> show_queue_loop (sq_head (schedqueue s)) s;
     Some (kputs [KChar LF] s)
   }"

definition show_tss :: "ptr \<Rightarrow> kstate \<Rightarrow> kstate option" where
  "show_tss p s = do {
     t \<leftarrow> tsss s p;
     Some (kputs [
     KString ''backlink: '', KHex (ucast (backlink t)), KChar LF,
     KString ''interrupts: '', KHex (ucast (interrupts t)), KChar 32,
     KString ''esp0: '', KHex (esp0 t), KChar LF,
     KString ''ss0: '', KHex (ucast (ss0 t)), KChar 32,
     KString ''zeroes2: '', KHex (ucast (zeroes2 t)), KChar LF,
     KString ''schedticks: '', KHex (schedticks t), KChar 32,
     KString ''state: '', KHex (ucast (tss_state t)), KChar LF,
     KString ''misc: '', KHex (ucast (misc t)), KChar 32,
     KString ''zeroes3: '', KHex (ucast (zeroes3 t)), KChar LF,
     KString ''ticksleft: '', KHex (ticksleft t), KChar 32,
     KString ''pid: '', KHex (ucast (pid t)), KChar LF,
     KString ''zeroes4: '', KHex (ucast (zeroes4 t)), KChar 32,
     KString ''cr3_reg: '', KHex (cr3_reg t), KChar LF,
     KString ''eip_reg: '', KHex (eip_reg t), KChar 32,
     KString ''eflag_reg: '', KHex (eflag_reg t), KChar LF,
     KString ''eax_reg: '', KHex (eax_reg t), KChar 32,
     KString ''ecx_reg: '', KHex (ecx_reg t), KChar LF,
     KString ''edx_reg: '', KHex (edx_reg t), KChar 32,
     KString ''ebx_reg: '', KHex (ebx_reg t), KChar LF,
     KString ''esp_reg: '', KHex (esp_reg t), KChar 32,
     KString ''ebp_reg: '', KHex (ebp_reg t), KChar LF,
     KString ''esi_reg: '', KHex (esi_reg t), KChar 32,
     KString ''edi_reg: '', KHex (edi_reg t), KChar LF,
     KString ''es_reg: '', KHex (ucast (es_reg t)), KChar 32,
     KString ''zeroes5: '', KHex (ucast (zeroes5 t)), KChar LF,
     KString ''cs_reg: '', KHex (ucast (cs_reg t)), KChar 32,
     KString ''zeroes6: '', KHex (ucast (zeroes6 t)), KChar LF,
     KString ''ss_reg: '', KHex (ucast (ss_reg t)), KChar 32,
     KString ''zeroes7: '', KHex (ucast (zeroes7 t)), KChar LF,
     KString ''ds_reg: '', KHex (ucast (ds_reg t)), KChar 32,
     KString ''zeroes8: '', KHex (ucast (zeroes8 t)), KChar LF,
     KString ''fs_reg: '', KHex (ucast (fs_reg t)), KChar 32,
     KString ''zeroes9: '', KHex (ucast (zeroes9 t)), KChar LF,
     KString ''gs_reg: '', KHex (ucast (gs_reg t)), KChar 32,
     KString ''zeroes10: '', KHex (ucast (zeroes10 t)), KChar LF,
     KString ''ldt_sel: '', KHex (ucast (ldt_sel t)), KChar 32,
     KString ''zeroes11: '', KHex (ucast (zeroes11 t)), KChar LF,
     KString ''debug: '', KHex (ucast (debug t)), KChar 32,
     KString ''iomap_base: '', KHex (ucast (iomap_base t)), KChar 32,
     KString ''next: '', KHex (tss_next t), KChar LF,
     KString ''idx_tss: '', KHex (ucast (idx_tss t)), KChar 32,
     KString ''callMask: '', KHex (callMask t), KChar LF,
     KString ''previous: '', KHex (tss_previous t), KChar 32,
     KString ''firstSender: '', KHex (firstSender t), KChar LF,
     KString ''nextSender: '', KHex (nextSender t), KChar 32,
     KString ''receivingFrom: '', KHex (receivingFrom t), KChar LF] s)
   }"

text \<open>The state in which the machine halts.\<close>

definition do_exception :: "u32 \<Rightarrow> u32 \<Rightarrow> kstate \<Rightarrow> kstate option" where
  "do_exception number error s = do {
     let s = kputs [KString ''exception: '', KHex number, KChar LF] s;
     let s = kputs [KString ''error: '', KHex error, KChar LF] s;
     let s = kputs [KString ''flag: '', KUnsint (flag s), KChar LF] s;
     t \<leftarrow> tsss s (curptr s);
     s \<leftarrow> kputname (procname t) (kputs [KString ''curptr->procname: ''] s);
     let s = kputs [KChar LF] s;
     let s = kputs [KString ''curptr->eip: '', KUnsint (eip_reg t), KChar LF] s;
     let s = kputs [KString ''curptr->eip: (hex)'', KHex (eip_reg t), KChar LF] s;
     let s = kputs [KString ''curptr->esp: '', KUnsint (esp_reg t), KChar LF] s;
     let s = kputs [KString ''curptr->esp: (hex)'', KHex (esp_reg t), KChar LF] s;
     let s = kputs [KString ''in_kernel: '', KHex (in_kernel s), KChar LF] s;
     show_queue s
   }"

section \<open>The PCI bus\<close>

text \<open>
  \<open>indw\<close> reads sixteen bits, like \<open>inw\<close>; a configuration address is written with \<open>outw\<close>, which
  puts the low sixteen bits of it on the bus.
\<close>

definition indw :: "device \<Rightarrow> u32 \<Rightarrow> kstate \<Rightarrow> u32 \<times> kstate" where
  "indw dev port s =
     (let v = ucast (dev (io_trace s) port)
      in (v, s\<lparr>io_trace := io_trace s @ [InW port v]\<rparr>))"

definition pciConfigReadDWord :: "device \<Rightarrow> u16 \<Rightarrow> u16 \<Rightarrow> u16 \<Rightarrow> u16 \<Rightarrow> kstate \<Rightarrow> u16 \<times> kstate" where
  "pciConfigReadDWord dev bus slot func off s =
     (let lbus = ucast bus :: u32; lslot = ucast slot; lfunc = ucast func;
          address = push_bit 16 lbus OR push_bit 11 lslot OR push_bit 8 lfunc OR
            (ucast off AND 0xfc) OR 0x80000000;
          s = outw 0xCF8 address s;
          (v, s) = indw dev 0xCFC s
      in (ucast v, s))"

definition device_present :: "device \<Rightarrow> u32 \<Rightarrow> u32 \<Rightarrow> kstate \<Rightarrow> bool \<times> kstate" where
  "device_present dev bus slot s =
     (let (v, s) = pciConfigReadDWord dev (ucast bus) (ucast slot) 0 0 s in (v \<noteq> 0xffff, s))"

definition get_class_code :: "device \<Rightarrow> u32 \<Rightarrow> u32 \<Rightarrow> kstate \<Rightarrow> u8 \<times> kstate" where
  "get_class_code dev bus slot s =
     (let (v, s) = pciConfigReadDWord dev (ucast bus) (ucast slot) 0 8 s;
          reg = ucast v :: u32
      in (ucast (drop_bit 24 reg), s))"

definition get_subclass :: "device \<Rightarrow> u32 \<Rightarrow> u32 \<Rightarrow> kstate \<Rightarrow> u8 \<times> kstate" where
  "get_subclass dev bus slot s =
     (let (v, s) = pciConfigReadDWord dev (ucast bus) (ucast slot) 0 8 s;
          reg = ucast v :: u32
      in (ucast (drop_bit 16 reg), s))"

text \<open>The body of the inner loop for the device \<open>j\<close> of the bus \<open>i\<close>.\<close>

definition probe :: "device \<Rightarrow> nat \<Rightarrow> nat \<Rightarrow> kstate \<Rightarrow> kstate" where
  "probe dev i j s =
     (let (present, s) = device_present dev (of_nat i) (of_nat j) s
      in if \<not> present then kputs [KString ''no device'', KChar LF] s
      else let (class_code, s) = get_class_code dev (of_nat i) (of_nat j) s
      in if class_code \<noteq> 0x01 then kputs [KString ''wrong class code'', KChar LF] s
      else let (sub_class, s) = get_subclass dev (of_nat i) (of_nat j) s
      in if sub_class \<noteq> 0x05 then kputs [KString ''wrong subclass'', KChar LF] s
      else kputs [KString ''found ATA controller'', KChar LF] s)"

text \<open>The state in which the machine halts after 256 busses of 32 devices.\<close>

definition enumeratePci :: "device \<Rightarrow> kstate \<Rightarrow> kstate" where
  "enumeratePci dev = fold (\<lambda>i. fold (\<lambda>j. probe dev i j) [0..<32]) [0..<256]"

section \<open>Helpers\<close>

fun init_accessers_loop :: "nat \<Rightarrow> (u32 \<Rightarrow> ptr) \<Rightarrow> u32 \<Rightarrow> ptr" where
  "init_accessers_loop 0 acc = acc"
| "init_accessers_loop (Suc n) acc = (init_accessers_loop n acc)(of_nat n := NULL)"

definition init_port_accessers :: "kstate \<Rightarrow> kstate" where
  "init_port_accessers s = s\<lparr>port_accessers := init_accessers_loop 65536 (port_accessers s)\<rparr>"

function zerify_loop :: "u32 \<Rightarrow> u32 \<Rightarrow> u32 \<Rightarrow> memory \<Rightarrow> memory" where
  "zerify_loop address num i m =
     (if i < num then zerify_loop address num (i + 1) (m(address + i := 0)) else m)"
  by pat_completeness auto

termination zerify_loop
proof (relation "measure (\<lambda>(address, num, i, m). unat (num - i))")
  fix address num i :: u32 and m :: memory
  assume "i < num"
  then have "num - i \<noteq> 0" by auto
  then have "unat (num - i - 1) < unat (num - i)" by (simp add: unat_minus_one unat_gt_0)
  then show "((address, num, i + 1, m(address + i := 0)), (address, num, i, m))
      \<in> measure (\<lambda>(address, num, i, m). unat (num - i))"
    by (simp add: diff_diff_eq)
qed simp

declare zerify_loop.simps [simp del]

definition zerify :: "u32 \<Rightarrow> u32 \<Rightarrow> memory \<Rightarrow> memory" where
  "zerify address num = zerify_loop address num 0"

function prime_loop :: "u32 \<Rightarrow> u32 \<Rightarrow> u32" where
  "prime_loop what i =
     (if i < what then if what mod i = 0 then 1 else prime_loop what (i + 1) else 0)"
  by pat_completeness auto

termination prime_loop
proof (relation "measure (\<lambda>(what, i). unat (what - i))")
  fix what i :: u32
  assume "i < what"
  then have "what - i \<noteq> 0" by auto
  then have "unat (what - i - 1) < unat (what - i)" by (simp add: unat_minus_one unat_gt_0)
  then show "((what, i + 1), (what, i)) \<in> measure (\<lambda>(what, i). unat (what - i))"
    by (simp add: diff_diff_eq)
qed simp

declare prime_loop.simps [simp del]

definition isPrimeNumber :: "u32 \<Rightarrow> u32" where
  "isPrimeNumber what = prime_loop what 2"

text \<open>
  The table that gives for an interrupt the task that handles it; its entry 10 is the task of
  the clock.  \<open>intrrptstate\<close> holds the addresses of the tasks \<open>intrrpt0state\<close> to \<open>intrrpt15state\<close>.
\<close>

definition interrupt_states :: "kstate \<Rightarrow> ptr list" where
  "interrupt_states s = map (\<lambda>i. intrrptstate s ! i) [0, 1, 2, 3, 4, 5, 6, 7, 8, 9, 0, 11, 12, 13, 14, 15]"

section \<open>What they do\<close>

lemma kputs_sel [simp]:
  "tsss (kputs ks s) = tsss s" "schedqueue (kputs ks s) = schedqueue s"
  "console (kputs ks s) = console s @ ks" "kputs ks' (kputs ks s) = kputs (ks @ ks') s"
  by (simp_all add: kputs_def)

lemma kputs_id [simp]: "kputs [] s = s"
  by (simp add: kputs_def)

definition queue_line :: "kstate \<Rightarrow> ptr list \<Rightarrow> kout list" where
  "queue_line s qs =
     concat (map (\<lambda>p. [KString ''process '', KBytes (cstr (fld procname s p)), KString '' '']) qs)"

lemma show_queue_loop_eq:
  assumes "dlseg pv (fld tss_next s) a cur qs NULL" and "set qs \<subseteq> dom (tsss s)"
    and "\<forall>p \<in> set qs. is_cstr (fld procname s p)"
  shows "show_queue_loop cur (kputs ks s) = Some (kputs (ks @ queue_line s qs) s)"
  using assms
proof (induction qs arbitrary: a cur ks)
  case Nil
  then show ?case by (subst show_queue_loop.simps) (simp add: queue_line_def)
next
  case (Cons q qs)
  obtain t where t: "tsss s q = Some t" using Cons.prems(2) by auto
  have c: "cur = q" "q \<noteq> NULL" "dlseg pv (fld tss_next s) q (tss_next t) qs NULL"
    using Cons.prems(1) t by (auto simp: fld_Some)
  have nm: "is_cstr (procname t)" using Cons.prems(3) t by (auto simp: fld_def)
  have "show_queue_loop (tss_next t)
      (kputs (ks @ [KString ''process '', KBytes (cstr (procname t)), KString '' '']) s) =
      Some (kputs ((ks @ [KString ''process '', KBytes (cstr (procname t)), KString '' '']) @ queue_line s qs) s)"
    using Cons.prems by (intro Cons.IH [OF c(3)]) auto
  then show ?case
    using c t nm by (subst show_queue_loop.simps) (simp add: kputname_def queue_line_def fld_def)
qed

lemma show_queue_eq:
  assumes "chain_inv s qs" and "\<forall>p \<in> set qs. is_cstr (fld procname s p)"
  shows "show_queue s = Some (kputs ([KString ''showing q'', KChar 10] @ queue_line s qs @ [KChar 10]) s)"
proof -
  have "dlseg (fld tss_previous s) (fld tss_next s) NULL (sq_head (schedqueue s)) qs NULL"
      "set qs \<subseteq> dom (tsss s)" using assms(1) by (auto simp: chain_inv_def)
  from show_queue_loop_eq [OF this assms(2)] show ?thesis by (simp add: show_queue_def)
qed

text \<open>The class code is shifted out of a number of sixteen bits.\<close>

lemma class_code_zero: "fst (get_class_code dev bus slot s) = 0"
proof -
  have "(ucast (drop_bit 24 (ucast v :: u32)) :: u8) = 0" for v :: u16
    by (rule bit_word_eqI) (auto simp: bit_simps dest: bit_imp_le_length)
  then show ?thesis by (simp add: get_class_code_def split: prod.splits)
qed

lemma pci_console: "console (snd (pciConfigReadDWord dev b sl f o' s)) = console s"
  by (simp add: pciConfigReadDWord_def Let_def outw_def indw_def)

lemma probe_console:
  "console (probe dev i j s) = console s @ [KString ''no device'', KChar 10] \<or>
   console (probe dev i j s) = console s @ [KString ''wrong class code'', KChar 10]"
proof -
  obtain present s1 where p: "device_present dev (of_nat i) (of_nat j) s = (present, s1)" by fastforce
  have "console s1 = console s"
    using arg_cong [OF p, of "console \<circ> snd"] pci_console [of dev "ucast (of_nat i :: u32)"]
    by (simp add: device_present_def split: prod.splits) (metis snd_conv)
  moreover obtain cc s2 where c: "get_class_code dev (of_nat i) (of_nat j) s1 = (cc, s2)" by fastforce
  moreover have "cc = 0" using class_code_zero [of dev "of_nat i" "of_nat j" s1] c by simp
  moreover have "console s2 = console s1"
    using arg_cong [OF c, of "console \<circ> snd"] pci_console [of dev "ucast (of_nat i :: u32)"]
    by (simp add: get_class_code_def split: prod.splits) (metis snd_conv)
  ultimately show ?thesis by (simp add: probe_def p)
qed

lemma probes_console:
  "\<exists>ks. console (fold (\<lambda>j. probe dev i j) js s) = console s @ ks \<and>
     set ks \<subseteq> {KString ''no device'', KString ''wrong class code'', KChar 10} \<and> length ks = 2 * length js"
proof (induction js arbitrary: s)
  case (Cons j js)
  obtain ks where "console (fold (\<lambda>j. probe dev i j) js (probe dev i j s)) = console (probe dev i j s) @ ks"
      "set ks \<subseteq> {KString ''no device'', KString ''wrong class code'', KChar 10}" "length ks = 2 * length js"
    using Cons by blast
  then show ?case using probe_console [of dev i j s] by auto
qed simp

lemma busses_console:
  "\<exists>ks. console (fold (\<lambda>i. fold (\<lambda>j. probe dev i j) [0..<32]) is s) = console s @ ks \<and>
     set ks \<subseteq> {KString ''no device'', KString ''wrong class code'', KChar 10} \<and> length ks = 64 * length is"
proof (induction "is" arbitrary: s)
  case (Cons i "is")
  let ?s = "fold (\<lambda>j. probe dev i j) [0..<32] s"
  obtain ks where ks: "console (fold (\<lambda>i. fold (\<lambda>j. probe dev i j) [0..<32]) is ?s) = console ?s @ ks"
      "set ks \<subseteq> {KString ''no device'', KString ''wrong class code'', KChar 10}" "length ks = 64 * length is"
    using Cons by blast
  obtain hs where "console ?s = console s @ hs"
      "set hs \<subseteq> {KString ''no device'', KString ''wrong class code'', KChar 10}" "length hs = 64"
    using probes_console [of dev i "[0..<32]" s] by auto
  then show ?case using ks by (intro exI [of _ "hs @ ks"]) (auto simp del: upt_rec_numeral)
qed simp

lemma init_accessers_eq: "n \<le> 2 ^ 32 \<Longrightarrow> init_accessers_loop n acc p = (if unat p < n then NULL else acc p)"
proof (induction n)
  case (Suc n)
  have "(p = of_nat n) = (unat p = n)"
    using Suc.prems by (subst word_unat_eq_iff) (simp add: unat_of_nat take_bit_nat_eq_self)
  then show ?case using Suc by auto
qed simp

lemma init_port_accessers_eq:
  "port_accessers (init_port_accessers s) p = (if unat p < 65536 then NULL else port_accessers s p)"
  unfolding init_port_accessers_def by (simp add: init_accessers_eq del: init_accessers_loop.simps)

lemma prime_loop_eq:
  "prime_loop what i = (if \<exists>d. unat i \<le> d \<and> d < unat what \<and> unat what mod d = 0 then 1 else 0)"
proof (induction what i rule: prime_loop.induct)
  case (1 what i)
  show ?case
  proof (cases "i < what \<and> what mod i \<noteq> 0")
    case True
    then have lt: "unat i < unat what" by (simp add: word_less_nat_alt)
    have nd: "unat what mod unat i \<noteq> 0" using True by (metis unat_mod unat_eq_zero)
    have suc: "unat (i + 1) = Suc (unat i)"
      using lt unsigned_less [of what, where ?'a = nat] by (simp add: unat_word_ariths)
    have "(\<exists>d. Suc (unat i) \<le> d \<and> d < unat what \<and> unat what mod d = 0) =
        (\<exists>d. unat i \<le> d \<and> d < unat what \<and> unat what mod d = 0)"
      using nd by (metis Suc_leD le_antisym not_less_eq_eq)
    then show ?thesis using "1" True by (subst prime_loop.simps) (simp add: suc)
  next
    case False
    then consider (beyond) "\<not> unat i < unat what" "\<not> i < what"
      | (divides) "unat i < unat what" "i < what" "what mod i = 0" "unat what mod unat i = 0"
      by (metis unat_mod unat_eq_zero word_less_nat_alt)
    then show ?thesis
    proof cases
      case beyond
      then show ?thesis by (subst prime_loop.simps) auto
    next
      case divides
      then have "prime_loop what i = 1" by (subst prime_loop.simps) (simp only: if_True simp_thms)
      then show ?thesis using divides(1,4) by (metis le_refl)
    qed
  qed
qed

text \<open>The function that is to recognise prime numbers says yes to the composite ones.\<close>

lemma isPrimeNumber_composite:
  "isPrimeNumber n = 1 \<longleftrightarrow> (\<exists>d. 1 < d \<and> d < unat n \<and> d dvd unat n)"
proof -
  have "(2 \<le> d \<and> d < unat n \<and> unat n mod d = 0) = (1 < d \<and> d < unat n \<and> d dvd unat n)" for d
    by (auto simp: dvd_eq_mod_eq_0)
  then show ?thesis by (simp add: isPrimeNumber_def prime_loop_eq del: One_nat_def)
qed

lemma zerify_loop_eq:
  "unat i \<le> unat num \<Longrightarrow> zerify_loop address num i m a =
     (if unat i \<le> unat (a - address) \<and> unat (a - address) < unat num then 0 else m a)"
proof (induction address num i m rule: zerify_loop.induct)
  case (1 address num i m)
  show ?case
  proof (cases "i < num")
    case True
    then have lt: "unat i < unat num" by (simp add: word_less_nat_alt)
    have suc: "unat (i + 1) = Suc (unat i)"
      using lt unsigned_less [of num, where ?'a = nat] by (simp add: unat_word_ariths)
    have eq: "(a = address + i) = (unat (a - address) = unat i)"
      by (metis add_diff_cancel_left' diff_add_cancel add.commute word_unat_eq_iff)
    have "zerify_loop address num i m a = zerify_loop address num (i + 1) (m(address + i := 0)) a"
      using True by (subst zerify_loop.simps) simp
    also have "\<dots> = (if Suc (unat i) \<le> unat (a - address) \<and> unat (a - address) < unat num then 0
        else (m(address + i := 0)) a)"
      using "1.IH" [OF True] lt by (simp add: suc del: fun_upd_apply)
    also have "\<dots> = (if unat i \<le> unat (a - address) \<and> unat (a - address) < unat num then 0 else m a)"
      using eq lt by auto
    finally show ?thesis .
  next
    case False
    then show ?thesis by (subst zerify_loop.simps) (auto simp: word_less_nat_alt)
  qed
qed

lemma zerify_eq: "zerify address num m a = (if unat (a - address) < unat num then 0 else m a)"
  by (simp add: zerify_def zerify_loop_eq)

end
