(* ===== verification/MK_Console_Props.thy ===== *)
theory MK_Console_Props
  imports MK_Console MK_Sample
begin

text \<open>The properties of the console output and of the search on the PCI bus.\<close>

text \<open>
  With an intact run queue, printing it ends, and prints the names of exactly the queued
  processes in the order of the queue; nothing but the console changes.
\<close>

theorem show_queue_prints_queue:
  assumes "chain_inv s qs" and "\<forall>p \<in> set qs. is_cstr (fld procname s p)"
  shows "show_queue s = Some (s\<lparr>console := console s @ [KString ''showing q'', KChar 10] @
    concat (map (\<lambda>p. [KString ''process '', KBytes (cstr (fld procname s p)), KString '' '']) qs) @
    [KChar 10]\<rparr>)"
  using show_queue_eq [OF assms] by (simp add: kputs_def queue_line_def)

theorem show_queue_prints_queue_witness:
  "\<exists>s'. show_queue sample = Some s' \<and> length (console s') = 9"
proof -
  have "chain_inv sample [pA, pB]" using sample_sched_inv by (simp add: sched_inv_def)
  moreover have "\<forall>p \<in> set [pA, pB]. is_cstr (fld procname sample p)"
    by (simp add: fld_def sample_tss_defs is_cstr_def)
  ultimately show ?thesis using show_queue_prints_queue [of sample "[pA, pB]"] by (simp add: sample_def)
qed

text \<open>
  C40: the search on the PCI bus never reports a storage controller, whatever the devices answer:
  the class code it compares is taken from the upper half of a register of which only the lower
  half was read.
\<close>

theorem pci_search_finds_nothing:
  "\<exists>ks. console (enumeratePci dev s) = console s @ ks \<and> length ks = 2 * 256 * 32 \<and>
     KString ''found ATA controller'' \<notin> set ks"
proof -
  obtain ks where ks: "console (enumeratePci dev s) = console s @ ks"
      "set ks \<subseteq> {KString ''no device'', KString ''wrong class code'', KChar 10}"
      "length ks = 64 * length [0..<256]"
    using busses_console [of dev "[0..<256]" s] unfolding enumeratePci_def by blast
  have "KString ''found ATA controller'' \<notin> {KString ''no device'', KString ''wrong class code'', KChar 10}"
    by simp
  then have "KString ''found ATA controller'' \<notin> set ks" using ks(2) by blast
  moreover have "length ks = 2 * 256 * 32" using ks(3) by (simp only: length_upt)
  ultimately show ?thesis using ks(1) by blast
qed

end
