(* ===== verification/MK_Tty.thy ===== *)
theory MK_Tty
  imports MK_Usrlib
begin

text \<open>
  The terminal driver \<^verbatim>\<open>tty/main.c\<close>: a process that edits a line from the scancodes of the
  keyboard, sends finished lines to the shell and prints the messages it receives.

  The record holds the driver's static variables.  What it does to the screen (through the
  assembly routines of \<^verbatim>\<open>tty/utilities.hla\<close>) and the lines it sends are a log, oldest first.
  A read or write outside of an array is \<open>None\<close>.  The system calls that return something are a
  record of operations on the state of the world, an argument of the main loop.
\<close>

section \<open>State\<close>

datatype tty_event =
    Put u8            \<comment> \<open>\<open>putcharacter\<close>\<close>
  | TtyPut u8         \<comment> \<open>\<open>tty_putcharacter\<close>\<close>
  | Erase             \<comment> \<open>\<open>backspace\<close>\<close>
  | Home              \<comment> \<open>\<open>cursor = 0\<close>\<close>
  | MoveCursor        \<comment> \<open>\<open>move_cursor\<close>\<close>
  | SendCmd "u8 list" \<comment> \<open>\<open>call_syscall_send_by_feature(FEATURE_CMD, ...)\<close>\<close>

abbreviation (input) NO_LINES :: nat where "NO_LINES \<equiv> 24"
abbreviation (input) BUFFER_SIZE :: nat where "BUFFER_SIZE \<equiv> 1919"
abbreviation (input) LineFeed :: u8 where "LineFeed \<equiv> 10"

record tty =
  shiftCount :: u32
  echo :: bool
  screen_echoed :: "bool list"
  snd_buffer :: "u8 list"
  rcv_buffer :: "u8 list"
  input_dirty :: bool
  screen_idx :: u32
  tty_log :: "tty_event list"

definition emit :: "tty_event list \<Rightarrow> tty \<Rightarrow> tty" where
  "emit es s = s\<lparr>tty_log := tty_log s @ es\<rparr>"

section \<open>Output\<close>

definition do_putcharacter :: "u8 \<Rightarrow> bool \<Rightarrow> tty \<Rightarrow> tty" where
  "do_putcharacter c on_tty = emit [if \<not> on_tty then Put c else TtyPut c]"

function puthex_loop :: "u32 \<Rightarrow> u32 \<Rightarrow> u8 \<Rightarrow> bool \<Rightarrow> bool \<Rightarrow> tty \<Rightarrow> tty" where
  "puthex_loop what bitmask shift first on_tty s =
     (if 0 < bitmask then
        let val = bitmask AND what
        in if val = 0 \<and> bitmask \<noteq> 0xf \<and> \<not> first
           then puthex_loop what (drop_bit 4 bitmask) (shift - 1) first on_tty s
           else puthex_loop what (drop_bit 4 bitmask) (shift - 1) True on_tty
             (do_putcharacter (hex_digit (drop_bit (unat shift * 4) val)) on_tty s)
      else s)"
  by pat_completeness auto

termination puthex_loop
  by (relation "measure (\<lambda>(what, bitmask, shift, first, on_tty, s). unat bitmask)")
    (simp_all add: drop_bit_less)

declare puthex_loop.simps [simp del]

definition puthex :: "u32 \<Rightarrow> bool \<Rightarrow> tty \<Rightarrow> tty" where
  "puthex what on_tty = puthex_loop what 0xf0000000 7 False on_tty"

fun putstring :: "u8 list \<Rightarrow> bool \<Rightarrow> tty \<Rightarrow> tty option" where
  "putstring [] on_tty s = None"
| "putstring (c # what) on_tty s =
     (if c \<noteq> 0 then putstring what on_tty (do_putcharacter c on_tty s) else Some s)"

abbreviation (input) lit :: "string \<Rightarrow> u8 list" where "lit t \<equiv> bytes_of t @ [0]"

function putunsint_loop :: "u32 \<Rightarrow> u32 \<Rightarrow> bool \<Rightarrow> bool \<Rightarrow> tty \<Rightarrow> tty" where
  "putunsint_loop what divider first on_tty s =
     (if 0 < divider then
        let val = what div divider
        in if val = 0 \<and> divider \<noteq> 1 \<and> \<not> first
           then putunsint_loop (what - val * divider) (divider div 10) first on_tty s
           else putunsint_loop (what - val * divider) (divider div 10) True on_tty (puthex val on_tty s)
      else s)"
  by pat_completeness auto

termination putunsint_loop
  by (relation "measure (\<lambda>(what, divider, first, on_tty, s). unat divider)")
    (simp_all add: unat_div unat_gt_0 word_gt_0)

declare putunsint_loop.simps [simp del]

definition putunsint :: "u32 \<Rightarrow> bool \<Rightarrow> tty \<Rightarrow> tty" where
  "putunsint what on_tty = putunsint_loop what 1000000000 False on_tty"

definition cls :: "tty \<Rightarrow> tty" where
  "cls s = emit ([Home] @ replicate NO_LINES (Put LineFeed) @ [Home]) s"

section \<open>Keys\<close>

definition read_unsint :: "u32 \<Rightarrow> tty \<Rightarrow> tty" where
  "read_unsint address = putunsint address False"

definition flush :: "tty \<Rightarrow> tty option" where
  "flush s = do {
     b \<leftarrow> put_byte 0 0 (snd_buffer s);
     Some (s\<lparr>screen_idx := 0, snd_buffer := b\<rparr>)
   }"

definition enter_pressed :: "tty \<Rightarrow> tty option" where
  "enter_pressed s = do {
     let s = emit [Put LineFeed] s;
     n \<leftarrow> strlen (snd_buffer s);
     flush (emit [SendCmd (take (unat (n + 1)) (snd_buffer s))] s)
   }"

definition escape_pressed :: "tty \<Rightarrow> tty option" where
  "escape_pressed s =
     (let s = emit [TtyPut LineFeed] (s\<lparr>echo := \<not> echo s\<rparr>)
      in if echo s then putstring (lit ''echo now on'') True s
         else putstring (lit ''echo now off'') True s)"

definition printline :: "u32 \<Rightarrow> tty \<Rightarrow> tty option" where
  "printline address s = do {
     let s = emit [TtyPut LineFeed] s;
     s \<leftarrow> putstring (lit ''scancode in line '') True s;
     let s = putunsint address True s;
     putstring (lit '' unhandled'') True s
   }"

definition set_echoed :: "bool \<Rightarrow> tty \<Rightarrow> tty option" where
  "set_echoed e s =
     (if unat (screen_idx s) < length (screen_echoed s)
      then Some (s\<lparr>screen_echoed := (screen_echoed s)[unat (screen_idx s) := e]\<rparr>) else None)"

definition put_snd :: "u8 \<Rightarrow> tty \<Rightarrow> tty option" where
  "put_snd c s = do {
     b \<leftarrow> put_byte (unat (screen_idx s)) c (snd_buffer s);
     Some (s\<lparr>snd_buffer := b\<rparr>)
   }"

definition read_char :: "u8 \<Rightarrow> tty \<Rightarrow> tty option" where
  "read_char address s =
     (if screen_idx s < of_nat BUFFER_SIZE then do {
        s \<leftarrow> (if echo s then set_echoed True (emit [Put address] s) else set_echoed False s);
        s \<leftarrow> put_snd address s;
        let s = s\<lparr>screen_idx := screen_idx s + 1\<rparr>;
        put_snd 0 s
      }
      else Some s)"

definition shift_released :: "tty \<Rightarrow> tty" where
  "shift_released s = s\<lparr>shiftCount := shiftCount s - 1\<rparr>"

definition shift_pressed :: "tty \<Rightarrow> tty" where
  "shift_pressed s = s\<lparr>shiftCount := shiftCount s + 1\<rparr>"

definition echoed :: "u32 \<Rightarrow> tty \<Rightarrow> bool option" where
  "echoed i s = (if unat i < length (screen_echoed s) then Some (screen_echoed s ! unat i) else None)"

partial_function (option) drop_unechoed :: "tty \<Rightarrow> tty option" where
  "drop_unechoed s =
     (if screen_idx s > 0 then do {
        e \<leftarrow> echoed (screen_idx s - 1) s;
        if \<not> e then do {
          let s = s\<lparr>screen_idx := screen_idx s - 1\<rparr>;
          s \<leftarrow> put_snd 0 s;
          drop_unechoed s
        }
        else Some s
      }
      else Some s)"

definition backspace_pressed :: "tty \<Rightarrow> tty option" where
  "backspace_pressed s =
     (if screen_idx s \<le> 0 then Some s
      else do {
        let s = s\<lparr>screen_idx := screen_idx s - 1\<rparr>;
        s \<leftarrow> put_snd 0 s;
        e \<leftarrow> echoed (screen_idx s) s;
        if e then Some (emit [Erase] s) else drop_unechoed s
      })"

text \<open>The message is a buffer, which gets a new end; the result is the buffer and the state.\<close>

definition process_message :: "u8 list \<Rightarrow> u32 \<Rightarrow> tty \<Rightarrow> (u8 list \<times> tty) option" where
  "process_message buffer bytes s = do {
     c \<leftarrow> get_byte (snd_buffer s) 0;
     let s = (if c \<noteq> 0 then emit [Put LineFeed] (s\<lparr>input_dirty := True\<rparr>) else s);
     buffer \<leftarrow> put_byte (unat (bytes - 1)) 0 buffer;
     s \<leftarrow> putstring buffer False s;
     Some (buffer, emit [Put LineFeed] s)
   }"

definition alt_pressed :: "tty \<Rightarrow> tty option" where
  "alt_pressed s = do {
     let message = lit ''I am a sudden message'';
     s \<leftarrow> putstring (lit ''faking sudden message'') True (emit [TtyPut LineFeed] s);
     n \<leftarrow> strlen message;
     (_, s) \<leftarrow> process_message message (n + 1) s;
     Some s
   }"

text \<open>
  The table of keys: for a scancode the function without and with shift.  The argument of
  \<open>printline\<close> is the line of the table's entry in the source.
\<close>

datatype keyfunc = Printline u32 | ReadUnsint u32 | ReadChar u8 | EscapePressed | BackspacePressed
  | EnterPressed | ShiftPressed | ShiftReleased | AltPressed | Noop | NullFunc

definition unhandled :: "nat \<Rightarrow> nat \<Rightarrow> (keyfunc \<times> keyfunc) list" where
  "unhandled a b = map (\<lambda>l. (Printline (of_nat l), NullFunc)) [a..<b]"

definition letters :: "string \<Rightarrow> string \<Rightarrow> (keyfunc \<times> keyfunc) list" where
  "letters a b = map2 (\<lambda>c d. (ReadChar (chr c), ReadChar (chr d))) a b"

definition km :: "(keyfunc \<times> keyfunc) list" where
  "km = unhandled 209 210 @
     [(EscapePressed, NullFunc)] @
     map (\<lambda>n. (ReadUnsint n, NullFunc)) [1, 2, 3, 4, 5, 6, 7, 8, 9, 0] @
     unhandled 221 223 @
     [(BackspacePressed, BackspacePressed)] @
     unhandled 224 225 @
     letters ''qwertyuiop'' ''QWERTYUIOP'' @
     unhandled 235 237 @
     [(EnterPressed, EnterPressed)] @
     unhandled 238 239 @
     letters ''asdfghjkl'' ''ASDFGHJKL'' @
     unhandled 248 251 @
     [(ShiftPressed, ShiftPressed)] @
     unhandled 252 253 @
     letters ''zxcvbnm'' ''ZXCVBNM'' @
     [(Printline 260, Printline 44)] @
     [(Printline 261, Printline 44)] @
     unhandled 262 263 @
     [(ShiftPressed, ShiftPressed)] @
     unhandled 264 265 @
     [(AltPressed, NullFunc)] @
     [(ReadChar 32, ReadChar 32)] @
     unhandled 267 338 @
     [(Noop, NullFunc)] @
     unhandled 339 379 @
     [(ShiftReleased, ShiftReleased)] @
     unhandled 380 391 @
     [(ShiftReleased, ShiftReleased)]"

fun call_key :: "keyfunc \<Rightarrow> tty \<Rightarrow> tty option" where
  "call_key (Printline l) s = printline l s"
| "call_key (ReadUnsint n) s = Some (read_unsint n s)"
| "call_key (ReadChar c) s = read_char c s"
| "call_key EscapePressed s = escape_pressed s"
| "call_key BackspacePressed s = backspace_pressed s"
| "call_key EnterPressed s = enter_pressed s"
| "call_key ShiftPressed s = Some (shift_pressed s)"
| "call_key ShiftReleased s = Some (shift_released s)"
| "call_key AltPressed s = alt_pressed s"
| "call_key Noop s = Some s"
| "call_key NullFunc s = None"

section \<open>Scancodes and messages\<close>

partial_function (option) restore_loop :: "nat \<Rightarrow> tty \<Rightarrow> tty option" where
  "restore_loop i s = do {
     c \<leftarrow> get_byte (snd_buffer s) i;
     if c \<noteq> 0 then do {
       e \<leftarrow> echoed (of_nat i) s;
       restore_loop (i + 1) (if e then emit [Put c] s else s)
     }
     else Some s
   }"

definition restore_input :: "tty \<Rightarrow> tty option" where
  "restore_input s = do { s \<leftarrow> restore_loop 0 s; Some (s\<lparr>input_dirty := False\<rparr>) }"

definition process_scancode :: "u32 \<Rightarrow> tty \<Rightarrow> tty option" where
  "process_scancode scancode s = do {
     let shifted = shiftCount s \<noteq> 0;
     s \<leftarrow> (if input_dirty s then restore_input s else Some s);
     if of_nat (length km) \<le> scancode then do {
       s \<leftarrow> putstring (lit ''scancode '') True (emit [TtyPut LineFeed] s);
       putstring (lit '' out of range!'') True (putunsint scancode True s)
     }
     else do {
       let func = (if shifted then snd else fst) (km ! unat scancode);
       if func = NullFunc then do {
         s \<leftarrow> putstring (lit ''function pointer for scancode '') True (emit [TtyPut LineFeed] s);
         putstring (lit '' is NULL!'') True (putunsint scancode True s)
       }
       else call_key func s
     }
   }"

text \<open>
  The system calls of the driver.  A receive gives the result, the number of bytes and what was
  written to the buffer.
\<close>

record 'w tty_sys =
  sys_claim_port :: "u32 \<Rightarrow> 'w \<Rightarrow> u32 \<times> 'w"
  sys_request_irq :: "u32 \<Rightarrow> 'w \<Rightarrow> u32 \<times> 'w"
  sys_set_feature :: "u32 \<Rightarrow> 'w \<Rightarrow> u32 \<times> 'w"
  sys_receive :: "u32 \<Rightarrow> 'w \<Rightarrow> (u32 \<times> u32 \<times> u8 list) \<times> 'w"
  sys_inb :: "u32 \<Rightarrow> 'w \<Rightarrow> (u32 \<times> u32) \<times> 'w"

text \<open>One round of the main loop: the value of the error variable at its end, and the new state.\<close>

definition tty_round :: "'w tty_sys \<Rightarrow> tty \<Rightarrow> 'w \<Rightarrow> (u32 \<times> tty \<times> 'w) option" where
  "tty_round sys s w = do {
     let len = (if screen_idx s = 0 then 1921 else 0);
     let ((err, bytes, bs), w) = sys_receive sys len w;
     let s = s\<lparr>rcv_buffer := bs @ drop (length bs) (rcv_buffer s)\<rparr>;
     if hasFailed err then Some (err, s, w)
     else if 0 <s err then
       (if err AND 2 \<noteq> 0 then do {
          let ((err, scancode), w) = sys_inb sys 0x60 w;
          if hasFailed err then Some (err, s, w)
          else do { s \<leftarrow> process_scancode scancode s; Some (OK, s, w) }
        }
        else Some (OK, s, w))
     else do {
       let bytes = (if bytes < 1921 then bytes else 1920);
       (b, s) \<leftarrow> process_message (rcv_buffer s) bytes s;
       Some (err, s\<lparr>rcv_buffer := b\<rparr>, w)
     }
   }"

partial_function (option) tty_loop :: "'w tty_sys \<Rightarrow> tty \<Rightarrow> 'w \<Rightarrow> (u32 \<times> tty \<times> 'w) option" where
  "tty_loop sys s w = do {
     (err, s, w) \<leftarrow> tty_round sys s w;
     if hasFailed err then Some (err, s, w) else tty_loop sys s w
   }"

text \<open>
  The driver from its start to its end.  Behind \<open>finish\<close> it asks whether the address of the error
  variable is negative, which no address is.
\<close>

definition tty_main :: "'w tty_sys \<Rightarrow> tty \<Rightarrow> 'w \<Rightarrow> (tty \<times> 'w) option" where
  "tty_main sys s w = do {
     let s = emit [TtyPut LineFeed] (cls s);
     (err, s, w) \<leftarrow>
       (let (err, w) = sys_claim_port sys 0x60 w in if hasFailed err then Some (err, s, w) else
        let (err, w) = sys_claim_port sys 0x3D4 w in if hasFailed err then Some (err, s, w) else
        let (err, w) = sys_claim_port sys 0x3D5 w in if hasFailed err then Some (err, s, w) else
        let s = emit [MoveCursor] s; (err, w) = sys_request_irq sys 1 w in if hasFailed err then Some (err, s, w) else
        let (err, w) = sys_set_feature sys 1 w in if hasFailed err then Some (err, s, w) else
        tty_loop sys s w);
     s \<leftarrow> putstring (lit ''will exit'') False s;
     Some (emit [Put LineFeed] s, w)
   }"

definition tty_start :: tty where
  "tty_start = \<lparr>shiftCount = 0, echo = True, screen_echoed = replicate BUFFER_SIZE False,
     snd_buffer = replicate (BUFFER_SIZE + 1) 0, rcv_buffer = replicate 1921 0, input_dirty = False,
     screen_idx = 0, tty_log = []\<rparr>"

end
