(* ===== verification/MK_Editor.thy ===== *)
theory MK_Editor
  imports MK_Tty MK_Text
begin

text \<open>
  The terminal driver implements a line editor.  The editor's state is the line (each character
  with the mark whether it is on the screen), the echo, the shift count and the lines it has sent;
  \<open>edit_key\<close> is what a key does to it.  The driver's arrays represent it, and every scancode does to
  them what \<open>edit_key\<close> does to the editor.
\<close>

section \<open>The editor\<close>

record editor =
  ed_line :: "(u8 \<times> bool) list"
  ed_echo :: bool
  ed_shift :: u32
  ed_sent :: "u8 list list"

text \<open>An erased character takes the characters before it that are not on the screen with it, if it was
  not on the screen itself.\<close>

definition erase :: "(u8 \<times> bool) list \<Rightarrow> (u8 \<times> bool) list" where
  "erase l = (if l = [] then []
     else if snd (last l) then butlast l
     else rev (dropWhile (\<lambda>x. \<not> snd x) (rev (butlast l))))"

fun edit_key :: "keyfunc \<Rightarrow> editor \<Rightarrow> editor" where
  "edit_key (ReadChar c) e =
     (if length (ed_line e) < 1919 then e\<lparr>ed_line := ed_line e @ [(c, ed_echo e)]\<rparr> else e)"
| "edit_key EscapePressed e = e\<lparr>ed_echo := \<not> ed_echo e\<rparr>"
| "edit_key BackspacePressed e = e\<lparr>ed_line := erase (ed_line e)\<rparr>"
| "edit_key EnterPressed e = e\<lparr>ed_line := [], ed_sent := ed_sent e @ [map fst (ed_line e) @ [0]]\<rparr>"
| "edit_key ShiftPressed e = e\<lparr>ed_shift := ed_shift e + 1\<rparr>"
| "edit_key ShiftReleased e = e\<lparr>ed_shift := ed_shift e - 1\<rparr>"
| "edit_key _ e = e"

definition key_of :: "u32 \<Rightarrow> u32 \<Rightarrow> keyfunc" where
  "key_of scancode shift =
     (if 183 \<le> unat scancode then NullFunc
      else (if shift \<noteq> 0 then snd else fst) (km ! unat scancode))"

definition edit :: "u32 \<Rightarrow> editor \<Rightarrow> editor" where
  "edit scancode e = edit_key (key_of scancode (ed_shift e)) e"

section \<open>How the driver represents it\<close>

fun sent :: "tty_event list \<Rightarrow> u8 list list" where
  "sent [] = []"
| "sent (SendCmd b # es) = b # sent es"
| "sent (_ # es) = sent es"

lemma sent_append [simp]: "sent (es @ fs) = sent es @ sent fs"
  by (induction es rule: sent.induct) simp_all

definition line_of :: "tty \<Rightarrow> (u8 \<times> bool) list" where
  "line_of s = zip (take (unat (screen_idx s)) (snd_buffer s)) (take (unat (screen_idx s)) (screen_echoed s))"

definition editor_of :: "tty \<Rightarrow> editor" where
  "editor_of s = \<lparr>ed_line = line_of s, ed_echo = echo s, ed_shift = shiftCount s, ed_sent = sent (tty_log s)\<rparr>"

definition tty_inv :: "tty \<Rightarrow> bool" where
  "tty_inv s \<longleftrightarrow> length (screen_echoed s) = 1919 \<and> length (snd_buffer s) = 1920 \<and>
     length (rcv_buffer s) = 1921 \<and> unat (screen_idx s) \<le> 1919 \<and>
     (\<forall>i < unat (screen_idx s). snd_buffer s ! i \<noteq> 0) \<and> snd_buffer s ! unat (screen_idx s) = 0"

lemma line_of_length [simp]: "tty_inv s \<Longrightarrow> length (line_of s) = unat (screen_idx s)"
  by (simp add: tty_inv_def line_of_def)

subsection \<open>Output\<close>

lemma emit_simps [simp]:
  "emit es (emit fs s) = emit (fs @ es) s" "emit [] s = s"
  "shiftCount (emit es s) = shiftCount s" "echo (emit es s) = echo s"
  "screen_echoed (emit es s) = screen_echoed s" "snd_buffer (emit es s) = snd_buffer s"
  "rcv_buffer (emit es s) = rcv_buffer s" "input_dirty (emit es s) = input_dirty s"
  "screen_idx (emit es s) = screen_idx s" "tty_log (emit es s) = tty_log s @ es"
  by (simp_all add: emit_def)

lemma tty_inv_emit [simp]: "tty_inv (emit es s) = tty_inv s"
  by (simp add: tty_inv_def)

lemma line_of_emit [simp]: "line_of (emit es s) = line_of s"
  by (simp add: line_of_def)

text \<open>The driver only wrote to the screen.\<close>

definition wrote :: "tty \<Rightarrow> tty \<Rightarrow> bool" where
  "wrote s s' \<longleftrightarrow> (\<exists>es. s' = emit es s \<and> sent es = [])"

named_theorems wrote_intros

lemma wrote_refl [simp]: "wrote s s"
  unfolding wrote_def by (rule exI [of _ "[]"]) simp

lemma wrote_trans: "wrote a b \<Longrightarrow> wrote b c \<Longrightarrow> wrote a c"
  unfolding wrote_def by fastforce

lemma wrote_emit: "sent es = [] \<Longrightarrow> wrote s (emit es s)"
  by (auto simp: wrote_def)

lemma wrote_sel:
  assumes "wrote s s'"
  shows "shiftCount s' = shiftCount s" "echo s' = echo s" "screen_echoed s' = screen_echoed s"
    "snd_buffer s' = snd_buffer s" "rcv_buffer s' = rcv_buffer s" "input_dirty s' = input_dirty s"
    "screen_idx s' = screen_idx s" "sent (tty_log s') = sent (tty_log s)"
    "tty_inv s' = tty_inv s" "editor_of s' = editor_of s" "line_of s' = line_of s"
  using assms by (auto simp: wrote_def editor_of_def)

lemma wrote_put [simp]: "wrote s (do_putcharacter c on_tty s)"
  unfolding do_putcharacter_def by (rule wrote_emit) simp

lemma wrote_puthex_loop: "wrote s (puthex_loop what bitmask shift first on_tty s)"
proof (induction what bitmask shift first on_tty s rule: puthex_loop.induct)
  case (1 what bitmask shift first on_tty s)
  let ?val = "bitmask AND what"
  show ?case
  proof (cases "0 < bitmask")
    case True
    show ?thesis
    proof (cases "?val = 0 \<and> bitmask \<noteq> 0xf \<and> \<not> first")
      case skip: True
      then show ?thesis using "1.IH"(1) [OF True refl skip] True
        by (subst puthex_loop.simps) (simp add: Let_def)
    next
      case put: False
      then have "puthex_loop what bitmask shift first on_tty s =
          puthex_loop what (drop_bit 4 bitmask) (shift - 1) True on_tty
            (do_putcharacter (hex_digit (drop_bit (unat shift * 4) ?val)) on_tty s)"
        using True by (subst puthex_loop.simps) (auto simp: Let_def)
      then show ?thesis using wrote_trans [OF wrote_put "1.IH"(2) [OF True refl put]] by simp
    qed
  next
    case False
    then show ?thesis by (subst puthex_loop.simps) simp
  qed
qed

lemma wrote_puthex: "wrote s (puthex what on_tty s)"
  by (simp add: puthex_def wrote_puthex_loop)

lemma wrote_putunsint_loop: "wrote s (putunsint_loop what divider first on_tty s)"
proof (induction what divider first on_tty s rule: putunsint_loop.induct)
  case (1 what divider first on_tty s)
  let ?val = "what div divider"
  show ?case
  proof (cases "0 < divider")
    case True
    show ?thesis
    proof (cases "?val = 0 \<and> divider \<noteq> 1 \<and> \<not> first")
      case skip: True
      then show ?thesis using "1.IH"(1) [OF True refl skip] True
        by (subst putunsint_loop.simps) (simp add: Let_def)
    next
      case put: False
      then have "putunsint_loop what divider first on_tty s =
          putunsint_loop (what - ?val * divider) (divider div 10) True on_tty (puthex ?val on_tty s)"
        using True by (subst putunsint_loop.simps) (auto simp: Let_def)
      then show ?thesis using wrote_trans [OF wrote_puthex "1.IH"(2) [OF True refl put]] by simp
    qed
  next
    case False
    then show ?thesis by (subst putunsint_loop.simps) simp
  qed
qed

lemma wrote_putunsint: "wrote s (putunsint what on_tty s)"
  by (simp add: putunsint_def wrote_putunsint_loop)

lemma putstring_Some:
  "is_cstr what \<Longrightarrow> \<exists>s'. putstring what on_tty s = Some s' \<and> wrote s s'"
proof (induction what on_tty s rule: putstring.induct)
  case (2 c what on_tty s)
  show ?case
  proof (cases "c = 0")
    case False
    then have "is_cstr what" using "2.prems" by (auto simp: is_cstr_def)
    from "2.IH" [OF False this] show ?thesis using False wrote_trans [OF wrote_put] by auto
  qed simp
qed (simp add: is_cstr_def)

lemma lit_cstr [simp]: "is_cstr (lit t)"
  by (simp add: is_cstr_def)

lemma put_two:
  assumes "\<And>s. wrote s (f s)"
  shows "\<exists>s'. do { s \<leftarrow> putstring (lit a) True s; putstring (lit b) True (f s) } = Some s' \<and> wrote s s'"
proof -
  obtain s1 where 1: "putstring (lit a) True s = Some s1" "wrote s s1" using putstring_Some [of "lit a"] by auto
  obtain s2 where 2: "putstring (lit b) True (f s1) = Some s2" "wrote (f s1) s2"
    using putstring_Some [of "lit b" True "f s1"] by auto
  show ?thesis using 1 2 wrote_trans [OF 1(2) wrote_trans [OF assms 2(2)]] by simp
qed

section \<open>Keys that only write\<close>

lemma printline_wrote: "\<exists>s'. printline l s = Some s' \<and> wrote s s'"
proof -
  obtain s' where "do { s \<leftarrow> putstring (lit ''scancode in line '') True (emit [TtyPut LineFeed] s);
      putstring (lit '' unhandled'') True (putunsint l True s) } = Some s'" "wrote (emit [TtyPut LineFeed] s) s'"
    using put_two [of "putunsint l True", OF wrote_putunsint] by blast
  moreover have "wrote s (emit [TtyPut LineFeed] s)" by (rule wrote_emit) simp
  ultimately show ?thesis using wrote_trans by (auto simp: printline_def)
qed

lemma process_message_Some:
  assumes inv: "tty_inv s" and b: "0 < unat bytes" "unat bytes \<le> length buffer"
  shows "\<exists>b s'. process_message buffer bytes s = Some (b, s') \<and> length b = length buffer \<and>
    (\<exists>d. wrote (s\<lparr>input_dirty := d\<rparr>) s')"
proof -
  have len: "0 < length (snd_buffer s)" using inv by (auto simp: tty_inv_def)
  let ?d = "if snd_buffer s ! 0 \<noteq> 0 then True else input_dirty s"
  let ?s = "if snd_buffer s ! 0 \<noteq> 0 then emit [Put LineFeed] (s\<lparr>input_dirty := True\<rparr>) else s"
  have "wrote (s\<lparr>input_dirty := ?d\<rparr>) ?s" by (auto intro: wrote_emit)
  let ?i = "unat (bytes - 1)"
  have i: "?i < length buffer"
  proof -
    have "bytes \<noteq> 0" using b(1) by auto
    then have "?i = unat bytes - 1" by (rule unat_minus_one)
    then show ?thesis using b by linarith
  qed
  then have "is_cstr (buffer[?i := 0])" by (simp add: is_cstr_def set_update_memI)
  from putstring_Some [OF this, of False ?s] obtain s1 where
    s1: "putstring (buffer[?i := 0]) False ?s = Some s1" "wrote ?s s1" by blast
  have w: "wrote s1 (emit [Put LineFeed] s1)" by (rule wrote_emit) simp
  have "process_message buffer bytes s = Some (buffer[?i := 0], emit [Put LineFeed] s1)"
    using len i s1(1) by (simp add: process_message_def get_byte_def put_byte_def)
  moreover have "wrote (s\<lparr>input_dirty := ?d\<rparr>) (emit [Put LineFeed] s1)"
    using wrote_trans [OF \<open>wrote (s\<lparr>input_dirty := ?d\<rparr>) ?s\<close> wrote_trans [OF s1(2) w]] .
  ultimately show ?thesis
    by (intro exI [of _ "buffer[?i := 0]"] exI [of _ "emit [Put LineFeed] s1"]) auto
qed

lemma dirty_sel [simp]:
  "tty_inv (s\<lparr>input_dirty := d\<rparr>) = tty_inv s" "editor_of (s\<lparr>input_dirty := d\<rparr>) = editor_of s"
  by (simp_all add: tty_inv_def editor_of_def line_of_def)

lemma alt_pressed_Some:
  assumes "tty_inv s"
  shows "\<exists>s'. alt_pressed s = Some s' \<and> tty_inv s' \<and> editor_of s' = editor_of s"
proof -
  let ?m = "lit ''I am a sudden message''"
  obtain s1 where s1: "putstring (lit ''faking sudden message'') True (emit [TtyPut LineFeed] s) = Some s1"
      "wrote (emit [TtyPut LineFeed] s) s1"
    using putstring_Some [of "lit ''faking sudden message''"] by auto
  have "wrote s (emit [TtyPut LineFeed] s)" by (rule wrote_emit) simp
  then have w: "wrote s s1" using s1(2) by (rule wrote_trans)
  have len: "strlen ?m = Some 21" by (simp add: strlen_eq is_cstr_def cstr_def bytes_of_def)
  have "tty_inv s1" using assms wrote_sel(9) [OF w] by simp
  from process_message_Some [OF this, of 22 ?m] obtain b s2 d where
    s2: "process_message ?m 22 s1 = Some (b, s2)" "wrote (s1\<lparr>input_dirty := d\<rparr>) s2"
    by (auto simp: bytes_of_def)
  have "alt_pressed s = Some s2" using s1(1) len s2(1) by (simp add: alt_pressed_def)
  moreover have "tty_inv s2" "editor_of s2 = editor_of s"
    using wrote_sel(9,10) [OF s2(2)] wrote_sel(9,10) [OF w] assms by simp_all
  ultimately show ?thesis by blast
qed

lemma escape_pressed_Some:
  assumes "tty_inv s"
  shows "\<exists>s'. escape_pressed s = Some s' \<and> tty_inv s' \<and>
    editor_of s' = (editor_of s)\<lparr>ed_echo := \<not> echo s\<rparr>"
proof -
  let ?s = "emit [TtyPut LineFeed] (s\<lparr>echo := \<not> echo s\<rparr>)"
  obtain s' where s': "escape_pressed s = Some s'" "wrote ?s s'"
    using putstring_Some [of "lit ''echo now on''" True ?s] putstring_Some [of "lit ''echo now off''" True ?s]
    by (cases "echo s") (auto simp: escape_pressed_def Let_def)
  have "tty_inv ?s" using assms by (simp add: tty_inv_def)
  moreover have "editor_of ?s = (editor_of s)\<lparr>ed_echo := \<not> echo s\<rparr>" by (simp add: editor_of_def line_of_def)
  ultimately show ?thesis using s' wrote_sel(9,10) [OF s'(2)] by auto
qed

section \<open>Editing\<close>

lemma read_char_Some:
  assumes inv: "tty_inv s" and c: "c \<noteq> 0"
  shows "\<exists>s'. read_char c s = Some s' \<and> tty_inv s' \<and>
    editor_of s' = edit_key (ReadChar c) (editor_of s)"
proof (cases "screen_idx s < 1919")
  case True
  let ?i = "unat (screen_idx s)"
  have i: "?i < 1919" using True by (simp add: word_less_nat_alt)
  have suc: "unat (screen_idx s + 1) = Suc ?i" using i by (simp add: unat_word_ariths)
  note v = inv [unfolded tty_inv_def]
  define s' where "s' = (if echo s then emit [Put c] s else s)
    \<lparr>screen_echoed := (screen_echoed s)[?i := echo s],
     snd_buffer := (snd_buffer s)[?i := c, Suc ?i := 0], screen_idx := screen_idx s + 1\<rparr>"
  have "read_char c s = Some s'"
    using v i True by (cases "echo s")
      (simp_all add: read_char_def set_echoed_def put_snd_def put_byte_def suc s'_def emit_def)
  moreover have "tty_inv s'"
    using v i c by (cases "echo s") (auto simp: s'_def tty_inv_def suc nth_list_update less_Suc_eq)
  moreover have "line_of s' = line_of s @ [(c, echo s)]"
  proof -
    have "take (Suc ?i) ((snd_buffer s)[?i := c, Suc ?i := 0]) = take ?i (snd_buffer s) @ [c]"
      using v i by (simp add: take_Suc_conv_app_nth)
    moreover have "take (Suc ?i) ((screen_echoed s)[?i := echo s]) = take ?i (screen_echoed s) @ [echo s]"
      using v i by (simp add: take_Suc_conv_app_nth)
    ultimately show ?thesis using v i by (simp add: line_of_def s'_def suc)
  qed
  moreover have "length (line_of s) < 1919" using i inv by simp
  ultimately show ?thesis by (auto simp: editor_of_def s'_def)
next
  case False
  then have "\<not> length (line_of s) < 1919" using inv by (simp add: word_less_nat_alt)
  then show ?thesis using False inv by (simp add: read_char_def editor_of_def)
qed

lemma enter_pressed_Some:
  assumes inv: "tty_inv s"
  shows "\<exists>s'. enter_pressed s = Some s' \<and> tty_inv s' \<and>
    editor_of s' = edit_key EnterPressed (editor_of s)"
proof -
  let ?i = "unat (screen_idx s)"
  note v = inv [unfolded tty_inv_def]
  have ne: "snd_buffer s \<noteq> []" using v by auto
  have c: "cstr (snd_buffer s) = take ?i (snd_buffer s)" by (rule cstr_eq_take) (use v in auto)
  have "is_cstr (snd_buffer s)" using v nth_mem [of ?i "snd_buffer s"] by (simp add: is_cstr_def)
  then have len: "strlen (snd_buffer s) = Some (screen_idx s)" using v by (simp add: strlen_eq c)
  have suc: "unat (screen_idx s + 1) = Suc ?i" using v by (simp add: unat_word_ariths)
  have snt: "take (Suc ?i) (snd_buffer s) = map fst (line_of s) @ [0]"
    using v by (simp add: take_Suc_conv_app_nth line_of_def)
  let ?s = "emit [Put LineFeed, SendCmd (map fst (line_of s) @ [0])]
      (s\<lparr>screen_idx := 0, snd_buffer := (snd_buffer s)[0 := 0]\<rparr>)"
  have "enter_pressed s = Some ?s"
    using v ne by (simp add: enter_pressed_def len suc snt flush_def put_byte_def emit_def)
  moreover have "tty_inv ?s" using v ne by (simp add: tty_inv_def)
  moreover have "editor_of ?s = edit_key EnterPressed (editor_of s)"
    by (simp add: editor_of_def line_of_def)
  ultimately show ?thesis by blast
qed

text \<open>Backspace: one character, and those before it that are not on the screen.\<close>

lemma put_snd_zero:
  assumes "unat (screen_idx s) < length (snd_buffer s)"
  shows "put_snd 0 s = Some (s\<lparr>snd_buffer := (snd_buffer s)[unat (screen_idx s) := 0]\<rparr>)"
  using assms by (simp add: put_snd_def put_byte_def)

lemma shorten:
  assumes inv: "tty_inv s" and pos: "0 < screen_idx s"
  defines "s' \<equiv> s\<lparr>screen_idx := screen_idx s - 1, snd_buffer := (snd_buffer s)[unat (screen_idx s - 1) := 0]\<rparr>"
  shows "tty_inv s'" "line_of s' = butlast (line_of s)" "line_of s \<noteq> []"
    "unat (screen_idx s) = Suc (unat (screen_idx s - 1))"
    "snd (last (line_of s)) = screen_echoed s ! unat (screen_idx s - 1)"
    "unat (screen_idx s - 1) < 1919"
proof -
  let ?i = "unat (screen_idx s - 1)"
  note v = inv [unfolded tty_inv_def]
  have "screen_idx s \<noteq> 0" using pos by auto
  then have "?i = unat (screen_idx s) - 1" by (rule unat_minus_one)
  moreover have "0 < unat (screen_idx s)" using pos by (simp add: word_less_nat_alt)
  ultimately show i: "unat (screen_idx s) = Suc ?i" by simp
  show lt: "?i < 1919" using v i by linarith
  show "tty_inv s'" using v i by (simp add: s'_def tty_inv_def)
  have l: "line_of s = zip (take ?i (snd_buffer s)) (take ?i (screen_echoed s)) @ [(snd_buffer s ! ?i, screen_echoed s ! ?i)]"
    using v lt by (simp add: line_of_def i take_Suc_conv_app_nth)
  then show "line_of s \<noteq> []" "snd (last (line_of s)) = screen_echoed s ! ?i" by simp_all
  show "line_of s' = butlast (line_of s)" by (simp add: l) (simp add: line_of_def s'_def)
qed

lemma drop_last_unechoed:
  "l \<noteq> [] \<Longrightarrow> dropWhile (\<lambda>x. \<not> snd x) (rev l) =
     (if snd (last l) then rev l else dropWhile (\<lambda>x. \<not> snd x) (rev (butlast l)))"
  by (cases l rule: rev_cases) auto

lemma drop_unechoed_Some:
  assumes "tty_inv s"
  shows "\<exists>s'. drop_unechoed s = Some s' \<and> tty_inv s' \<and> echo s' = echo s \<and> shiftCount s' = shiftCount s \<and>
    tty_log s' = tty_log s \<and> line_of s' = rev (dropWhile (\<lambda>x. \<not> snd x) (rev (line_of s)))"
  using assms
proof (induction "length (line_of s)" arbitrary: s rule: less_induct)
  case less
  note inv = less.prems
  show ?case
  proof (cases "screen_idx s > 0")
    case True
    note sh = shorten [OF inv True]
    let ?i = "unat (screen_idx s - 1)"
    let ?s = "s\<lparr>screen_idx := screen_idx s - 1, snd_buffer := (snd_buffer s)[?i := 0]\<rparr>"
    have e: "echoed (screen_idx s - 1) s = Some (snd (last (line_of s)))"
      using inv sh(5,6) by (simp add: echoed_def tty_inv_def)
    note r = drop_last_unechoed [OF sh(3)]
    show ?thesis
    proof (cases "snd (last (line_of s))")
      case on: True
      then have "drop_unechoed s = Some s" using True e by (subst drop_unechoed.simps) simp
      then show ?thesis using inv on r by simp
    next
      case off: False
      have "put_snd 0 (s\<lparr>screen_idx := screen_idx s - 1\<rparr>) = Some ?s"
        using inv sh(6) by (subst put_snd_zero) (simp_all add: tty_inv_def)
      then have d: "drop_unechoed s = drop_unechoed ?s"
        using True e off by (subst drop_unechoed.simps) simp
      have "length (line_of ?s) < length (line_of s)" using sh(2,3) by simp
      from less.hyps [OF this sh(1)] obtain s' where
        "drop_unechoed ?s = Some s'" "tty_inv s'" "echo s' = echo ?s" "shiftCount s' = shiftCount ?s"
        "tty_log s' = tty_log ?s" "line_of s' = rev (dropWhile (\<lambda>x. \<not> snd x) (rev (line_of ?s)))" by blast
      then show ?thesis using d off r sh(2) by simp
    qed
  next
    case False
    then have z: "screen_idx s = 0" by (simp add: word_gt_0)
    have "drop_unechoed s = Some s" by (subst drop_unechoed.simps) (simp add: z)
    moreover have "line_of s = []" by (simp add: z line_of_def)
    ultimately show ?thesis using inv by simp
  qed
qed

lemma backspace_pressed_Some:
  assumes inv: "tty_inv s"
  shows "\<exists>s'. backspace_pressed s = Some s' \<and> tty_inv s' \<and>
    editor_of s' = edit_key BackspacePressed (editor_of s)"
proof (cases "screen_idx s > 0")
  case True
  then have nz: "screen_idx s \<noteq> 0" by auto
  note sh = shorten [OF inv True]
  let ?i = "unat (screen_idx s - 1)"
  let ?s = "s\<lparr>screen_idx := screen_idx s - 1, snd_buffer := (snd_buffer s)[?i := 0]\<rparr>"
  have p: "put_snd 0 (s\<lparr>screen_idx := screen_idx s - 1\<rparr>) = Some ?s"
    using inv sh(6) by (subst put_snd_zero) (simp_all add: tty_inv_def)
  have e: "echoed (screen_idx ?s) ?s = Some (snd (last (line_of s)))"
    using inv sh(5,6) by (simp add: echoed_def tty_inv_def)
  show ?thesis
  proof (cases "snd (last (line_of s))")
    case on: True
    have "backspace_pressed s = Some (emit [Erase] ?s)"
      using nz p e on by (simp add: backspace_pressed_def)
    then show ?thesis using sh(1,2,3) on by (simp add: editor_of_def erase_def)
  next
    case off: False
    have b: "backspace_pressed s = drop_unechoed ?s"
      using nz p e off by (simp add: backspace_pressed_def)
    obtain s' where "drop_unechoed ?s = Some s'" "tty_inv s'" "echo s' = echo ?s" "shiftCount s' = shiftCount ?s"
        "tty_log s' = tty_log ?s" "line_of s' = rev (dropWhile (\<lambda>x. \<not> snd x) (rev (line_of ?s)))"
      using drop_unechoed_Some [OF sh(1)] by blast
    then show ?thesis using b sh(2,3) off by (auto simp: editor_of_def erase_def)
  qed
next
  case False
  then have "screen_idx s = 0" by (simp add: word_gt_0)
  then show ?thesis using inv by (simp add: backspace_pressed_def editor_of_def line_of_def erase_def)
qed

section \<open>Scancodes\<close>

lemma restore_loop_Some:
  assumes "tty_inv s" and "i \<le> unat (screen_idx s)"
  shows "\<exists>s'. restore_loop i s = Some s' \<and> wrote s s'"
  using assms
proof (induction "unat (screen_idx s) - i" arbitrary: i s rule: less_induct)
  case less
  note v = less.prems(1) [unfolded tty_inv_def]
  show ?case
  proof (cases "i = unat (screen_idx s)")
    case True
    then have "restore_loop i s = Some s" using v by (subst restore_loop.simps) (simp add: get_byte_def)
    then show ?thesis by simp
  next
    case False
    then have i: "i < unat (screen_idx s)" using less.prems(2) by simp
    then have small: "i < 1919" using v by linarith
    then have u: "unat (of_nat i :: u32) = i" by (simp add: unat_of_nat take_bit_nat_eq_self)
    define s1 where "s1 = (if screen_echoed s ! i then emit [Put (snd_buffer s ! i)] s else s)"
    have w: "wrote s s1" by (auto simp: s1_def intro: wrote_emit)
    have "restore_loop i s = restore_loop (i + 1) s1"
      using v i small by (subst restore_loop.simps) (simp add: get_byte_def echoed_def u s1_def)
    moreover have "\<exists>s'. restore_loop (i + 1) s1 = Some s' \<and> wrote s1 s'"
      using less.prems i wrote_sel(7,9) [OF w] by (intro less.hyps) auto
    ultimately show ?thesis using wrote_trans [OF w] by auto
  qed
qed

lemma km_length: "length km = 183"
  by (simp add: km_def unhandled_def letters_def del: upt_rec_numeral)

lemma km_chars: "x \<in> set km \<Longrightarrow> fst x \<noteq> ReadChar 0 \<and> snd x \<noteq> ReadChar 0 \<and> fst x \<noteq> NullFunc"
  unfolding km_def set_append
  by (auto simp: unhandled_def letters_def simp del: upt_rec_numeral)

lemma call_key_edit:
  assumes inv: "tty_inv s" and k: "k \<noteq> NullFunc" "k \<noteq> ReadChar 0"
  shows "\<exists>s'. call_key k s = Some s' \<and> tty_inv s' \<and> editor_of s' = edit_key k (editor_of s)"
proof (cases k)
  case (Printline l)
  then show ?thesis using printline_wrote [of l s] wrote_sel(9,10) inv by auto
next
  case (ReadUnsint n)
  then show ?thesis using wrote_sel(9,10) [OF wrote_putunsint [of s n False]] inv by (simp add: read_unsint_def)
next
  case (ReadChar c)
  then show ?thesis using read_char_Some [OF inv] k(2) by auto
next
  case ShiftPressed
  then show ?thesis using inv by (simp add: shift_pressed_def tty_inv_def editor_of_def line_of_def)
next
  case ShiftReleased
  then show ?thesis using inv by (simp add: shift_released_def tty_inv_def editor_of_def line_of_def)
next
  case EscapePressed
  then show ?thesis using escape_pressed_Some [OF inv] by (auto simp: editor_of_def)
next
  case BackspacePressed
  then show ?thesis using backspace_pressed_Some [OF inv] by auto
next
  case EnterPressed
  then show ?thesis using enter_pressed_Some [OF inv] by auto
next
  case AltPressed
  then show ?thesis using alt_pressed_Some [OF inv] by auto
next
  case Noop
  then show ?thesis using inv by auto
next
  case NullFunc
  then show ?thesis using k(1) by blast
qed

lemma process_scancode_edit:
  assumes inv: "tty_inv s"
  shows "\<exists>s'. process_scancode scancode s = Some s' \<and> tty_inv s' \<and> editor_of s' = edit scancode (editor_of s)"
proof -
  let ?k = "key_of scancode (shiftCount s)"
  obtain s1 where s1: "(if input_dirty s then restore_input s else Some s) = Some s1"
      "tty_inv s1" "editor_of s1 = editor_of s"
  proof (cases "input_dirty s")
    case True
    obtain a where a: "restore_loop 0 s = Some a" "wrote s a" using restore_loop_Some [OF inv, of 0] by auto
    then have "tty_inv a" "editor_of a = editor_of s" using inv wrote_sel(9,10) [OF a(2)] by simp_all
    then show ?thesis using that True a(1) by (simp add: restore_input_def)
  qed (use that inv in simp)
  have le: "(of_nat (length km) \<le> scancode) = (183 \<le> unat scancode)"
    by (simp add: km_length word_le_nat_alt)
  have w: "wrote s1 (emit [TtyPut LineFeed] s1)" by (rule wrote_emit) simp
  have written: "\<exists>s'. do { s \<leftarrow> putstring (lit a) True (emit [TtyPut LineFeed] s1);
      putstring (lit b) True (putunsint scancode True s) } = Some s' \<and> tty_inv s' \<and> editor_of s' = editor_of s" for a b
    using put_two [of "putunsint scancode True" a "emit [TtyPut LineFeed] s1" b, OF wrote_putunsint]
      wrote_trans [OF w] wrote_sel(9,10) s1(2,3) by metis
  have same: "edit scancode (editor_of s) = edit_key ?k (editor_of s)" by (simp add: edit_def editor_of_def)
  show ?thesis
  proof (cases "?k = NullFunc")
    case True
    then show ?thesis
      using written [of "''scancode ''"  "'' out of range!''"] written [of "''function pointer for scancode ''"  "'' is NULL!''"]
      by (auto simp: process_scancode_def s1(1) le key_of_def same Let_def split: if_splits)
  next
    case False
    then have lt: "unat scancode < 183" by (auto simp: key_of_def split: if_splits)
    then have "km ! unat scancode \<in> set km" by (intro nth_mem) (simp add: km_length)
    then have "?k \<noteq> ReadChar 0" using km_chars lt by (auto simp: key_of_def)
    from call_key_edit [OF s1(2) False this] show ?thesis
      using lt False by (auto simp: process_scancode_def s1(1,3) le key_of_def same Let_def split: if_splits)
  qed
qed

section \<open>The main loop\<close>

fun press :: "u32 list \<Rightarrow> tty \<Rightarrow> tty option" where
  "press [] s = Some s"
| "press (scancode # scs) s = do { s \<leftarrow> process_scancode scancode s; press scs s }"

lemma press_edit:
  "tty_inv s \<Longrightarrow> \<exists>s'. press scs s = Some s' \<and> tty_inv s' \<and> editor_of s' = fold edit scs (editor_of s)"
proof (induction scs arbitrary: s)
  case (Cons sc scs)
  obtain a where a: "process_scancode sc s = Some a" "tty_inv a" "editor_of a = edit sc (editor_of s)"
    using process_scancode_edit [OF Cons.prems] by blast
  from Cons.IH [OF a(2)] show ?case using a by auto
qed simp

lemma tty_start_inv: "tty_inv tty_start"
  by (simp add: tty_inv_def tty_start_def)

lemma process_message_zero:
  assumes "length buffer = 1921"
  shows "process_message buffer 0 s = None"
proof -
  have "unat (0 - 1 :: u32) = 2 ^ 32 - 1" by (simp add: unsigned_minus_1_eq_mask mask_eq_exp_minus_1)
  then have "\<not> unat (0 - 1 :: u32) < length buffer" using assms by simp
  then show ?thesis by (cases "get_byte (snd_buffer s) 0") (simp_all add: process_message_def put_byte_def)
qed

definition receive_length :: "tty \<Rightarrow> u32" where
  "receive_length s = (if screen_idx s = 0 then 1921 else 0)"

lemma tty_round_cases:
  assumes inv: "tty_inv s" and rc: "sys_receive sys (receive_length s) w = ((err, bytes, bs), w1)"
    and len: "length bs \<le> 1921"
  shows "case tty_round sys s w of None \<Rightarrow> err = 0 \<and> bytes = 0
    | Some (e, s', w') \<Rightarrow> \<not> (err = 0 \<and> bytes = 0) \<and> tty_inv s'"
proof -
  let ?s = "s\<lparr>rcv_buffer := bs @ drop (length bs) (rcv_buffer s)\<rparr>"
  have inv': "tty_inv ?s" using inv len by (simp add: tty_inv_def)
  have r: "sys_receive sys (if screen_idx s = 0 then 1921 else 0) w = ((err, bytes, bs), w1)"
    using rc by (simp add: receive_length_def)
  consider (failed) "hasFailed err" | (irq) "\<not> hasFailed err" "0 <s err" | (message) "err = 0"
    unfolding hasFailed_def using signed.less_linear by blast
  then show ?thesis
  proof cases
    case failed
    then have "err \<noteq> 0" by (auto simp: hasFailed_def)
    then show ?thesis using failed inv' by (simp add: tty_round_def r Let_def)
  next
    case irq
    then have "err \<noteq> 0" by auto
    obtain e2 sc w2 where i: "sys_inb sys 0x60 w1 = ((e2, sc), w2)" by (metis surj_pair)
    obtain s' where "process_scancode sc ?s = Some s'" "tty_inv s'"
      using process_scancode_edit [OF inv'] by blast
    then show ?thesis using irq i inv' \<open>err \<noteq> 0\<close> by (simp add: tty_round_def r Let_def)
  next
    case message
    then have z: "\<not> hasFailed err" "\<not> 0 <s err" by (simp_all add: hasFailed_def)
    let ?b = "if bytes < 1921 then bytes else 1920"
    have l: "length (rcv_buffer ?s) = 1921" using inv' by (simp add: tty_inv_def)
    show ?thesis
    proof (cases "bytes = 0")
      case True
      then show ?thesis using z message process_message_zero [OF l, of ?s] by (simp add: tty_round_def r Let_def)
    next
      case False
      then have "0 < unat ?b" "unat ?b \<le> 1921"
        by (auto simp: unat_gt_0 word_less_nat_alt)
      from process_message_Some [OF inv', of ?b "rcv_buffer ?s"] this l
      obtain b s1 d where p: "process_message (rcv_buffer ?s) ?b ?s = Some (b, s1)" "length b = 1921"
          "wrote (?s\<lparr>input_dirty := d\<rparr>) s1" by auto
      have "tty_inv s1" using wrote_sel(9) [OF p(3)] inv' by simp
      then have "tty_inv (s1\<lparr>rcv_buffer := b\<rparr>)" using p(2) by (simp add: tty_inv_def)
      then show ?thesis using z message False p(1) by (simp add: tty_round_def r Let_def)
    qed
  qed
qed

end
