(* ===== verification/MK_Shell.thy ===== *)
theory MK_Shell
  imports MK_Text
begin

text \<open>
  The shell \<^verbatim>\<open>shell/main.c\<close>: it receives lines and answers with their length, through \<open>outf\<close>.
  Its system calls are arguments: \<open>receive\<close> gives the result, the number of bytes and what was
  written to the buffer, \<open>send\<close> is the one of \<open>outf\<close>.
\<close>

type_synonym 'w receiver = "u32 \<Rightarrow> 'w \<Rightarrow> (u32 \<times> u32 \<times> u8 list) \<times> 'w"

text \<open>One round of the main loop; \<open>msg\<close> is the array inside \<open>outf\<close>.\<close>

definition shell_round ::
    "'w receiver \<Rightarrow> 'w sender \<Rightarrow> u8 list \<Rightarrow> u8 list \<Rightarrow> 'w \<Rightarrow> (u32 \<times> u8 list \<times> 'w) option" where
  "shell_round receive send msg buffer w = do {
     let ((err, bytes, bs), w) = receive 1921 w;
     let buffer = bs @ drop (length bs) buffer;
     if hasFailed err then Some (err, buffer, w)
     else do {
       n \<leftarrow> strlen buffer;
       (_, w) \<leftarrow> outf send msg True (bytes_of ''got message containing %u characters'' @ [0]) [n] w;
       Some (OK, buffer, w)
     }
   }"

partial_function (option) shell_loop ::
    "'w receiver \<Rightarrow> 'w sender \<Rightarrow> u8 list \<Rightarrow> u8 list \<Rightarrow> 'w \<Rightarrow> (u32 \<times> 'w) option" where
  "shell_loop receive send msg buffer w = do {
     (err, buffer, w) \<leftarrow> shell_round receive send msg buffer w;
     if hasFailed err then Some (err, w) else shell_loop receive send msg buffer w
   }"

text \<open>The shell until it exits; \<open>set_feature\<close> registers it under a feature.\<close>

definition shell_main ::
    "(u32 \<Rightarrow> 'w \<Rightarrow> u32 \<times> 'w) \<Rightarrow> 'w receiver \<Rightarrow> 'w sender \<Rightarrow> u8 list \<Rightarrow> u8 list \<Rightarrow> 'w \<Rightarrow> 'w option" where
  "shell_main set_feature receive send msg buffer w = do {
     let (err, w) = set_feature 2 w;
     if hasFailed err then Some w
     else do { (_, w) \<leftarrow> shell_loop receive send msg buffer w; Some w }
   }"

section \<open>The answer\<close>

definition answer :: "nat \<Rightarrow> u8 list" where
  "answer n = bytes_of ''got message containing '' @ dec_text (of_nat n) @ bytes_of '' characters''"

lemma render_answer:
  "render (cstr (bytes_of ''got message containing %u characters'' @ [0])) [of_nat n] = Some (answer n)"
proof -
  have c: "cstr (bytes_of ''got message containing %u characters'' @ [0]) =
      bytes_of ''got message containing '' @ [chr CHR ''%'', chr CHR ''u''] @ bytes_of '' characters'' @ []"
    by (simp add: cstr_def bytes_of_def)
  have "render (bytes_of '' characters'' @ []) [] = Some (bytes_of '' characters'')"
    by (subst render_plain) (simp_all add: bytes_of_def)
  then have "render ([chr CHR ''%'', chr CHR ''u''] @ bytes_of '' characters'' @ []) [of_nat n] =
      Some (dec_text (of_nat n) @ bytes_of '' characters'')"
    by (simp add: conv_text_def conv_char_def)
  then show ?thesis
    unfolding c by (subst render_plain) (simp_all add: bytes_of_def answer_def)
qed

lemma shell_round_answers:
  assumes rc: "receive 1921 w = ((err, bytes, bs), w1)" and "\<not> hasFailed err" and s: "is_cstr bs"
    and msg: "length msg = 1921"
  shows "shell_round receive send msg buffer w =
    (case send w1 (answer (length (cstr bs)) @ [0]) True of (_, w2) \<Rightarrow>
       Some (OK, bs @ drop (length bs) buffer, w2))"
proof -
  let ?buf = "bs @ drop (length bs) buffer" and ?n = "length (cstr bs)"
  let ?fmt = "bytes_of ''got message containing %u characters'' @ [0]"
  have b: "is_cstr ?buf" "cstr ?buf = cstr bs" using s by (auto simp: is_cstr_def cstr_def takeWhile_append1)
  have len: "strlen ?buf = Some (of_nat ?n)" using strlen_eq [OF b(1)] b(2) by simp
  have "length (answer ?n) < 1920"
    using dec_text_props(2) [of "of_nat ?n"] by (simp add: answer_def bytes_of_def)
  then have "outf send msg True ?fmt [of_nat ?n] w1 = Some (send w1 (answer ?n @ [0]) True)"
    using outf_loop_eq [of ?fmt 0 "[of_nat ?n]" "answer ?n" 0 msg send True w1] render_answer msg
    by (simp add: outf_def is_cstr_def)
  then show ?thesis using rc assms(2) len by (simp add: shell_round_def split: prod.splits)
qed

end
