(* ===== verification/MK_Tty_Props.thy ===== *)
theory MK_Tty_Props
  imports MK_Editor MK_Shell
begin

text \<open>The properties of the terminal driver and the shell, each with an instance.\<close>

text \<open>
  C25: the terminal driver is a line editor: whatever scancodes arrive, in whatever order, it
  processes them without leaving an array or looping, and its line, its echo, its shift count and
  the lines it has sent to the shell are those of the editor \<open>edit\<close>.
\<close>

theorem terminal_is_line_editor:
  assumes "tty_inv s"
  shows "\<exists>s'. press scs s = Some s' \<and> tty_inv s' \<and> editor_of s' = fold edit scs (editor_of s)"
  using press_edit [OF assms] .

lemma km_at:
  "km ! 35 = (ReadChar 104, ReadChar 72)" "km ! 23 = (ReadChar 105, ReadChar 73)"
  "km ! 14 = (BackspacePressed, BackspacePressed)" "km ! 28 = (EnterPressed, EnterPressed)"
  "km ! 42 = (ShiftPressed, ShiftPressed)" "km ! 170 = (ShiftReleased, ShiftReleased)"
  by code_simp+

text \<open>The keys h, i, i, backspace and enter send the line ``hi'' with its final zero.\<close>

theorem terminal_is_line_editor_witness:
  "\<exists>s'. press [35, 23, 23, 14, 28] tty_start = Some s' \<and> ed_line (editor_of s') = [] \<and>
     ed_sent (editor_of s') = [[104, 105, 0]]"
proof -
  have "editor_of tty_start = \<lparr>ed_line = [], ed_echo = True, ed_shift = 0, ed_sent = []\<rparr>"
    by (simp add: editor_of_def line_of_def tty_start_def)
  then have "fold edit [35, 23, 23, 14, 28] (editor_of tty_start) =
      \<lparr>ed_line = [], ed_echo = True, ed_shift = 0, ed_sent = [[104, 105, 0]]\<rparr>"
    by (simp add: edit_def key_of_def km_at erase_def)
  then show ?thesis
    using terminal_is_line_editor [OF tty_start_inv, of "[35, 23, 23, 14, 28]"] by fastforce
qed

text \<open>
  C26: a round of the driver's main loop leaves its arrays exactly when it receives a message of no
  bytes.  Since the driver offers no room for a message while a line is being typed, every message
  that arrives then has no bytes.
\<close>

theorem round_leaves_array:
  assumes "tty_inv s" and "sys_receive sys (receive_length s) w = ((err, bytes, bs), w1)"
    and "length bs \<le> 1921"
  shows "case tty_round sys s w of None \<Rightarrow> err = 0 \<and> bytes = 0
    | Some (e, s', w') \<Rightarrow> \<not> (err = 0 \<and> bytes = 0) \<and> tty_inv s'"
  by (rule tty_round_cases [OF assms])

text \<open>System calls that deliver an empty message.\<close>

definition empty_message :: "unit tty_sys" where
  "empty_message = \<lparr>sys_claim_port = \<lambda>_ w. (0, w), sys_request_irq = \<lambda>_ w. (0, w),
     sys_set_feature = \<lambda>_ w. (0, w), sys_receive = \<lambda>_ w. ((0, 0, []), w), sys_inb = \<lambda>_ w. ((0, 0), w)\<rparr>"

theorem round_leaves_array_witness:
  "tty_round empty_message tty_start () = None"
proof -
  have "sys_receive empty_message (receive_length tty_start) () = ((0, 0, []), ())"
    by (simp add: empty_message_def)
  from round_leaves_array [OF tty_start_inv this] show ?thesis
    by (simp split: option.splits prod.splits)
qed

text \<open>
  C27: the shell answers every line it receives, of whatever length, with exactly one message, which
  names the number of its characters.
\<close>

theorem shell_answers:
  assumes "receive 1921 w = ((err, bytes, bs), w1)" and "\<not> hasFailed err" and "is_cstr bs"
    and "length msg = 1921"
  shows "shell_round receive send msg buffer w =
    (case send w1 (bytes_of ''got message containing '' @ dec_text (of_nat (length (cstr bs))) @
        bytes_of '' characters'' @ [0]) True of (_, w2) \<Rightarrow> Some (OK, bs @ drop (length bs) buffer, w2))"
  using shell_round_answers [of receive w err bytes bs w1 msg send buffer, OF assms] by (simp add: answer_def)

theorem shell_answers_witness:
  "shell_round (\<lambda>_ w. ((0, 3, [104, 105, 0]), w)) (\<lambda>w m b. (0, w @ [m])) (replicate 1921 0) [] [] =
     Some (OK, [104, 105, 0], [bytes_of ''got message containing 2 characters'' @ [0]])"
proof -
  have "numeral_text dec_digit 10 2 = [50]" by (subst numeral_text.simps) (simp add: dec_digit_def)
  then have d: "dec_text 2 = [50]" by (simp add: dec_text_def)
  have "is_cstr [104, 105, 0 :: u8]" "cstr [104, 105, 0 :: u8] = [104, 105]" "\<not> hasFailed 0"
    by (simp_all add: is_cstr_def cstr_def hasFailed_def)
  then show ?thesis
    using shell_answers [of "\<lambda>_ w. ((0, 3, [104, 105, 0]), w)" "[] :: u8 list list" 0 3 "[104, 105, 0]" "[]"
      "replicate 1921 0" "\<lambda>w m b. (0, w @ [m])" "[]"] d by (simp add: bytes_of_def del: replicate.simps)
qed

end
