(* ===== verification/MK_Hd.thy ===== *)
theory MK_Hd
  imports MK_Usrlib
begin

text \<open>
  The hard disk driver \<^verbatim>\<open>hd/main.c\<close>, first part: the channels, the selection and identification
  of drives, reading and writing sectors.

  The driver is a process: it reaches the hardware through system calls, which are a record of
  operations on the state of the world, an argument of every function here.  A system call stores
  its result in the error variable \<open>hd_err\<close>; the macro \<open>terror\<close> leaves the function when that is
  negative.  \<open>None\<close> is an access outside of an array, a division by zero, or a loop that does not
  end.
\<close>

section \<open>Constants\<close>

abbreviation (input) PORT_DATA :: u32 where "PORT_DATA \<equiv> 0"
abbreviation (input) PORT_ERROR :: u32 where "PORT_ERROR \<equiv> 1"
abbreviation (input) PORT_SECTORCOUNT :: u32 where "PORT_SECTORCOUNT \<equiv> 2"
abbreviation (input) PORT_LBA_LOW :: u32 where "PORT_LBA_LOW \<equiv> 3"
abbreviation (input) PORT_LBA_MID :: u32 where "PORT_LBA_MID \<equiv> 4"
abbreviation (input) PORT_LBA_HIGH :: u32 where "PORT_LBA_HIGH \<equiv> 5"
abbreviation (input) PORT_DRIVESELECT :: u32 where "PORT_DRIVESELECT \<equiv> 6"
abbreviation (input) PORT_COMMAND :: u32 where "PORT_COMMAND \<equiv> 7"
abbreviation (input) PORT_ALTERNATE_STATUS :: u32 where "PORT_ALTERNATE_STATUS \<equiv> 0x206"
abbreviation (input) COMMAND_IDENTIFY :: u32 where "COMMAND_IDENTIFY \<equiv> 0xec"
abbreviation (input) COMMAND_READSECTORS :: u32 where "COMMAND_READSECTORS \<equiv> 0x20"
abbreviation (input) COMMAND_WRITESECTORS :: u32 where "COMMAND_WRITESECTORS \<equiv> 0x30"
abbreviation (input) BIT_DRQ :: u32 where "BIT_DRQ \<equiv> 8"
abbreviation (input) BIT_BUSY :: u32 where "BIT_BUSY \<equiv> 0x80"
abbreviation (input) PORTBASE_PRIMARY :: u32 where "PORTBASE_PRIMARY \<equiv> 0x1f0"
abbreviation (input) PORTBASE_SECONDARY :: u32 where "PORTBASE_SECONDARY \<equiv> 0x170"

section \<open>State\<close>

datatype controller_t = NONE | UNKNOWN | ATA | ATAPI | SATA

text \<open>An inode; the pointers to direct blocks are a list of twelve.\<close>

record inode_t =
  type_and_perms :: u16
  user_id :: u16
  inode_bytes :: u32
  last_access :: u32
  last_change :: u32
  last_modify_time :: u32
  deletion_time :: u32
  group_id :: u16
  nr_hard_links :: u16
  nr_disk_sectors :: u32
  inode_flags :: u32
  os_specific1 :: u32
  directs :: "u32 list"
  singly_indirect :: u32
  doubly_indirect :: u32
  triply_indirect :: u32
  generation_nr :: u32
  special1 :: u32
  special2 :: u32
  fragment_block_addr :: u32
  os_specific2 :: "u8 list"

record block_group_t =
  addr_inode_usage_bitmap :: u32
  addr_block_usage_bitmap :: u32
  block_address_inode_table :: u32

record partition_t =
  part_used :: bool
  bootable :: u32
  first_sector :: u32
  last_sector :: u32
  part_type :: u32
  major_version :: u32
  minor_version :: u32
  nr_block_groups :: u32
  block_size :: u32
  nr_inodes :: u32
  nr_blocks :: u32
  nr_blocks_per_group :: u32
  nr_inodes_per_group :: u32
  inode_size :: u32
  block_groups :: "block_group_t list"

record channel_t =
  controller :: controller_t
  lba_sectors :: u32
  bytes_per_sector :: u16
  bus_info :: u16
  nr_heads :: u16
  nr_sectors_per_track :: u16
  partitions :: "partition_t list"

text \<open>
  The four channels are a list, the channel \<open>ch\<close> of the port \<open>port\<close> at \<open>2 * port + ch\<close>; a pointer to
  a channel is its place.
\<close>

record 'w hd =
  channels :: "channel_t list"
  channel_selected :: "nat option"
  hd_err :: u32
  world :: 'w

text \<open>
  What the driver takes from outside: its system calls, the message array inside \<open>outf\<close>, what is on
  the stack behind the arguments of a call of \<open>outf\<close> that passes too few, what an inode on the stack
  holds before it is read, and the address of the text \<open>__FILE__\<close>.
\<close>

record 'w hd_sys =
  do_claim_port :: "u32 \<Rightarrow> 'w \<Rightarrow> u32 \<times> 'w"
  do_request_irq :: "u32 \<Rightarrow> 'w \<Rightarrow> u32 \<times> 'w"
  do_outb :: "u32 \<Rightarrow> u32 \<Rightarrow> 'w \<Rightarrow> u32 \<times> 'w"
  do_outw :: "u32 \<Rightarrow> u32 \<Rightarrow> 'w \<Rightarrow> u32 \<times> 'w"
  do_inb :: "u32 \<Rightarrow> 'w \<Rightarrow> u32 \<times> u32 \<times> 'w"
  do_inw :: "u32 \<Rightarrow> 'w \<Rightarrow> u32 \<times> u32 \<times> 'w"
  do_receive :: "'w \<Rightarrow> u32 \<times> 'w"
  do_send :: "'w \<Rightarrow> u8 list \<Rightarrow> bool \<Rightarrow> u32 \<times> 'w"
  do_vir2phys :: "u32 \<Rightarrow> 'w \<Rightarrow> u32 \<times> u32 \<times> 'w"
  do_exit :: "'w \<Rightarrow> 'w"
  outf_msg :: "u8 list"
  stack_words :: "u32 list"
  stack_inode :: inode_t
  file_name :: u32

section \<open>System calls and the error variable\<close>

definition call_syscall :: "('w \<Rightarrow> u32 \<times> 'w) \<Rightarrow> 'w hd \<Rightarrow> 'w hd option" where
  "call_syscall f s = (let (e, w) = f (world s) in Some (s\<lparr>hd_err := e, world := w\<rparr>))"

definition call_input :: "('w \<Rightarrow> u32 \<times> u32 \<times> 'w) \<Rightarrow> 'w hd \<Rightarrow> (u32 \<times> 'w hd) option" where
  "call_input f s = (let (e, v, w) = f (world s) in Some (v, s\<lparr>hd_err := e, world := w\<rparr>))"

definition terror :: "('w hd \<Rightarrow> 'w hd option) \<Rightarrow> ('w hd \<Rightarrow> 'w hd option) \<Rightarrow> 'w hd \<Rightarrow> 'w hd option" where
  "terror m k s = do { s \<leftarrow> m s; if hasFailed (hd_err s) then Some s else k s }"

text \<open>For an assignment \<open>terror(v = ...)\<close>.\<close>

definition terror_val ::
    "('w hd \<Rightarrow> ('v \<times> 'w hd) option) \<Rightarrow> ('v \<Rightarrow> 'w hd \<Rightarrow> 'w hd option) \<Rightarrow> 'w hd \<Rightarrow> 'w hd option" where
  "terror_val m k s = do { (v, s) \<leftarrow> m s; if hasFailed (hd_err s) then Some s else k v s }"

definition err_set :: "u32 \<Rightarrow> 'w hd \<Rightarrow> 'w hd option" where
  "err_set e s = Some (s\<lparr>hd_err := e\<rparr>)"

text \<open>\<open>outf\<close> with a null error pointer and a blocking send.\<close>

definition say_bytes :: "'w hd_sys \<Rightarrow> u8 list \<Rightarrow> u32 list \<Rightarrow> 'w hd \<Rightarrow> 'w hd option" where
  "say_bytes sys fmt vl s = do {
     (_, w) \<leftarrow> outf (do_send sys) (outf_msg sys) True fmt (vl @ stack_words sys) (world s);
     Some (s\<lparr>world := w\<rparr>)
   }"

definition say :: "'w hd_sys \<Rightarrow> string \<Rightarrow> u32 list \<Rightarrow> 'w hd \<Rightarrow> 'w hd option" where
  "say sys fmt = say_bytes sys (bytes_of fmt @ [0])"

definition channel :: "nat \<Rightarrow> 'w hd \<Rightarrow> channel_t option" where
  "channel c s = (if c < length (channels s) then Some (channels s ! c) else None)"

definition upd_channel :: "nat \<Rightarrow> (channel_t \<Rightarrow> channel_t) \<Rightarrow> 'w hd \<Rightarrow> 'w hd option" where
  "upd_channel c f s =
     (if c < length (channels s) then Some (s\<lparr>channels := (channels s)[c := f (channels s ! c)]\<rparr>) else None)"

definition is_master :: "channel_t \<Rightarrow> bool" where
  "is_master c \<longleftrightarrow> bus_info c AND 1 \<noteq> 0"

definition is_primary :: "channel_t \<Rightarrow> bool" where
  "is_primary c \<longleftrightarrow> bus_info c AND 2 \<noteq> 0"

definition get_port_base :: "channel_t \<Rightarrow> u32" where
  "get_port_base c = (if is_primary c then PORTBASE_PRIMARY else PORTBASE_SECONDARY)"

definition irq_expected :: "channel_t \<Rightarrow> u32" where
  "irq_expected c = (if is_primary c then 14 else 15)"

section \<open>Ports and drives\<close>

fun claim_all :: "'w hd_sys \<Rightarrow> u32 list \<Rightarrow> 'w hd \<Rightarrow> 'w hd option" where
  "claim_all sys [] s = Some s"
| "claim_all sys (p # ps) s = terror (call_syscall (do_claim_port sys p)) (claim_all sys ps) s"

text \<open>The eighteen calls, in the order of the code.\<close>

definition controller_ports :: "u32 list" where
  "controller_ports =
     map (\<lambda>p. PORTBASE_PRIMARY OR p) [PORT_DATA, PORT_SECTORCOUNT, PORT_LBA_LOW, PORT_LBA_MID,
       PORT_LBA_HIGH, PORT_DRIVESELECT, PORT_COMMAND, PORT_ERROR, PORT_ALTERNATE_STATUS] @
     map (\<lambda>p. PORTBASE_SECONDARY OR p) [PORT_DATA, PORT_SECTORCOUNT, PORT_LBA_LOW, PORT_LBA_MID,
       PORT_LBA_HIGH, PORT_DRIVESELECT, PORT_COMMAND, PORT_ERROR, PORT_ALTERNATE_STATUS]"

definition claim_ports :: "'w hd_sys \<Rightarrow> 'w hd \<Rightarrow> 'w hd option" where
  "claim_ports sys = claim_all sys controller_ports"

definition do_select_drive :: "'w hd_sys \<Rightarrow> nat \<Rightarrow> 'w hd \<Rightarrow> 'w hd option" where
  "do_select_drive sys c s = do {
     ch \<leftarrow> channel c s;
     let v = (if is_master ch then 0xa0 else 0xb0);
     terror (call_syscall (do_outb sys (get_port_base ch OR PORT_DRIVESELECT) v))
       (\<lambda>s. Some (s\<lparr>channel_selected := Some c\<rparr>)) s
   }"

definition select_drive :: "'w hd_sys \<Rightarrow> nat \<Rightarrow> 'w hd \<Rightarrow> 'w hd option" where
  "select_drive sys c s = (if channel_selected s \<noteq> Some c then do_select_drive sys c s else Some s)"

text \<open>Reads \<open>n\<close> words from a port; the words are those read before a failure.\<close>

fun read_words :: "'w hd_sys \<Rightarrow> u32 \<Rightarrow> nat \<Rightarrow> 'w hd \<Rightarrow> (u16 list \<times> 'w hd) option" where
  "read_words sys port 0 s = Some ([], s)"
| "read_words sys port (Suc n) s = do {
     (v, s) \<leftarrow> call_input (do_inw sys port) s;
     if hasFailed (hd_err s) then Some ([], s)
     else do { (ws, s) \<leftarrow> read_words sys port n s; Some (ucast v # ws, s) }
   }"

section \<open>Identification\<close>

definition dword_of :: "u16 \<Rightarrow> u16 \<Rightarrow> u32" where
  "dword_of high low = push_bit 16 (ucast high) OR ucast low"

definition do_ATA :: "'w hd_sys \<Rightarrow> nat \<Rightarrow> 'w hd \<Rightarrow> 'w hd option" where
  "do_ATA sys c s = do {
     ch \<leftarrow> channel c s;
     terror_val (read_words sys (get_port_base ch OR PORT_DATA) 256) (\<lambda>b s. do {
       s \<leftarrow> upd_channel c (\<lambda>ch. ch\<lparr>bytes_per_sector := b ! 5, lba_sectors := dword_of (b ! 61) (b ! 60),
         nr_heads := b ! 3, nr_sectors_per_track := b ! 6\<rparr>) s;
       s \<leftarrow> say sys ''Number of physical cylinders: %u'' [ucast (b ! 0)] s;
       s \<leftarrow> say sys ''Number of heads: %u'' [ucast (b ! 3)] s;
       s \<leftarrow> say sys ''Number of logical cylinders: %u'' [ucast (b ! 54)] s;
       s \<leftarrow> say sys ''Number of logical heads: %u'' [ucast (b ! 55)] s;
       s \<leftarrow> say sys ''Number of logical sectors per track: %u'' [ucast (b ! 56)] s;
       s \<leftarrow> say sys ''Bytes per logical sector: %u'' [dword_of (b ! 58) (b ! 57)] s;
       s \<leftarrow> say sys ''Number of sectors in LBA mode: %u'' [dword_of (b ! 61) (b ! 60)] s;
       say sys '''' [] s
     }) s
   }"

text \<open>
  The loop that looks for the kind of the controller: what it suspects, the last status, and the
  state; a failed system call is in the error variable.  It reads the ports \<open>PORT_LBA_MID\<close> and
  \<open>PORT_LBA_HIGH\<close> themselves, not those of the channel.
\<close>

partial_function (option) probe_loop ::
    "'w hd_sys \<Rightarrow> u32 \<Rightarrow> bool \<Rightarrow> u32 \<Rightarrow> 'w hd \<Rightarrow> ((controller_t \<times> u32) \<times> 'w hd) option" where
  "probe_loop sys status_port jump v s =
     (if v AND BIT_BUSY = 0 then Some ((ATA, v), s)
      else if jump then do {
        (v, s) \<leftarrow> call_input (do_inb sys status_port) s;
        if hasFailed (hd_err s) then Some ((UNKNOWN, v), s) else probe_loop sys status_port jump v s
      }
      else do {
        (mid, s) \<leftarrow> call_input (do_inb sys PORT_LBA_MID) s;
        if hasFailed (hd_err s) then Some ((UNKNOWN, v), s)
        else do {
          (high, s) \<leftarrow> call_input (do_inb sys PORT_LBA_HIGH) s;
          if hasFailed (hd_err s) then Some ((UNKNOWN, v), s)
          else if mid = 0 \<and> high = 0 then do {
            (v, s) \<leftarrow> call_input (do_inb sys status_port) s;
            if hasFailed (hd_err s) then Some ((UNKNOWN, v), s) else probe_loop sys status_port True v s
          }
          else if mid = 0x14 \<and> high = 0xeb then Some ((ATAPI, v), s)
          else if mid = 0x3c \<and> high = 0xc3 then Some ((SATA, v), s)
          else Some ((UNKNOWN, v), s)
        }
      })"

definition set_controller :: "controller_t \<Rightarrow> nat \<Rightarrow> 'w hd \<Rightarrow> 'w hd option" where
  "set_controller k c = upd_channel c (\<lambda>ch. ch\<lparr>controller := k\<rparr>)"

text \<open>The body of \<open>identify\<close> up to the label \<open>finish\<close>.\<close>

definition identify_drive :: "'w hd_sys \<Rightarrow> nat \<Rightarrow> 'w hd \<Rightarrow> 'w hd option" where
  "identify_drive sys c s = do {
     ch \<leftarrow> channel c s;
     let base = get_port_base ch;
     terror (select_drive sys c)
     (terror (call_syscall (do_outb sys (base OR PORT_SECTORCOUNT) 0))
     (terror (call_syscall (do_outb sys (base OR PORT_LBA_LOW) 0))
     (terror (call_syscall (do_outb sys (base OR PORT_LBA_MID) 0))
     (terror (call_syscall (do_outb sys (base OR PORT_LBA_HIGH) 0))
     (terror (call_syscall (do_outb sys (base OR PORT_COMMAND) COMMAND_IDENTIFY))
     (terror_val (call_input (do_inb sys (base OR PORT_ALTERNATE_STATUS)))
     (\<lambda>v. if v = 0 then set_controller NONE c
          else terror_val (probe_loop sys (base OR PORT_ALTERNATE_STATUS) False v)
            (\<lambda>(suspect, v) s.
               if suspect = ATA \<and> v AND BIT_DRQ \<noteq> 0 then do {
                 s \<leftarrow> say sys ''Detected ATA drive on port %x channel %x:'' [] s;
                 s \<leftarrow> say sys '''' [] s;
                 terror (do_ATA sys c) (set_controller ATA c) s
               }
               else if suspect = ATAPI then terror (say sys ''do_ATAPI()'' []) (set_controller ATAPI c) s
               else if suspect = SATA then terror (say sys ''do_SATA()'' []) (set_controller SATA c) s
               else Some s)))))))) s
   }"

text \<open>
  Behind \<open>finish\<close> the code asks whether the address of the error variable is negative, which no
  address is.
\<close>

definition identify :: "'w hd_sys \<Rightarrow> nat \<Rightarrow> 'w hd \<Rightarrow> 'w hd option" where
  "identify sys c s = do {
     s \<leftarrow> identify_drive sys c s;
     ch \<leftarrow> channel c s;
     if controller ch = NONE \<or> controller ch = UNKNOWN then Some s
     else if is_primary ch then call_syscall (do_request_irq sys 14) s
     else call_syscall (do_request_irq sys 15) s
   }"

section \<open>Sectors\<close>

definition check_ata :: "nat \<Rightarrow> 'w hd \<Rightarrow> 'w hd option" where
  "check_ata c s = do { ch \<leftarrow> channel c s; if controller ch \<noteq> ATA then err_set NOTATA s else Some s }"

definition check_sector :: "nat \<Rightarrow> u32 \<Rightarrow> 'w hd \<Rightarrow> 'w hd option" where
  "check_sector c number s =
     do { ch \<leftarrow> channel c s; if number \<ge> lba_sectors ch then err_set BEYONDENDOFDEVICE s else Some s }"

text \<open>Waits until the drive asks for data.\<close>

partial_function (option) wait_drq :: "'w hd_sys \<Rightarrow> channel_t \<Rightarrow> u32 \<Rightarrow> 'w hd \<Rightarrow> 'w hd option" where
  "wait_drq sys ch status s =
     (if status AND BIT_DRQ \<noteq> 0 then Some s
      else do {
        s \<leftarrow> call_syscall (do_receive sys) s;
        if hasFailed (hd_err s) then Some s
        else if hd_err s \<noteq> irq_expected ch then wait_drq sys ch status s
        else do {
          (status, s) \<leftarrow> call_input (do_inb sys (get_port_base ch OR PORT_ALTERNATE_STATUS)) s;
          if hasFailed (hd_err s) then Some s else wait_drq sys ch status s
        }
      })"

text \<open>What \<open>read_sector\<close> and \<open>write_sector\<close> have in common: everything before the data.\<close>

definition sector_command :: "'w hd_sys \<Rightarrow> u32 \<Rightarrow> u32 \<Rightarrow> nat \<Rightarrow> 'w hd \<Rightarrow> 'w hd option" where
  "sector_command sys command number c =
     terror (check_ata c)
     (terror (check_sector c number)
     (terror (select_drive sys c)
     (\<lambda>s. do {
       ch \<leftarrow> channel c s;
       let base = get_port_base ch;
       let v = (if is_master ch then 0xe0 else 0xf0);
       terror (call_syscall (do_outb sys (base OR PORT_DRIVESELECT) (v OR drop_bit 24 number)))
       (terror (call_syscall (do_outb sys (base OR PORT_SECTORCOUNT) 1))
       (terror (call_syscall (do_outb sys (base OR PORT_LBA_LOW) (number AND 0xff)))
       (terror (call_syscall (do_outb sys (base OR PORT_LBA_MID) (drop_bit 8 number AND 0xff)))
       (terror (call_syscall (do_outb sys (base OR PORT_LBA_HIGH) (drop_bit 16 number AND 0xff)))
       (terror (call_syscall (do_outb sys (base OR PORT_COMMAND) command))
       (terror_val (call_input (do_inb sys (base OR PORT_ALTERNATE_STATUS)))
       (wait_drq sys ch))))))) s
     })))"

definition bytes_of_words :: "u16 list \<Rightarrow> u8 list" where
  "bytes_of_words ws = concat (map (\<lambda>w. [ucast w, ucast (drop_bit 8 w)]) ws)"

text \<open>The bytes of the sector; after a failure, what was read before it.\<close>

definition read_sector :: "'w hd_sys \<Rightarrow> u32 \<Rightarrow> nat \<Rightarrow> 'w hd \<Rightarrow> (u8 list \<times> 'w hd) option" where
  "read_sector sys number c s = do {
     s \<leftarrow> sector_command sys COMMAND_READSECTORS number c s;
     if hasFailed (hd_err s) then Some ([], s)
     else do {
       ch \<leftarrow> channel c s;
       (ws, s) \<leftarrow> read_words sys (get_port_base ch OR PORT_DATA) 256 s;
       Some (bytes_of_words ws, s)
     }
   }"

fun write_words :: "'w hd_sys \<Rightarrow> u32 \<Rightarrow> u16 list \<Rightarrow> 'w hd \<Rightarrow> 'w hd option" where
  "write_words sys port [] s = Some s"
| "write_words sys port (w # ws) s = terror (call_syscall (do_outw sys port (ucast w))) (write_words sys port ws) s"

definition write_sector :: "'w hd_sys \<Rightarrow> u32 \<Rightarrow> nat \<Rightarrow> u16 list \<Rightarrow> 'w hd \<Rightarrow> 'w hd option" where
  "write_sector sys number c buffer s =
     terror (sector_command sys COMMAND_WRITESECTORS number c)
       (\<lambda>s. do { ch \<leftarrow> channel c s;
                 if length buffer < 256 then None else write_words sys (get_port_base ch) (take 256 buffer) s }) s"

end
