(* ===== verification/MK_Ext2.thy ===== *)
theory MK_Ext2
  imports MK_Hd
begin

text \<open>
  The hard disk driver \<^verbatim>\<open>hd/main.c\<close>, second part: the partition table, the superblock, the
  descriptors of the block groups, inodes and directories, the main function; and the search for
  buffers the bus master can use, which the main function does not call.

  A buffer is the list of its bytes.  Reading outside of it, a division by zero and a loop that
  does not end are \<open>None\<close>.
\<close>

section \<open>Fields of a buffer\<close>

definition le16 :: "u8 list \<Rightarrow> nat \<Rightarrow> u16" where
  "le16 b i = ucast (b ! i) OR push_bit 8 (ucast (b ! (i + 1)))"

definition le32 :: "u8 list \<Rightarrow> nat \<Rightarrow> u32" where
  "le32 b i = ucast (le16 b i) OR push_bit 16 (ucast (le16 b (i + 2)))"

definition get16 :: "u8 list \<Rightarrow> nat \<Rightarrow> u16 option" where
  "get16 b i = (if i + 2 \<le> length b then Some (le16 b i) else None)"

definition get32 :: "u8 list \<Rightarrow> nat \<Rightarrow> u32 option" where
  "get32 b i = (if i + 4 \<le> length b then Some (le32 b i) else None)"

definition div32 :: "u32 \<Rightarrow> u32 \<Rightarrow> u32 option" where
  "div32 a b = (if b = 0 then None else Some (a div b))"

text \<open>The partition \<open>p\<close> of the channel \<open>c\<close>.\<close>

definition partition :: "nat \<Rightarrow> nat \<Rightarrow> 'w hd \<Rightarrow> partition_t option" where
  "partition c p s = do {
     ch \<leftarrow> channel c s;
     if p < length (partitions ch) then Some (partitions ch ! p) else None
   }"

definition upd_partition :: "nat \<Rightarrow> nat \<Rightarrow> (partition_t \<Rightarrow> partition_t) \<Rightarrow> 'w hd \<Rightarrow> 'w hd option" where
  "upd_partition c p f s = do {
     q \<leftarrow> partition c p s;
     upd_channel c (\<lambda>ch. ch\<lparr>partitions := (partitions ch)[p := f q]\<rparr>) s
   }"

text \<open>
  The macro \<open>TODOERROR\<close> prints a message and leaves the function; the error variable stays as it
  is.  \<open>outf\<close> does not know \<open>%s\<close>, so \<open>%d\<close> takes the address of the file name.
\<close>

definition todo_error :: "'w hd_sys \<Rightarrow> u32 \<Rightarrow> 'w hd \<Rightarrow> 'w hd option" where
  "todo_error sys line = say sys ''%s:%d: UNDEFINED ERROR'' [file_name sys, line]"

text \<open>Two sectors into the two halves of an array of 1024 bytes.\<close>

definition read_two ::
    "'w hd_sys \<Rightarrow> u32 \<Rightarrow> u32 \<Rightarrow> nat \<Rightarrow> (u8 list \<Rightarrow> 'w hd \<Rightarrow> 'w hd option) \<Rightarrow> 'w hd \<Rightarrow> 'w hd option" where
  "read_two sys sector1 sector2 c k =
     terror_val (read_sector sys sector1 c)
       (\<lambda>b1. terror_val (read_sector sys sector2 c) (\<lambda>b2. k (b1 @ b2)))"

section \<open>Inodes\<close>

definition inode_at :: "u8 list \<Rightarrow> nat \<Rightarrow> inode_t option" where
  "inode_at b i =
     (if i + 128 \<le> length b then Some \<lparr>
        type_and_perms = le16 b i, user_id = le16 b (i + 2), inode_bytes = le32 b (i + 4),
        last_access = le32 b (i + 8), last_change = le32 b (i + 12),
        last_modify_time = le32 b (i + 16), deletion_time = le32 b (i + 20),
        group_id = le16 b (i + 24), nr_hard_links = le16 b (i + 26),
        nr_disk_sectors = le32 b (i + 28), inode_flags = le32 b (i + 32), os_specific1 = le32 b (i + 36),
        directs = map (\<lambda>j. le32 b (i + 40 + 4 * j)) [0..<12],
        singly_indirect = le32 b (i + 88), doubly_indirect = le32 b (i + 92),
        triply_indirect = le32 b (i + 96), generation_nr = le32 b (i + 100),
        special1 = le32 b (i + 104), special2 = le32 b (i + 108), fragment_block_addr = le32 b (i + 112),
        os_specific2 = take 12 (drop (i + 116) b)\<rparr>
      else None)"

text \<open>
  The byte of the device where \<open>read_inode\<close> looks for an inode, a word of 32 bits.  The code
  computes \<open>block_nr\<close> as well, without using it: a block size of zero is a division by zero.
\<close>

definition inode_offset :: "partition_t \<Rightarrow> u32 \<Rightarrow> u32 option" where
  "inode_offset q inode_nr = do {
     block_group_nr \<leftarrow> div32 (inode_nr - 1) (nr_inodes_per_group q);
     let inode_index = (inode_nr - 1) mod nr_inodes_per_group q;
     block_nr \<leftarrow> div32 (inode_index * inode_size q) (block_size q);
     if length (block_groups q) \<le> unat block_group_nr then None
     else do {
       let table = block_address_inode_table (block_groups q ! unat block_group_nr);
       Some (first_sector q * 512 + block_group_nr * nr_blocks_per_group q * block_size q +
         table * block_size q + inode_index * inode_size q)
     }
   }"

text \<open>
  Gives the inode that the pointer \<open>inode\<close> then refers to.  A number out of range leaves it as it
  was, and no error.
\<close>

definition read_inode ::
    "'w hd_sys \<Rightarrow> nat \<Rightarrow> nat \<Rightarrow> u32 \<Rightarrow> inode_t \<Rightarrow> 'w hd \<Rightarrow> (inode_t \<times> 'w hd) option" where
  "read_inode sys c p inode_nr inode s = do {
     q \<leftarrow> partition c p s;
     if inode_nr < 1 \<or> inode_nr > nr_inodes q
     then do { s \<leftarrow> todo_error sys 602 s; Some (inode, s) }
     else do {
       offset \<leftarrow> inode_offset q inode_nr;
       (buffer, s) \<leftarrow> read_sector sys (offset div 512) c s;
       if hasFailed (hd_err s) then Some (inode, s)
       else do { inode \<leftarrow> inode_at buffer (unat (offset mod 512)); Some (inode, s) }
     }
   }"

section \<open>Directories\<close>

text \<open>
  The entries of a block of a directory, from the place \<open>cur\<close> on.  The name is passed to \<open>outf\<close> as
  the format.
\<close>

partial_function (option) direct_entries :: "'w hd_sys \<Rightarrow> u8 list \<Rightarrow> nat \<Rightarrow> 'w hd \<Rightarrow> 'w hd option" where
  "direct_entries sys block cur s =
     (if 1024 \<le> cur then Some s
      else if 1023 < cur + 4 then Some s
      else do {
        s \<leftarrow> say sys ''Found entry:'' [] s;
        s \<leftarrow> say_bytes sys (drop (cur + 8) block) [] s;
        inode_nr \<leftarrow> get32 block cur;
        n \<leftarrow> get16 block (cur + 4);
        direct_entries sys block (cur + unat n) s
      })"

definition do_direct_directory :: "'w hd_sys \<Rightarrow> u8 list \<Rightarrow> 'w hd \<Rightarrow> 'w hd option" where
  "do_direct_directory sys block = direct_entries sys block 0"

text \<open>Goes through block numbers; a zero ends the function, after the last one comes \<open>k\<close>.\<close>

fun walk_blocks ::
    "(u32 \<Rightarrow> 'w hd \<Rightarrow> 'w hd option) \<Rightarrow> u32 list \<Rightarrow> ('w hd \<Rightarrow> 'w hd option) \<Rightarrow> 'w hd \<Rightarrow> 'w hd option" where
  "walk_blocks f [] k s = k s"
| "walk_blocks f (b # bs) k s = (if b = 0 then Some s else terror (f b) (walk_blocks f bs k) s)"

definition words_of_block :: "u8 list \<Rightarrow> u32 list" where
  "words_of_block block = map (\<lambda>j. le32 block (4 * j)) [0..<256]"

text \<open>The same sector is read into both halves of the block.\<close>

primrec do_indirect_directory :: "'w hd_sys \<Rightarrow> nat \<Rightarrow> nat \<Rightarrow> nat \<Rightarrow> u32 \<Rightarrow> 'w hd \<Rightarrow> 'w hd option" where
  "do_indirect_directory sys c p 0 block_nr s = do {
     q \<leftarrow> partition c p s;
     let sector_nr = block_nr * block_size q div 512 + first_sector q;
     if block_size q \<noteq> 1024 then todo_error sys 679 s
     else read_two sys sector_nr sector_nr c (do_direct_directory sys) s
   }"
| "do_indirect_directory sys c p (Suc level) block_nr s = do {
     q \<leftarrow> partition c p s;
     let sector_nr = block_nr * block_size q div 512 + first_sector q;
     if block_size q \<noteq> 1024 then todo_error sys 679 s
     else read_two sys sector_nr sector_nr c
       (\<lambda>block s. if length block < 1024 then None
          else walk_blocks (do_indirect_directory sys c p level) (words_of_block block) Some s) s
   }"

definition read_directory :: "'w hd_sys \<Rightarrow> nat \<Rightarrow> nat \<Rightarrow> inode_t \<Rightarrow> 'w hd \<Rightarrow> 'w hd option" where
  "read_directory sys c p inode =
     walk_blocks (do_indirect_directory sys c p 0) (directs inode)
     (walk_blocks (do_indirect_directory sys c p 1) [singly_indirect inode]
     (walk_blocks (do_indirect_directory sys c p 2) [doubly_indirect inode]
     (walk_blocks (do_indirect_directory sys c p 3) [triply_indirect inode] Some)))"

definition show_inode :: "'w hd_sys \<Rightarrow> nat \<Rightarrow> nat \<Rightarrow> inode_t \<Rightarrow> 'w hd \<Rightarrow> 'w hd option" where
  "show_inode sys c p inode s =
     (if type_and_perms inode AND 0x4000 \<noteq> 0 then do {
        s \<leftarrow> say sys ''Reading directory'' [] s;
        read_directory sys c p inode s
      }
      else say sys ''type of inode is %x'' [ucast (type_and_perms inode)] s)"

definition read_root_inode :: "'w hd_sys \<Rightarrow> nat \<Rightarrow> nat \<Rightarrow> 'w hd \<Rightarrow> 'w hd option" where
  "read_root_inode sys c p s = do {
     s \<leftarrow> say sys ''Reading root inode ...'' [] s;
     terror_val (read_inode sys c p 2 (stack_inode sys)) (show_inode sys c p) s
   }"

section \<open>The superblock\<close>

abbreviation (input) MAX_NR_BLOCK_GROUPS :: u32 where "MAX_NR_BLOCK_GROUPS \<equiv> 5"

text \<open>The shift of the machine uses the low five bits of the count.\<close>

definition get_block_size :: "u8 list \<Rightarrow> u32" where
  "get_block_size superblock = push_bit (unat (le32 superblock 24) mod 32) 1024"

definition block_group_of :: "u8 list \<Rightarrow> nat \<Rightarrow> block_group_t" where
  "block_group_of table i = \<lparr>
     addr_inode_usage_bitmap = le32 table (32 * i + 4),
     addr_block_usage_bitmap = le32 table (32 * i),
     block_address_inode_table = le32 table (32 * i + 8)\<rparr>"

text \<open>One round of the loop over the block groups.\<close>

definition set_block_group :: "nat \<Rightarrow> nat \<Rightarrow> u8 list \<Rightarrow> nat \<Rightarrow> 'w hd \<Rightarrow> 'w hd option" where
  "set_block_group c p table i s = do {
     q \<leftarrow> partition c p s;
     if length (block_groups q) \<le> i \<or> length table < 32 * i + 12 then None
     else upd_partition c p (\<lambda>q. q\<lparr>block_groups := (block_groups q)[i := block_group_of table i]\<rparr>) s
   }"

fun set_block_groups :: "nat \<Rightarrow> nat \<Rightarrow> u8 list \<Rightarrow> nat \<Rightarrow> nat \<Rightarrow> 'w hd \<Rightarrow> 'w hd option" where
  "set_block_groups c p table i 0 s = Some s"
| "set_block_groups c p table i (Suc n) s =
     do { s \<leftarrow> set_block_group c p table i s; set_block_groups c p table (i + 1) n s }"

definition read_group_descriptor_table :: "'w hd_sys \<Rightarrow> nat \<Rightarrow> nat \<Rightarrow> 'w hd \<Rightarrow> 'w hd option" where
  "read_group_descriptor_table sys c p s = do {
     q \<leftarrow> partition c p s;
     let sector = first_sector q + (if block_size q = 1024 then 4 else block_size q div 512);
     read_two sys sector (sector + 1) c (\<lambda>table s. do {
       q \<leftarrow> partition c p s;
       set_block_groups c p table 0 (unat (nr_block_groups q)) s
     }) s
   }"

definition set_superblock :: "u8 list \<Rightarrow> partition_t \<Rightarrow> partition_t" where
  "set_superblock sb q =
     (let major = le32 sb 76
      in q\<lparr>block_size := get_block_size sb, nr_inodes := le32 sb 0, nr_blocks := le32 sb 4,
        nr_blocks_per_group := le32 sb 32, nr_inodes_per_group := le32 sb 40, major_version := major,
        inode_size := (if major < 1 then 128 else ucast (le16 sb 88)),
        minor_version := ucast (le16 sb 62)\<rparr>)"

definition count_block_groups :: "u8 list \<Rightarrow> u32 option" where
  "count_block_groups sb = do {
     i \<leftarrow> div32 (le32 sb 0) (le32 sb 40);
     b \<leftarrow> div32 (le32 sb 4) (le32 sb 32);
     Some (if i < b then i else b)
   }"

definition read_superblock :: "'w hd_sys \<Rightarrow> nat \<Rightarrow> nat \<Rightarrow> 'w hd \<Rightarrow> 'w hd option" where
  "read_superblock sys c p s = do {
     q \<leftarrow> partition c p s;
     let sector = first_sector q + 2;
     read_two sys sector (sector + 1) c (\<lambda>sb s.
       if length sb < 1024 then None
       else do {
         s \<leftarrow> say sys ''Suberblock signature: %x'' [scast (sb ! 56)] s;
         s \<leftarrow> upd_partition c p (set_superblock sb) s;
         n \<leftarrow> count_block_groups sb;
         s \<leftarrow> upd_partition c p (\<lambda>q. q\<lparr>nr_block_groups := n\<rparr>) s;
         if n > MAX_NR_BLOCK_GROUPS then todo_error sys 801 s
         else terror (read_group_descriptor_table sys c p) (read_root_inode sys c p) s
       }) s
   }"

section \<open>The partition table\<close>

text \<open>The macros over the sixteen bytes of an entry.\<close>

definition partition_get_cylinder :: "u8 list \<Rightarrow> nat \<Rightarrow> u16" where
  "partition_get_cylinder e i = push_bit 2 (ucast (e ! i) AND 0xc0) OR ucast (e ! (i + 1))"

definition partition_get_first_cylinder :: "u8 list \<Rightarrow> u16" where
  "partition_get_first_cylinder e = partition_get_cylinder e 2"

definition partition_get_first_head :: "u8 list \<Rightarrow> u16" where
  "partition_get_first_head e = ucast (e ! 1)"

definition partition_get_first_sector :: "u8 list \<Rightarrow> u16" where
  "partition_get_first_sector e = ucast (e ! 2) AND 0x3f"

definition partition_get_last_cylinder :: "u8 list \<Rightarrow> u16" where
  "partition_get_last_cylinder e = partition_get_cylinder e 6"

definition partition_get_last_head :: "u8 list \<Rightarrow> u16" where
  "partition_get_last_head e = ucast (e ! 5)"

definition partition_get_last_sector :: "u8 list \<Rightarrow> u16" where
  "partition_get_last_sector e = ucast (e ! 6) AND 0x3f"

definition chs2lba :: "channel_t \<Rightarrow> u16 \<Rightarrow> u16 \<Rightarrow> u16 \<Rightarrow> u32" where
  "chs2lba ch c h n =
     (ucast c * ucast (nr_heads ch) + ucast h) * ucast (nr_sectors_per_track ch) + ucast n - 1"

definition set_entry :: "u8 list \<Rightarrow> channel_t \<Rightarrow> partition_t \<Rightarrow> partition_t" where
  "set_entry e ch q = q\<lparr>bootable := ucast (e ! 0), part_type := ucast (e ! 4),
     first_sector := chs2lba ch (partition_get_first_cylinder e) (partition_get_first_head e)
       (partition_get_first_sector e),
     last_sector := chs2lba ch (partition_get_last_cylinder e) (partition_get_last_head e)
       (partition_get_last_sector e)\<rparr>"

text \<open>One round of the loop; \<open>k\<close> are the rounds after it.\<close>

definition read_entry ::
    "'w hd_sys \<Rightarrow> nat \<Rightarrow> nat \<Rightarrow> u8 list \<Rightarrow> ('w hd \<Rightarrow> 'w hd option) \<Rightarrow> 'w hd \<Rightarrow> 'w hd option" where
  "read_entry sys c p e k s =
     (if e ! 4 = 0 then do { s \<leftarrow> upd_partition c p (\<lambda>q. q\<lparr>part_used := False\<rparr>) s; k s }
      else do {
        s \<leftarrow> say sys ''Partition %u in use ...'' [of_nat p] s;
        ch \<leftarrow> channel c s;
        s \<leftarrow> upd_partition c p (set_entry e ch) s;
        (if e ! 4 = 0x83 then terror (read_superblock sys c p) else (\<lambda>k s. k s))
          (\<lambda>s. do { s \<leftarrow> upd_partition c p (\<lambda>q. q\<lparr>part_used := True\<rparr>) s; k s }) s
      })"

text \<open>The rounds from \<open>p\<close> on, \<open>n\<close> of them.\<close>

fun read_entries :: "'w hd_sys \<Rightarrow> nat \<Rightarrow> u8 list \<Rightarrow> nat \<Rightarrow> nat \<Rightarrow> 'w hd \<Rightarrow> 'w hd option" where
  "read_entries sys c buffer p 0 s = say sys '''' [] s"
| "read_entries sys c buffer p (Suc n) s =
     read_entry sys c p (take 16 (drop (446 + 16 * p) buffer)) (read_entries sys c buffer (p + 1) n) s"

definition read_partition_table :: "'w hd_sys \<Rightarrow> nat \<Rightarrow> 'w hd \<Rightarrow> 'w hd option" where
  "read_partition_table sys c =
     terror_val (read_sector sys 0 c)
       (\<lambda>buffer. if length buffer < 512 then (\<lambda>s. None) else read_entries sys c buffer 0 4)"

section \<open>The main function\<close>

fun identify_all :: "'w hd_sys \<Rightarrow> nat list \<Rightarrow> ('w hd \<Rightarrow> 'w hd option) \<Rightarrow> 'w hd \<Rightarrow> 'w hd option" where
  "identify_all sys [] k s = k s"
| "identify_all sys (c # cs) k s = terror (identify sys c) (identify_all sys cs k) s"

fun read_tables :: "'w hd_sys \<Rightarrow> nat list \<Rightarrow> 'w hd \<Rightarrow> 'w hd option" where
  "read_tables sys [] s = Some s"
| "read_tables sys (c # cs) s = do {
     ch \<leftarrow> channel c s;
     if controller ch = ATA then do {
       s \<leftarrow> say sys ''Reading partition table of channel[%d][%d] ...'' [of_nat (c div 2), of_nat (c mod 2)] s;
       terror (read_partition_table sys c) (read_tables sys cs) s
     }
     else read_tables sys cs s
   }"

definition hd_main :: "'w hd_sys \<Rightarrow> 'w hd \<Rightarrow> 'w hd option" where
  "hd_main sys s = do {
     s \<leftarrow> terror (claim_ports sys) (identify_all sys [0, 1, 2, 3] (read_tables sys [0, 1, 2, 3])) s;
     s \<leftarrow> (if hasFailed (hd_err s) then say sys (err2String (hd_err s)) [] s
          else say sys ''IDE driver exiting without errors!'' [] s);
     Some (s\<lparr>world := do_exit sys (world s)\<rparr>)
   }"

text \<open>The static data of the driver when it starts.\<close>

definition blank_partition :: partition_t where
  "blank_partition = \<lparr>part_used = False, bootable = 0, first_sector = 0, last_sector = 0, part_type = 0,
     major_version = 0, minor_version = 0, nr_block_groups = 0, block_size = 0, nr_inodes = 0,
     nr_blocks = 0, nr_blocks_per_group = 0, nr_inodes_per_group = 0, inode_size = 0,
     block_groups = replicate 5 \<lparr>addr_inode_usage_bitmap = 0, addr_block_usage_bitmap = 0,
       block_address_inode_table = 0\<rparr>\<rparr>"

definition channels_init :: "channel_t list" where
  "channels_init = map (\<lambda>b. \<lparr>controller = UNKNOWN, lba_sectors = 0, bytes_per_sector = 0, bus_info = b,
     nr_heads = 0, nr_sectors_per_track = 0, partitions = replicate 4 blank_partition\<rparr>)
       [1 OR 2, 2, 1, 0]"

definition hd_init :: "'w \<Rightarrow> 'w hd" where
  "hd_init w = \<lparr>channels = channels_init, channel_selected = None, hd_err = OK, world = w\<rparr>"

section \<open>Status display and transfer buffers\<close>

definition bit_text :: "u32 \<Rightarrow> u32 \<Rightarrow> u32" where
  "bit_text status b = (if status AND b \<noteq> 0 then 1 else 0)"

text \<open>The line \<open>df\<close> shows the bit \<open>BIT_SRV\<close>.\<close>

definition display_status :: "'w hd_sys \<Rightarrow> u32 \<Rightarrow> 'w hd \<Rightarrow> 'w hd option" where
  "display_status sys status s = do {
     s \<leftarrow> say sys ''error: %u'' [bit_text status 1] s;
     s \<leftarrow> say sys ''drq: %u'' [bit_text status 8] s;
     s \<leftarrow> say sys ''srv: %u'' [bit_text status 0x10] s;
     s \<leftarrow> say sys ''df: %u'' [bit_text status 0x10] s;
     s \<leftarrow> say sys ''rdy: %u'' [bit_text status 0x40] s;
     say sys ''busy: %u'' [bit_text status 0x80] s
   }"

text \<open>
  A buffer for the bus master: where it is in the address space of the process and where in the
  memory.  Both functions take the address of the array they search in.
\<close>

record dma_t =
  dma_addr :: u32
  dma_phys :: u32

definition do_dma_buffer ::
    "'w hd_sys \<Rightarrow> u32 \<Rightarrow> dma_t \<Rightarrow> 'w hd \<Rightarrow> (dma_t \<times> 'w hd) option" where
  "do_dma_buffer sys space d s = do {
     (phys, s) \<leftarrow> call_input (do_vir2phys sys space) s;
     if hasFailed (hd_err s) then Some (d, s)
     else if phys mod 65536 = 0 then Some (d\<lparr>dma_addr := space, dma_phys := phys\<rparr>, s)
     else do {
       let next_boundary = (phys div 65536 + 1) * 65536;
       Some (d\<lparr>dma_addr := space + (next_boundary - phys), dma_phys := next_boundary\<rparr>, s)
     }
   }"

definition do_prdt ::
    "'w hd_sys \<Rightarrow> u32 \<Rightarrow> dma_t \<Rightarrow> 'w hd \<Rightarrow> (dma_t \<times> 'w hd) option" where
  "do_prdt sys space d s = do {
     (phys, s) \<leftarrow> call_input (do_vir2phys sys space) s;
     if hasFailed (hd_err s) then Some (d, s)
     else if phys div 65536 = (phys + 8) div 65536 then Some (d\<lparr>dma_addr := space, dma_phys := phys\<rparr>, s)
     else do {
       let next_boundary = (phys div 65536 + 1) * 65536;
       Some (d\<lparr>dma_addr := space + (next_boundary - phys), dma_phys := next_boundary\<rparr>, s)
     }
   }"

end
