(* ===== verification/MK_Hd_Frame.thy ===== *)
theory MK_Hd_Frame
  imports MK_Ext2 MK_Text
begin

text \<open>
  What the hard disk driver does to the world.  The locales \<open>message_calls\<close> and \<open>driver_calls\<close> are
  the interface between the driver and its system calls: a condition on the world that the system
  calls keep when they are used the way the driver uses them (ports of the two controllers, the
  ports 4 and 5 for reading) is kept by every function of the driver.  The interpretation is on
  any system calls that are recorded in a log.
\<close>

locale message_calls =
  fixes sys :: "'w hd_sys" and ok :: "'w \<Rightarrow> bool"
  assumes send: "ok w \<Longrightarrow> ok (snd (do_send sys w m blk))"
begin

text \<open>The condition holds after a call that returns; for calls without and with a result.\<close>

definition after :: "'w hd option \<Rightarrow> bool" where
  "after r \<longleftrightarrow> (\<forall>s. r = Some s \<longrightarrow> ok (world s))"

definition after_val :: "('v \<times> 'w hd) option \<Rightarrow> bool" where
  "after_val r \<longleftrightarrow> (\<forall>v s. r = Some (v, s) \<longrightarrow> ok (world s))"

lemma after_simps [simp]:
  "after None" "after (Some s) \<longleftrightarrow> ok (world s)" "after_val None" "after_val (Some (v, s)) \<longleftrightarrow> ok (world s)"
  by (simp_all add: after_def after_val_def)

lemma after_bind: "after r \<Longrightarrow> (\<And>s. ok (world s) \<Longrightarrow> after (k s)) \<Longrightarrow> after (r \<bind> k)"
  by (cases r) auto

lemma after_bind_val: "after r \<Longrightarrow> (\<And>s. ok (world s) \<Longrightarrow> after_val (k s)) \<Longrightarrow> after_val (r \<bind> k)"
  by (cases r) auto

lemma after_val_bind:
  "after_val r \<Longrightarrow> (\<And>v s. ok (world s) \<Longrightarrow> after (k (v, s))) \<Longrightarrow> after (r \<bind> k)"
  by (cases r) auto

lemma after_val_bind_val:
  "after_val r \<Longrightarrow> (\<And>v s. ok (world s) \<Longrightarrow> after_val (k (v, s))) \<Longrightarrow> after_val (r \<bind> k)"
  by (cases r) auto

lemma after_bind_pure: "(\<And>x :: 'x. after (k x)) \<Longrightarrow> after (r \<bind> k)"
  by (cases r) auto

lemma after_bind_pure_val: "(\<And>x :: 'x. after_val (k x)) \<Longrightarrow> after_val (r \<bind> k)"
  by (cases r) auto

lemma after_terror:
  "after (m s) \<Longrightarrow> (\<And>s. ok (world s) \<Longrightarrow> after (k s)) \<Longrightarrow> after (terror m k s)"
  by (auto simp: terror_def intro!: after_bind)

lemma after_terror_val:
  "after_val (m s) \<Longrightarrow> (\<And>v s. ok (world s) \<Longrightarrow> after (k v s)) \<Longrightarrow> after (terror_val m k s)"
  by (auto simp: terror_val_def intro!: after_val_bind)

lemma after_call:
  "(\<And>w. ok w \<Longrightarrow> ok (snd (f w))) \<Longrightarrow> ok (world s) \<Longrightarrow> after (call_syscall f s)"
  by (auto simp: call_syscall_def split: prod.splits) (metis snd_conv)

lemma after_input:
  "(\<And>w. ok w \<Longrightarrow> ok (snd (snd (f w)))) \<Longrightarrow> ok (world s) \<Longrightarrow> after_val (call_input f s)"
  by (auto simp: call_input_def split: prod.splits) (metis snd_conv)

lemmas after_rules = after_terror after_terror_val after_call after_input
  after_bind_pure [where 'x = channel_t] after_bind_pure_val [where 'x = channel_t]
  after_bind_pure [where 'x = partition_t] after_bind_pure_val [where 'x = partition_t]
  after_bind_pure [where 'x = u32] after_bind_pure_val [where 'x = u32]
  after_bind_pure [where 'x = u16] after_bind_pure_val [where 'x = inode_t]

lemmas after_binds = after_bind after_bind_val after_val_bind after_val_bind_val

lemma after_flush:
  assumes "flush_msg (do_send sys) idx msg w = Some (e, w', msg')" and "ok w"
  shows "ok w'"
proof -
  obtain m where "do_send sys w m True = (e, w')"
    using assms(1) by (cases "put_byte idx 0 msg")
      (auto simp: flush_msg_def simp del: take_Suc split: prod.splits)
  then show ?thesis using send [OF assms(2), of m True] by simp
qed

definition after_out :: "(u32 \<times> 'w) option \<Rightarrow> bool" where
  "after_out r \<longleftrightarrow> (\<forall>e w. r = Some (e, w) \<longrightarrow> ok w)"

lemma after_out_simps [simp]:
  "after_out None" "after_out (Some x) \<longleftrightarrow> ok (snd x)"
  by (cases x; simp add: after_out_def)+

lemma after_out_bind: "(\<And>x. r = Some x \<Longrightarrow> after_out (k x)) \<Longrightarrow> after_out (r \<bind> k)"
  by (cases r) auto

lemma after_out_if: "(b \<Longrightarrow> after_out x) \<Longrightarrow> (\<not> b \<Longrightarrow> after_out y) \<Longrightarrow> after_out (if b then x else y)"
  by simp

lemma after_out_prod: "(\<And>a b. x = (a, b) \<Longrightarrow> after_out (k a b)) \<Longrightarrow> after_out (case x of (a, b) \<Rightarrow> k a b)"
  by (cases x) auto

lemma after_out_option:
  "(x = None \<Longrightarrow> after_out a) \<Longrightarrow> (\<And>y. x = Some y \<Longrightarrow> after_out (b y)) \<Longrightarrow>
    after_out (case x of None \<Rightarrow> a | Some y \<Rightarrow> b y)"
  by (cases x) auto

lemma after_out_list:
  "(x = [] \<Longrightarrow> after_out a) \<Longrightarrow> (\<And>y ys. x = y # ys \<Longrightarrow> after_out (b y ys)) \<Longrightarrow>
    after_out (case x of [] \<Rightarrow> a | y # ys \<Rightarrow> b y ys)"
  by (cases x) auto

lemma after_out_ih: "(\<And>x. r = Some x \<Longrightarrow> after_out (Some x)) \<Longrightarrow> after_out r"
  by (cases r) auto

lemma flush_step:
  assumes "(if c then do { (e, w, msg) \<leftarrow> flush_msg (do_send sys) idx msg w; Some (e, w, msg, 0) }
      else Some (OK, w, msg, idx)) = Some (e, w', r)" and "ok w"
  shows "ok w'"
  using assms after_flush by (auto simp: bind_eq_Some_conv split: if_splits)

lemma after_outf_loop:
  assumes "ok w"
  shows "after_out (outf_loop (do_send sys) blk fmt cur idx vl msg w)"
proof -
  have "send = do_send sys \<longrightarrow> ok w \<longrightarrow> after_out (Some r)"
    if "outf_loop send blk fmt cur idx vl msg w = Some r" for send blk fmt cur idx vl msg w r
    using that
    apply (rule outf_loop.raw_induct [where P = "\<lambda>send blk fmt cur idx vl msg w r.
        send = do_send sys \<longrightarrow> ok w \<longrightarrow> after_out (Some r)", rotated])
    apply (intro impI)
    apply (erule subst [where P = after_out])
    apply hypsubst
    apply (intro after_out_bind after_out_if after_out_prod after_out_option after_out_list)
    apply (auto intro!: send)[1]
    apply (auto intro: after_out_ih)[1]
    apply (auto dest: after_flush)[1]
    apply (rule after_out_ih, clarsimp, drule (1) after_flush, fastforce)
    apply (auto intro: after_out_ih)[1]
    apply simp
    apply (auto dest: flush_step)[1]
    apply (rule after_out_ih, hypsubst, drule (1) flush_step, fastforce)
    done
  then show ?thesis using assms
    by (cases "outf_loop (do_send sys) blk fmt cur idx vl msg w") auto
qed

lemma after_outf: "ok w \<Longrightarrow> outf (do_send sys) msg blk fmt vl w = Some (e, w') \<Longrightarrow> ok w'"
  using after_outf_loop [of w blk fmt 0 0 vl msg] by (auto simp: outf_def)

lemma after_say:
  "ok (world s) \<Longrightarrow> after (say_bytes sys fmt vl s)" "ok (world s) \<Longrightarrow> after (say sys txt vl s)"
  using after_outf by (auto simp: say_def say_bytes_def after_def bind_eq_Some_conv)

end

section \<open>The functions of the driver\<close>

definition driver_ports :: "u32 set" where
  "driver_ports = set controller_ports"

lemma ports_of_channel [simp]:
  "get_port_base ch OR 1 \<in> driver_ports" "get_port_base ch OR 2 \<in> driver_ports"
  "get_port_base ch OR 3 \<in> driver_ports" "get_port_base ch OR 4 \<in> driver_ports"
  "get_port_base ch OR 5 \<in> driver_ports" "get_port_base ch OR 6 \<in> driver_ports"
  "get_port_base ch OR 7 \<in> driver_ports" "get_port_base ch OR 0x206 \<in> driver_ports"
  "get_port_base ch \<in> driver_ports"
  by (simp_all add: driver_ports_def controller_ports_def get_port_base_def)

locale driver_calls = message_calls +
  assumes outb: "p \<in> driver_ports \<Longrightarrow> ok w \<Longrightarrow> ok (snd (do_outb sys p v w))"
    and outw: "p \<in> driver_ports \<Longrightarrow> ok w \<Longrightarrow> ok (snd (do_outw sys p v w))"
    and inb: "p \<in> insert 4 (insert 5 driver_ports) \<Longrightarrow> ok w \<Longrightarrow> ok (snd (snd (do_inb sys p w)))"
    and inw: "p \<in> driver_ports \<Longrightarrow> ok w \<Longrightarrow> ok (snd (snd (do_inw sys p w)))"
    and request_irq: "ok w \<Longrightarrow> ok (snd (do_request_irq sys n w))"
    and receive: "ok w \<Longrightarrow> ok (snd (do_receive sys w))"
begin

lemmas call_rules = outb outw inb inw request_irq receive send

named_theorems driver_ok
lemmas [driver_ok] = after_say

lemma after_updates [driver_ok]:
  "ok (world s) \<Longrightarrow> after (upd_channel c f s)" "ok (world s) \<Longrightarrow> after (err_set e s)"
  "ok (world s) \<Longrightarrow> after (set_controller k c s)" "ok (world s) \<Longrightarrow> after (upd_partition c p g s)"
  by (auto simp: upd_channel_def err_set_def set_controller_def upd_partition_def intro: after_rules)

lemma after_select [driver_ok]: "ok (world s) \<Longrightarrow> after (select_drive sys c s)"
  by (auto simp: select_drive_def do_select_drive_def Let_def intro!: after_rules outb)

lemma after_read_words [driver_ok]:
  "p \<in> driver_ports \<Longrightarrow> ok (world s) \<Longrightarrow> after_val (read_words sys p n s)"
  by (induction n arbitrary: s) (auto intro!: after_rules after_binds inw)

text \<open>For the loops: what holds of every result holds of the call.\<close>

lemma after_ih:
  "(\<And>x. r = Some x \<Longrightarrow> after (Some x)) \<Longrightarrow> after r" "(\<And>x. r' = Some x \<Longrightarrow> after_val (Some x)) \<Longrightarrow> after_val r'"
  by (cases r; auto) (cases r'; auto)

lemma after_probe_loop [driver_ok]:
  assumes "p \<in> driver_ports" and "ok (world s)"
  shows "after_val (probe_loop sys p jump v s)"
proof -
  have "sys' = sys \<longrightarrow> p \<in> driver_ports \<longrightarrow> ok (world s) \<longrightarrow> after_val (Some r)"
    if "probe_loop sys' p jump v s = Some r" for sys' p jump v s r
    using that
    apply (rule probe_loop.raw_induct [where P = "\<lambda>sys' p jump v s r.
        sys' = sys \<longrightarrow> p \<in> driver_ports \<longrightarrow> ok (world s) \<longrightarrow> after_val (Some r)", rotated])
    apply (intro impI)
    apply (erule subst [where P = after_val])
    apply hypsubst
    apply (auto intro!: after_rules after_binds inb)
    by (rule after_ih, fastforce)+
  then show ?thesis using assms by (cases "probe_loop sys p jump v s") auto
qed

lemma after_do_ATA [driver_ok]: "ok (world s) \<Longrightarrow> after (do_ATA sys c s)"
  by (auto simp: do_ATA_def intro!: after_rules after_binds driver_ok)

lemma after_identify [driver_ok]: "ok (world s) \<Longrightarrow> after (identify sys c s)"
  by (auto simp: identify_def identify_drive_def Let_def split_def intro!: after_rules after_binds driver_ok call_rules)

lemma after_wait_drq [driver_ok]:
  assumes "ok (world s)"
  shows "after (wait_drq sys ch v s)"
proof -
  have "sys' = sys \<longrightarrow> ok (world s) \<longrightarrow> after (Some r)"
    if "wait_drq sys' ch v s = Some r" for sys' ch v s r
    using that
    apply (rule wait_drq.raw_induct [where P = "\<lambda>sys' ch v s r.
        sys' = sys \<longrightarrow> ok (world s) \<longrightarrow> after (Some r)", rotated])
    apply (intro impI)
    apply (erule subst [where P = after])
    apply hypsubst
    apply (auto intro!: after_rules after_binds inb receive)
    by (rule after_ih, fastforce)+
  then show ?thesis using assms by (cases "wait_drq sys ch v s") auto
qed

lemma after_sector_command [driver_ok]: "ok (world s) \<Longrightarrow> after (sector_command sys cmd n c s)"
  by (auto simp: sector_command_def check_ata_def check_sector_def Let_def
      intro!: after_rules after_binds driver_ok call_rules)

lemma after_read_sector [driver_ok]: "ok (world s) \<Longrightarrow> after_val (read_sector sys n c s)"
  by (auto simp: read_sector_def split_def intro!: after_rules after_binds driver_ok)

lemma after_write_words: "p \<in> driver_ports \<Longrightarrow> ok (world s) \<Longrightarrow> after (write_words sys p ws s)"
  by (induction ws arbitrary: s) (auto intro!: after_rules outw)

lemma after_write_sector [driver_ok]: "ok (world s) \<Longrightarrow> after (write_sector sys n c b s)"
  by (auto simp: write_sector_def intro!: after_rules after_binds driver_ok after_write_words)

lemma after_read_two:
  "ok (world s) \<Longrightarrow> (\<And>b s. ok (world s) \<Longrightarrow> after (k b s)) \<Longrightarrow> after (read_two sys m n c k s)"
  by (auto simp: read_two_def intro!: after_rules driver_ok)

lemma after_read_inode [driver_ok]: "ok (world s) \<Longrightarrow> after_val (read_inode sys c p n i s)"
  by (auto simp: read_inode_def todo_error_def split_def intro!: after_rules after_binds driver_ok)

lemma after_direct_entries:
  assumes "ok (world s)"
  shows "after (direct_entries sys block cur s)"
proof -
  have "sys' = sys \<longrightarrow> ok (world s) \<longrightarrow> after (Some r)"
    if "direct_entries sys' block cur s = Some r" for sys' block cur s r
    using that
    apply (rule direct_entries.raw_induct [where P = "\<lambda>sys' block cur s r.
        sys' = sys \<longrightarrow> ok (world s) \<longrightarrow> after (Some r)", rotated])
    apply (intro impI)
    apply (erule subst [where P = after])
    apply hypsubst
    apply (auto intro!: after_rules after_binds driver_ok)
    by (rule after_ih, fastforce)+
  then show ?thesis using assms by (cases "direct_entries sys block cur s") auto
qed

lemma after_walk_blocks:
  assumes "\<And>b s. ok (world s) \<Longrightarrow> after (f b s)" and "\<And>s. ok (world s) \<Longrightarrow> after (k s)" and "ok (world s)"
  shows "after (walk_blocks f bs k s)"
  using assms by (induction bs arbitrary: s) (auto intro!: after_terror)

lemma after_indirect [driver_ok]: "ok (world s) \<Longrightarrow> after (do_indirect_directory sys c p level b s)"
  by (induction level arbitrary: b s)
    (auto simp: do_direct_directory_def todo_error_def Let_def
      intro!: after_rules after_read_two driver_ok after_direct_entries after_walk_blocks)

lemma after_read_directory [driver_ok]: "ok (world s) \<Longrightarrow> after (read_directory sys c p i s)"
  unfolding read_directory_def by (intro after_walk_blocks driver_ok) simp_all

lemma after_read_root_inode [driver_ok]: "ok (world s) \<Longrightarrow> after (read_root_inode sys c p s)"
  by (auto simp: read_root_inode_def show_inode_def intro!: after_rules after_binds driver_ok)

lemma after_set_block_groups: "ok (world s) \<Longrightarrow> after (set_block_groups c p table i n s)"
  by (induction n arbitrary: i s) (auto simp: set_block_group_def intro!: after_rules after_binds driver_ok)

lemma after_read_superblock [driver_ok]: "ok (world s) \<Longrightarrow> after (read_superblock sys c p s)"
  by (auto simp: read_superblock_def read_group_descriptor_table_def todo_error_def Let_def
      intro!: after_rules after_read_two after_binds driver_ok after_set_block_groups)

lemma after_read_entries: "ok (world s) \<Longrightarrow> after (read_entries sys c b p n s)"
  by (induction n arbitrary: p s) (auto simp: read_entry_def intro!: after_rules after_binds driver_ok)

lemma after_read_tables: "ok (world s) \<Longrightarrow> after (read_tables sys cs s)"
  by (induction cs arbitrary: s)
    (auto simp: read_partition_table_def intro!: after_rules after_binds driver_ok after_read_entries)

lemma after_identify_all:
  "ok (world s) \<Longrightarrow> (\<And>s. ok (world s) \<Longrightarrow> after (k s)) \<Longrightarrow> after (identify_all sys cs k s)"
  by (induction cs arbitrary: s) (auto intro!: after_rules driver_ok)

end

section \<open>Recorded system calls\<close>

datatype hd_event = Claimed u32 u32 | Outb u32 u32 | Outw u32 u32 | Inb u32 u32 | Inw u32 u32
  | Requested u32 | Received u32 | Sent "u8 list" | Exited

text \<open>The system calls \<open>sys\<close> with a log of them, the last call first.\<close>

definition logged :: "'w hd_sys \<Rightarrow> ('w \<times> hd_event list) hd_sys" where
  "logged sys = \<lparr>
     do_claim_port = (\<lambda>p (w, l). let (e, w) = do_claim_port sys p w in (e, w, Claimed p e # l)),
     do_request_irq = (\<lambda>n (w, l). let (e, w) = do_request_irq sys n w in (e, w, Requested n # l)),
     do_outb = (\<lambda>p v (w, l). let (e, w) = do_outb sys p v w in (e, w, Outb p v # l)),
     do_outw = (\<lambda>p v (w, l). let (e, w) = do_outw sys p v w in (e, w, Outw p v # l)),
     do_inb = (\<lambda>p (w, l). let (e, v, w) = do_inb sys p w in (e, v, w, Inb p v # l)),
     do_inw = (\<lambda>p (w, l). let (e, v, w) = do_inw sys p w in (e, v, w, Inw p v # l)),
     do_receive = (\<lambda>(w, l). let (e, w) = do_receive sys w in (e, w, Received e # l)),
     do_send = (\<lambda>(w, l) m blk. let (e, w) = do_send sys w m blk in (e, w, Sent m # l)),
     do_vir2phys = (\<lambda>a (w, l). let (e, v, w) = do_vir2phys sys a w in (e, v, w, l)),
     do_exit = (\<lambda>(w, l). (do_exit sys w, Exited # l)),
     outf_msg = outf_msg sys, stack_words = stack_words sys, stack_inode = stack_inode sys,
     file_name = file_name sys\<rparr>"

abbreviation log_of :: "('w \<times> hd_event list) hd \<Rightarrow> hd_event list" where
  "log_of s \<equiv> snd (world s)"

definition claimed :: "u32 \<Rightarrow> hd_event list \<Rightarrow> bool" where
  "claimed p l \<longleftrightarrow> (\<exists>e. Claimed p e \<in> set l \<and> \<not> hasFailed e)"

text \<open>An access is allowed to a port claimed before; the ports 4 and 5 are read without a claim.\<close>

fun allowed :: "hd_event \<Rightarrow> hd_event list \<Rightarrow> bool" where
  "allowed (Outb p v) l = claimed p l"
| "allowed (Outw p v) l = claimed p l"
| "allowed (Inb p v) l = (claimed p l \<or> p = 4 \<or> p = 5)"
| "allowed (Inw p v) l = claimed p l"
| "allowed x l = True"

primrec guarded :: "hd_event list \<Rightarrow> bool" where
  "guarded [] = True"
| "guarded (x # l) = (guarded l \<and> allowed x l)"

definition all_claimed :: "hd_event list \<Rightarrow> bool" where
  "all_claimed l \<longleftrightarrow> guarded l \<and> (\<forall>p\<in>driver_ports. claimed p l)"

lemma claimed_Cons: "claimed p l \<Longrightarrow> claimed p (x # l)"
  by (auto simp: claimed_def)

lemma all_claimed_Cons: "all_claimed l \<Longrightarrow> allowed x l \<Longrightarrow> all_claimed (x # l)"
  by (auto simp: all_claimed_def claimed_Cons)

lemma all_claimed_claimed: "all_claimed l \<Longrightarrow> p \<in> driver_ports \<Longrightarrow> claimed p l"
  by (simp add: all_claimed_def)

interpretation msg: message_calls "logged sys" "\<lambda>w. guarded (snd w)" for sys :: "'w hd_sys"
  by unfold_locales (auto simp: logged_def split: prod.splits)

interpretation drv: driver_calls "logged sys" "\<lambda>w. all_claimed (snd w)" for sys :: "'w hd_sys"
  by unfold_locales
    (auto simp: logged_def intro!: all_claimed_Cons intro: all_claimed_claimed split: prod.splits)

lemma claim_all_logged:
  assumes "claim_all (logged sys) ps s = Some s'" and "guarded (log_of s)"
  shows "guarded (log_of s') \<and> set (log_of s) \<subseteq> set (log_of s') \<and>
    (hasFailed (hd_err s') \<or> (\<forall>p\<in>set ps. claimed p (log_of s')))"
  using assms
proof (induction ps arbitrary: s)
  case (Cons p ps)
  obtain w l where w: "world s = (w, l)" by (cases "world s")
  obtain e w' where c: "do_claim_port sys p w = (e, w')" by (cases "do_claim_port sys p w")
  let ?s = "s\<lparr>hd_err := e, world := (w', Claimed p e # l)\<rparr>"
  have r: "call_syscall (do_claim_port (logged sys) p) s = Some ?s"
    using w c by (simp add: call_syscall_def logged_def)
  show ?case
  proof (cases "hasFailed e")
    case True
    then show ?thesis using Cons.prems r w by (auto simp: terror_def)
  next
    case False
    then have "claim_all (logged sys) ps ?s = Some s'" using Cons.prems(1) r by (simp add: terror_def)
    from Cons.IH [OF this] Cons.prems(2) w False show ?thesis by (auto simp: claimed_def)
  qed
qed simp

end
