(* ===== verification/MK_Hd_Data.thy ===== *)
theory MK_Hd_Data
  imports MK_Hd_Frame
begin

text \<open>
  Proofs about the data the hard disk driver moves: messages, the commands and words of a sector,
  addresses of sectors, entries of the partition table and of directories.
\<close>

section \<open>Messages\<close>

lemma cstr_append: "0 \<notin> set cs \<Longrightarrow> cstr (cs @ 0 # r) = cs"
  by (induction cs) (auto simp: cstr_def)

lemma say_plain:
  assumes "chr CHR ''%'' \<notin> set cs" and "0 \<notin> set cs" and "length cs < 1920" and "length (outf_msg sys) = 1921"
  shows "say_bytes sys (cs @ 0 # r) vl s = Some (s\<lparr>world := snd (do_send sys (world s) (cs @ [0]) True)\<rparr>)"
proof -
  have c: "cstr (cs @ 0 # r) = cs" "is_cstr (cs @ 0 # r)" using cstr_append [OF assms(2)] by (auto simp: is_cstr_def)
  have "outf (do_send sys) (outf_msg sys) True (cs @ 0 # r) (vl @ stack_words sys) (world s) =
      Some (do_send sys (world s) (cs @ [0]) True)"
    using outf_loop_eq [of "cs @ 0 # r" 0 "vl @ stack_words sys" cs 0] c render_plain [of cs "[]" "vl @ stack_words sys"] assms(1) assms(3,4)
    by (simp add: outf_def)
  then show ?thesis by (simp add: say_bytes_def split: prod.split)
qed

section \<open>Sectors\<close>

text \<open>System calls of which none fails, with a drive that is ready at once.\<close>

definition ready_drive :: "'w hd_sys \<Rightarrow> bool" where
  "ready_drive sys \<longleftrightarrow> (\<forall>w p v. \<not> hasFailed (fst (do_outb sys p v w)) \<and> \<not> hasFailed (fst (do_outw sys p v w)) \<and>
     \<not> hasFailed (fst (do_inb sys p w)) \<and> \<not> hasFailed (fst (do_inw sys p w)) \<and>
     fst (snd (do_inb sys p w)) AND BIT_DRQ \<noteq> 0)"

text \<open>The state after a recorded call.\<close>

definition did :: "(u32 \<times> 'w) \<Rightarrow> hd_event \<Rightarrow> ('w \<times> hd_event list) hd \<Rightarrow> ('w \<times> hd_event list) hd" where
  "did r x s = s\<lparr>hd_err := fst r, world := (snd r, x # log_of s)\<rparr>"

lemma did_simps [simp]:
  "hd_err (did r x s) = fst r" "world (did r x s) = (snd r, x # log_of s)" "channels (did r x s) = channels s"
  "channel_selected (did r x s) = channel_selected s" "channel c (did r x s) = channel c s"
  by (simp_all add: did_def channel_def)

lemma logged_calls:
  "call_syscall (do_outb (logged sys) p v) s = Some (did (do_outb sys p v (fst (world s))) (Outb p v) s)"
  "call_syscall (do_outw (logged sys) p v) s = Some (did (do_outw sys p v (fst (world s))) (Outw p v) s)"
  "call_input (do_inb (logged sys) p) s =
     (let (e, v, w) = do_inb sys p (fst (world s)) in Some (v, did (e, w) (Inb p v) s))"
  "call_input (do_inw (logged sys) p) s =
     (let (e, v, w) = do_inw sys p (fst (world s)) in Some (v, did (e, w) (Inw p v) s))"
  by (simp_all add: call_syscall_def call_input_def logged_def did_def split: prod.split)

lemma terror_pass: "m s = Some s' \<Longrightarrow> \<not> hasFailed (hd_err s') \<Longrightarrow> terror m k s = k s'"
  by (simp add: terror_def)

lemma outb_step:
  assumes "ready_drive sys"
  shows "terror (call_syscall (do_outb (logged sys) p v)) k s =
    k (did (do_outb sys p v (fst (world s))) (Outb p v) s)"
  using assms by (simp add: terror_def logged_calls ready_drive_def)

text \<open>
  The commands for a sector, as they appear on the ports: the drive, the number of sectors, the
  number of the sector byte by byte, the command.
\<close>

definition command_events :: "channel_t \<Rightarrow> u32 \<Rightarrow> u32 \<Rightarrow> hd_event list" where
  "command_events ch command n =
     (let base = get_port_base ch
      in [Outb (base OR 6) ((if is_master ch then 0xe0 else 0xf0) OR drop_bit 24 n),
          Outb (base OR 2) 1, Outb (base OR 3) (n AND 0xff), Outb (base OR 4) (drop_bit 8 n AND 0xff),
          Outb (base OR 5) (drop_bit 16 n AND 0xff), Outb (base OR 7) command])"

definition select_events :: "channel_t \<Rightarrow> bool \<Rightarrow> hd_event list" where
  "select_events ch selected =
     (if selected then [] else [Outb (get_port_base ch OR 6) (if is_master ch then 0xa0 else 0xb0)])"

lemma select_drive_log:
  assumes "ready_drive sys" and "channel c s = Some ch" and "\<not> hasFailed (hd_err s)"
  shows "\<exists>s'. select_drive (logged sys) c s = Some s' \<and> channels s' = channels s \<and> \<not> hasFailed (hd_err s') \<and>
    log_of s' = rev (select_events ch (channel_selected s = Some c)) @ log_of s"
  using assms outb_step [OF assms(1)]
  by (auto simp: select_drive_def do_select_drive_def select_events_def Let_def ready_drive_def)

lemma wait_ready: "status AND BIT_DRQ \<noteq> 0 \<Longrightarrow> wait_drq sys ch status s = Some s"
  by (subst wait_drq.simps) simp

lemma sector_command_log:
  assumes r: "ready_drive sys" and c: "channel c s = Some ch" and a: "controller ch = ATA"
    and n: "n < lba_sectors ch" and e: "\<not> hasFailed (hd_err s)"
  shows "\<exists>s' v. sector_command (logged sys) command n c s = Some s' \<and> channels s' = channels s \<and>
    \<not> hasFailed (hd_err s') \<and>
    rev (log_of s') = rev (log_of s) @ select_events ch (channel_selected s = Some c) @
      command_events ch command n @ [Inb (get_port_base ch OR 0x206) v]"
proof -
  obtain s1 where s1: "select_drive (logged sys) c s = Some s1" "channels s1 = channels s"
      "\<not> hasFailed (hd_err s1)" "log_of s1 = rev (select_events ch (channel_selected s = Some c)) @ log_of s"
    using select_drive_log [OF r c e] by blast
  have c1: "channel c s1 = Some ch" using c s1(2) by (auto simp: channel_def split: if_splits)
  let ?base = "get_port_base ch"
  have in_step: "\<exists>v s'. terror_val (call_input (do_inb (logged sys) p)) (wait_drq (logged sys) ch) t = Some s' \<and>
      channels s' = channels t \<and> \<not> hasFailed (hd_err s') \<and> log_of s' = Inb p v # log_of t" for p t
  proof -
    obtain e v w where i: "do_inb sys p (fst (world t)) = (e, v, w)" by (metis prod_cases3)
    then have "\<not> hasFailed e" "v AND BIT_DRQ \<noteq> 0" using r unfolding ready_drive_def by (metis fst_conv snd_conv)+
    then show ?thesis using i by (simp add: terror_val_def logged_calls wait_ready)
  qed
  have "\<not> lba_sectors ch \<le> n" by (simp only: not_le n simp_thms)
  then have pre: "check_ata c s = Some s" "check_sector c n s = Some s"
    using c a by (simp_all add: check_ata_def check_sector_def)
  have "\<exists>t. sector_command (logged sys) command n c s =
      terror_val (call_input (do_inb (logged sys) (?base OR 0x206))) (wait_drq (logged sys) ch) t \<and>
      channels t = channels s \<and> log_of t = rev (command_events ch command n) @ log_of s1"
    unfolding sector_command_def terror_pass [where m = "check_ata c", OF pre(1) e] terror_pass [where m = "check_sector c n", OF pre(2) e] terror_pass [where m = "select_drive (logged sys) c", OF s1(1,3)]
    by (cases "is_master ch"; simp only: c1 bind.bind_lunit Let_def outb_step [OF r] if_True if_False)
      (rule exI, rule conjI, rule refl, simp add: command_events_def Let_def s1(2))+
  then have "\<exists>s' v. sector_command (logged sys) command n c s = Some s' \<and> channels s' = channels s \<and>
    \<not> hasFailed (hd_err s') \<and> log_of s' = Inb (?base OR 0x206) v # rev (command_events ch command n) @ log_of s1"
    using in_step by metis
  then show ?thesis using s1(4) by auto
qed

lemma read_words_log:
  assumes r: "ready_drive sys" and "\<not> hasFailed (hd_err s)"
  shows "\<exists>vs s'. read_words (logged sys) p n s = Some (map ucast vs, s') \<and> length vs = n \<and>
    channels s' = channels s \<and> \<not> hasFailed (hd_err s') \<and> log_of s' = rev (map (Inw p) vs) @ log_of s"
  using assms(2)
proof (induction n arbitrary: s)
  case (Suc n)
  obtain e v w where i: "do_inw sys p (fst (world s)) = (e, v, w)" by (metis prod_cases3)
  then have e: "\<not> hasFailed e" using r unfolding ready_drive_def by (metis fst_conv)
  let ?s = "did (e, w) (Inw p v) s"
  obtain vs s' where "read_words (logged sys) p n ?s = Some (map ucast vs, s')" "length vs = n"
      "channels s' = channels ?s" "\<not> hasFailed (hd_err s')" "log_of s' = rev (map (Inw p) vs) @ log_of ?s"
    using Suc.IH [of ?s] e by auto
  then show ?case using i e by (intro exI [of _ "v # vs"] exI [of _ s']) (simp add: logged_calls)
qed simp

lemma write_words_log:
  assumes r: "ready_drive sys" and "\<not> hasFailed (hd_err s)"
  shows "\<exists>s'. write_words (logged sys) p ws s = Some s' \<and> channels s' = channels s \<and>
    \<not> hasFailed (hd_err s') \<and> log_of s' = rev (map (\<lambda>w. Outw p (ucast w)) ws) @ log_of s"
  using assms(2)
proof (induction ws arbitrary: s)
  case (Cons x ws)
  let ?s = "did (do_outw sys p (ucast x) (fst (world s))) (Outw p (ucast x)) s"
  have e: "\<not> hasFailed (hd_err ?s)" using r by (simp add: ready_drive_def)
  from Cons.IH [OF e] e show ?case by (simp add: terror_def logged_calls)
qed simp

text \<open>The number of the sector as the drive puts it together from the ports.\<close>

definition address_of :: "u32 \<Rightarrow> u32 \<Rightarrow> u32 \<Rightarrow> u32 \<Rightarrow> u32" where
  "address_of low mid high drive = low OR push_bit 8 mid OR push_bit 16 high OR push_bit 24 (drive AND 0xf)"

lemma address_of_command:
  assumes "n < 2 ^ 28" and "k = 0xe0 \<or> k = 0xf0"
  shows "address_of (n AND 0xff) (drop_bit 8 n AND 0xff) (drop_bit 16 n AND 0xff) (k OR drop_bit 24 n) = n"
proof -
  have "(k OR drop_bit 24 n) AND 0xf = take_bit 4 (drop_bit 24 n)"
    using assms(2) by (auto simp: word_ao_dist take_bit_eq_mask mask_eq_exp_minus_1)
  moreover have "x AND 0xff = take_bit 8 x" for x :: u32 by (simp add: take_bit_eq_mask mask_eq_exp_minus_1)
  moreover have "n = take_bit 28 n"
  proof (rule word_unat_eq_iff [THEN iffD2])
    have "unat n < 2 ^ 28" using assms(1) by (simp add: word_less_nat_alt)
    then show "unat n = unat (take_bit 28 n)" by (simp add: unsigned_take_bit_eq take_bit_nat_eq_self)
  qed
  then have b: "bit n i \<Longrightarrow> i < 28" for i by (metis bit_take_bit_iff)
  moreover have "i - 16 < 8" if "\<not> bit n (24 + (i - 24))" "bit n i" for i
    using that by (cases "24 \<le> i") auto
  ultimately show ?thesis unfolding address_of_def
    by (intro bit_word_eqI) (auto simp: bit_simps dest: b)
qed

section \<open>Entries of the partition table\<close>

text \<open>
  How a partitioning program writes an entry, for a disk with \<open>H\<close> heads and \<open>S\<close> sectors per track:
  head, sector with the two upper bits of the cylinder, cylinder.
\<close>

definition chs_bytes :: "nat \<Rightarrow> nat \<Rightarrow> nat \<Rightarrow> u8 list" where
  "chs_bytes H S a =
     [of_nat (a div S mod H), of_nat (a mod S + 1 + 64 * (a div (S * H) div 256)), of_nat (a div (S * H) mod 256)]"

definition encode_entry :: "nat \<Rightarrow> nat \<Rightarrow> u8 \<Rightarrow> u8 \<Rightarrow> nat \<Rightarrow> nat \<Rightarrow> u8 list" where
  "encode_entry H S bt ty a b = bt # chs_bytes H S a @ ty # chs_bytes H S b @ replicate 8 0"

lemma unat_byte: "n < 256 \<Longrightarrow> unat (ucast (of_nat n :: u8) :: u16) = n"
  by (simp only: unsigned_ucast_eq unat_of_nat) (simp add: take_bit_eq_mod)

lemma sector_bits:
  assumes "m < 64" and "k < 4"
  shows "(ucast (of_nat (m + 64 * k) :: u8) :: u16) AND 0x3f = of_nat m"
proof -
  have "(0x3f :: u16) = mask 6" by (simp add: mask_eq_exp_minus_1)
  then have "(ucast (of_nat (m + 64 * k) :: u8) :: u16) AND 0x3f = take_bit 6 (ucast (of_nat (m + 64 * k) :: u8))"
    by (simp add: take_bit_eq_mask)
  also have "\<dots> = of_nat m"
    by (rule word_unat_eq_iff [THEN iffD2])
      (use assms in \<open>simp only: unsigned_take_bit_eq unat_byte; simp add: unat_of_nat take_bit_eq_mod\<close>)
  finally show ?thesis .
qed

lemma cylinder_bits:
  assumes "m < 64" and "k < 4" and "l < 256"
  shows "push_bit 2 ((ucast (of_nat (m + 64 * k) :: u8) :: u16) AND 0xc0) OR ucast (of_nat l :: u8) =
    of_nat (256 * k + l)"
proof -
  let ?x = "ucast (of_nat (m + 64 * k) :: u8) :: u16"
  have lw: "(ucast (of_nat l :: u8) :: u16) = of_nat l"
    using unat_byte [OF assms(3)] assms(3) by (simp add: word_unat_eq_iff unat_of_nat take_bit_eq_mod)
  have c: "(0xc0 :: u16) = push_bit 6 (mask 2)" by (simp add: mask_eq_exp_minus_1)
  have "push_bit 2 (?x AND 0xc0) = push_bit 8 (take_bit 2 (drop_bit 6 ?x))"
    unfolding c by (rule bit_word_eqI) (auto simp: bit_simps)
  also have "take_bit 2 (drop_bit 6 ?x) = of_nat k"
    by (rule word_unat_eq_iff [THEN iffD2])
      (use assms in \<open>simp only: unsigned_take_bit_eq unsigned_drop_bit_eq unat_byte; simp add: unat_of_nat take_bit_eq_mod drop_bit_eq_div\<close>)
  finally have "push_bit 2 (?x AND 0xc0) OR ucast (of_nat l :: u8) = push_bit 8 (of_nat k) OR of_nat l"
    by (simp only: lw)
  also have "\<dots> = of_nat (push_bit 8 k OR l)" by (simp add: of_nat_or_eq of_nat_push_bit)
  also have "push_bit 8 k OR l = push_bit 8 k + l"
  proof (rule disjunctive_add_eq_or [symmetric], rule bit_eqI)
    have "take_bit 8 l = l" using assms(3) by (simp add: take_bit_nat_eq_self)
    then have "bit l i \<Longrightarrow> i < 8" for i by (metis bit_take_bit_iff)
    then show "bit (push_bit 8 k AND l) i = bit 0 i" for i by (fastforce simp: bit_simps dest: leD)
  qed
  also have "\<dots> = 256 * k + l" by (simp add: push_bit_eq_mult)
  finally show ?thesis .
qed

lemma chs2lba_encoded:
  assumes "0 < H" and "0 < S" and "H = unat (nr_heads ch)" and "S = unat (nr_sectors_per_track ch)"
    and "a < 1024 * H * S" and "H \<le> 256" and "S \<le> 63"
  shows "chs2lba ch (of_nat (a div (S * H))) (of_nat (a div S mod H)) (of_nat (a mod S + 1)) = of_nat a"
proof -
  have c: "a div (S * H) < 65536" using assms by (simp add: less_mult_imp_div_less mult.commute mult.left_commute)
  have h: "a div S mod H < 65536" using mod_less_divisor [OF assms(1), of "a div S"] assms(6) by linarith
  have n: "a mod S + 1 < 65536" using mod_less_divisor [OF assms(2), of a] assms(7) by linarith
  have u: "n < 65536 \<Longrightarrow> (ucast (of_nat n :: u16) :: u32) = of_nat n" for n
    by (simp add: word_unat_eq_iff unsigned_ucast_eq unat_of_nat take_bit_eq_mod)
  have "chs2lba ch (of_nat (a div (S * H))) (of_nat (a div S mod H)) (of_nat (a mod S + 1)) =
      (of_nat (a div (S * H)) * of_nat H + of_nat (a div S mod H)) * of_nat S + of_nat (a mod S + 1) - 1"
    unfolding chs2lba_def assms(3,4) u [OF c, unfolded assms(3,4)] u [OF h, unfolded assms(3,4)]
      u [OF n, unfolded assms(4)] by simp
  also have "\<dots> = of_nat ((a div (S * H) * H + a div S mod H) * S + a mod S)" by simp
  also have "(a div (S * H) * H + a div S mod H) * S + a mod S = a"
    by (simp add: div_mult2_eq)
  finally show ?thesis .
qed

section \<open>Directories\<close>

text \<open>
  An entry of a directory as the file system writes it: the number of the inode, the length of the
  entry, two further bytes, the name, and behind it at least one zero.
\<close>

record dir_entry =
  entry_inode :: u32
  entry_kind :: "u8 \<times> u8"
  entry_name :: "u8 list"
  entry_rest :: "u8 list"

definition entry_length :: "dir_entry \<Rightarrow> nat" where
  "entry_length e = 9 + length (entry_name e) + length (entry_rest e)"

definition le16_bytes :: "u16 \<Rightarrow> u8 list" where
  "le16_bytes n = [ucast n, ucast (drop_bit 8 n)]"

definition entry_bytes :: "dir_entry \<Rightarrow> u8 list" where
  "entry_bytes e = le16_bytes (ucast (entry_inode e)) @ le16_bytes (ucast (drop_bit 16 (entry_inode e))) @
     le16_bytes (of_nat (entry_length e)) @ [fst (entry_kind e), snd (entry_kind e)] @
     entry_name e @ 0 # entry_rest e"

definition entry_ok :: "dir_entry \<Rightarrow> bool" where
  "entry_ok e \<longleftrightarrow> 0 \<notin> set (entry_name e) \<and> chr CHR ''%'' \<notin> set (entry_name e)"

definition entry_events :: "dir_entry \<Rightarrow> hd_event list" where
  "entry_events e = [Sent (bytes_of ''Found entry:'' @ [0]), Sent (entry_name e @ [0])]"

lemma le16_le16_bytes: "le16 (pre @ le16_bytes n @ r) (length pre) = n"
  unfolding le16_def le16_bytes_def
  by (rule bit_word_eqI) (auto simp: nth_append bit_simps)

lemma le16_at: "length p = i \<Longrightarrow> le16 (p @ le16_bytes n @ r) i = n"
  using le16_le16_bytes by auto

lemma length_entry_bytes: "length (entry_bytes e) = entry_length e"
  by (simp add: entry_bytes_def entry_length_def le16_bytes_def)

lemma say_logged:
  assumes "chr CHR ''%'' \<notin> set cs" and "0 \<notin> set cs" and "length cs < 1920" and "length (outf_msg sys) = 1921"
  shows "\<exists>s'. say_bytes (logged sys) (cs @ 0 # r) vl s = Some s' \<and> log_of s' = Sent (cs @ [0]) # log_of s \<and>
    channels s' = channels s \<and> hd_err s' = hd_err s \<and> channel_selected s' = channel_selected s"
  using say_plain [of cs "logged sys" r vl s] assms
  by (simp add: logged_def split_def Let_def split: prod.split)

lemma direct_entries_listing:
  assumes "length (outf_msg sys) = 1921"
    and "block = pre @ concat (map entry_bytes es)" and "length block = 1024" and "\<forall>e\<in>set es. entry_ok e"
  shows "\<exists>s'. direct_entries (logged sys) block (length pre) s = Some s' \<and> hd_err s' = hd_err s \<and>
    channels s' = channels s \<and> log_of s' = rev (concat (map entry_events es)) @ log_of s"
  using assms(2-4)
proof (induction es arbitrary: pre s)
  case Nil
  then show ?case by (subst direct_entries.simps) simp
next
  case (Cons e es)
  let ?cur = "length pre"
  obtain rest where b: "block = pre @ entry_bytes e @ rest" and rest: "rest = concat (map entry_bytes es)"
    using Cons.prems(1) by simp
  have len: "?cur + entry_length e \<le> 1024" "9 \<le> entry_length e"
    using Cons.prems(1,2) length_entry_bytes [of e] by (auto simp: entry_length_def)
  have nm: "0 \<notin> set (entry_name e)" "chr CHR ''%'' \<notin> set (entry_name e)" "length (entry_name e) < 1920"
    using Cons.prems(3) len by (auto simp: entry_ok_def entry_length_def)
  have "\<exists>s1. say (logged sys) ''Found entry:'' [] s = Some s1 \<and>
      log_of s1 = Sent (bytes_of ''Found entry:'' @ [0]) # log_of s \<and> channels s1 = channels s \<and>
      hd_err s1 = hd_err s \<and> channel_selected s1 = channel_selected s"
    using say_logged [of "bytes_of ''Found entry:''" sys "[]" "[]" s, OF _ _ _ assms(1)]
    by (simp add: say_def bytes_of_def)
  then obtain s1 where s1: "say (logged sys) ''Found entry:'' [] s = Some s1"
      "log_of s1 = Sent (bytes_of ''Found entry:'' @ [0]) # log_of s" "channels s1 = channels s"
      "hd_err s1 = hd_err s" by blast
  have d: "drop (?cur + 8) block = entry_name e @ 0 # entry_rest e @ rest"
    by (simp add: b entry_bytes_def le16_bytes_def)
  obtain s2 where s2: "say_bytes (logged sys) (drop (?cur + 8) block) [] s1 = Some s2"
      "log_of s2 = Sent (entry_name e @ [0]) # log_of s1" "channels s2 = channels s1" "hd_err s2 = hd_err s1"
    using say_logged [OF nm(2,1,3) assms(1), of "entry_rest e @ rest" "[]" s1] unfolding d by blast
  have "block = (pre @ le16_bytes (ucast (entry_inode e)) @ le16_bytes (ucast (drop_bit 16 (entry_inode e)))) @
      le16_bytes (of_nat (entry_length e)) @ [fst (entry_kind e), snd (entry_kind e)] @ entry_name e @ 0 # entry_rest e @ rest"
    by (simp add: b entry_bytes_def)
  then have "le16 block (?cur + 4) = of_nat (entry_length e)"
    by (simp only:) (rule le16_at, simp add: le16_bytes_def)
  then have g: "get16 block (?cur + 4) = Some (of_nat (entry_length e))" "get32 block ?cur = Some (le32 block ?cur)"
    using len Cons.prems(2) by (simp_all add: get16_def get32_def)
  have u: "unat (of_nat (entry_length e) :: u16) = entry_length e"
    using len by (simp add: unat_of_nat take_bit_nat_eq_self)
  have "direct_entries (logged sys) block ?cur s = direct_entries (logged sys) block (?cur + entry_length e) s2"
    using len s1(1) s2(1) g by (subst direct_entries.simps) (simp add: u)
  then show ?case
    using Cons.IH [of "pre @ entry_bytes e" s2] Cons.prems s1 s2 by (simp add: length_entry_bytes entry_events_def)
qed

lemma direct_entries_stuck:
  assumes "get16 block (cur + 4) = Some 0" and "cur + 4 < 1024"
  shows "direct_entries sys block cur s = None"
proof -
  have "b = block \<longrightarrow> c = cur \<longrightarrow> False" if "direct_entries sys' b c s = Some r" for sys' b c s r
    using that
    apply (rule direct_entries.raw_induct [where P = "\<lambda>sys' b c s r. b = block \<longrightarrow> c = cur \<longrightarrow> False", rotated])
    using assms by (auto split: if_splits) blast
  then show ?thesis by (meson not_Some_eq)
qed

end
