(* ===== verification/MK_Hd_Props.thy ===== *)
theory MK_Hd_Props
  imports MK_Hd_Data
begin

text \<open>
  Properties of the hard disk driver, with their instances on a machine whose devices give constant
  answers.
\<close>

section \<open>A sample machine\<close>

text \<open>No call fails; \<open>status\<close> is read from every byte port, interrupt 14 is always reported.\<close>

definition sample_sys :: "u32 \<Rightarrow> unit hd_sys" where
  "sample_sys status = \<lparr>do_claim_port = (\<lambda>p w. (OK, w)), do_request_irq = (\<lambda>n w. (OK, w)),
     do_outb = (\<lambda>p v w. (OK, w)), do_outw = (\<lambda>p v w. (OK, w)),
     do_inb = (\<lambda>p w. (OK, status, w)), do_inw = (\<lambda>p w. (OK, 0x3412, w)),
     do_receive = (\<lambda>w. (0x4000, w)), do_send = (\<lambda>w m b. (OK, w)),
     do_vir2phys = (\<lambda>a w. (OK, a + 0x12345, w)), do_exit = (\<lambda>w. w),
     outf_msg = replicate 1921 0, stack_words = [],
     stack_inode = \<lparr>type_and_perms = 0, user_id = 0, inode_bytes = 0, last_access = 0, last_change = 0,
       last_modify_time = 0, deletion_time = 0, group_id = 0, nr_hard_links = 0, nr_disk_sectors = 0,
       inode_flags = 0, os_specific1 = 0, directs = replicate 12 0, singly_indirect = 0,
       doubly_indirect = 0, triply_indirect = 0, generation_nr = 0, special1 = 0, special2 = 0,
       fragment_block_addr = 0, os_specific2 = replicate 12 0\<rparr>,
     file_name = 0x1000\<rparr>"

definition sample_channel :: channel_t where
  "sample_channel = \<lparr>controller = ATA, lba_sectors = 1000, bytes_per_sector = 512, bus_info = 3, nr_heads = 16,
     nr_sectors_per_track = 63, partitions = replicate 4 blank_partition\<rparr>"

definition sample_hd :: "(unit \<times> hd_event list) hd" where
  "sample_hd = (hd_init ((), []))\<lparr>channels := channels_init[0 := sample_channel]\<rparr>"

lemma sample_ready: "status AND 8 \<noteq> 0 \<Longrightarrow> ready_drive (sample_sys status)"
  by (simp add: ready_drive_def sample_sys_def hasFailed_def OK_def)

lemma sample_calls [simp]:
  "call_syscall (do_claim_port (logged (sample_sys st)) p) s = Some (did (0, ()) (Claimed p 0) s)"
  "call_syscall (do_outb (logged (sample_sys st)) p v) s = Some (did (0, ()) (Outb p v) s)"
  "call_input (do_inb (logged (sample_sys st)) p) s = Some (st, did (0, ()) (Inb p st) s)"
  by (simp_all add: call_input_def call_syscall_def logged_def did_def sample_sys_def OK_def split: prod.split)

lemma not_failed [simp]: "\<not> hasFailed 0"
  by (simp add: hasFailed_def)

lemma sample_says:
  "\<exists>s'. say (logged (sample_sys st)) ''IDE driver exiting without errors!'' vl s = Some s'"
proof -
  define message where "message = ''IDE driver exiting without errors!''"
  have p: "chr CHR ''%'' \<notin> set (bytes_of message)" "0 \<notin> set (bytes_of message)" "length (bytes_of message) < 1920"
    by (simp_all add: bytes_of_def message_def)
  have "length (outf_msg (sample_sys st)) = 1921" by (simp add: sample_sys_def)
  from say_logged [OF p this, of "[]" vl s] have "\<exists>s'. say (logged (sample_sys st)) message vl s = Some s'"
    unfolding say_def by blast
  then show ?thesis unfolding message_def .
qed

lemma hd_main_ends:
  assumes "terror (claim_ports sys) (identify_all sys [0, 1, 2, 3] (read_tables sys [0, 1, 2, 3])) s = Some s1"
    and "\<not> hasFailed (hd_err s1)" and "say sys ''IDE driver exiting without errors!'' [] s1 = Some s2"
  shows "hd_main sys s = Some (s2\<lparr>world := do_exit sys (world s2)\<rparr>)"
  unfolding hd_main_def assms(1) bind.bind_lunit by (simp only: assms(2,3) if_False bind.bind_lunit)

section \<open>Ports and sectors\<close>

text \<open>
  C28: the driver touches only its hardware.  Whatever its system calls answer, whatever is on the
  disk, and however long it runs: when the driver ends, it has read and written only ports of the
  two controllers that it had claimed successfully before, except that it may have read the ports
  4 and 5.
\<close>

theorem driver_claims_its_ports:
  assumes "hd_main (logged sys) (hd_init (w, [])) = Some s"
  shows "guarded (log_of s)"
proof -
  let ?m = "terror (claim_ports (logged sys))
    (identify_all (logged sys) [0, 1, 2, 3] (read_tables (logged sys) [0, 1, 2, 3]))"
  obtain s1 s2 where s1: "?m (hd_init (w, [])) = Some s1"
    and s2: "(if hasFailed (hd_err s1) then say (logged sys) (err2String (hd_err s1)) [] s1
      else say (logged sys) ''IDE driver exiting without errors!'' [] s1) = Some s2"
    and s: "s = s2\<lparr>world := do_exit (logged sys) (world s2)\<rparr>"
    using assms by (auto simp: hd_main_def bind_eq_Some_conv)
  obtain s0 where s0: "claim_ports (logged sys) (hd_init (w, [])) = Some s0"
    using s1 by (auto simp: terror_def bind_eq_Some_conv)
  have c: "guarded (log_of s0)" "hasFailed (hd_err s0) \<or> all_claimed (log_of s0)"
    using claim_all_logged [OF s0 [unfolded claim_ports_def]]
    by (auto simp: hd_init_def all_claimed_def driver_ports_def)
  have "guarded (log_of s1)"
  proof (cases "hasFailed (hd_err s0)")
    case True
    then show ?thesis using s0 s1 c by (simp add: terror_def)
  next
    case False
    then have "identify_all (logged sys) [0, 1, 2, 3] (read_tables (logged sys) [0, 1, 2, 3]) s0 = Some s1"
      using s0 s1 by (simp add: terror_def)
    moreover have "drv.after (identify_all (logged sys) [0, 1, 2, 3] (read_tables (logged sys) [0, 1, 2, 3]) s0)"
      using c False by (intro drv.after_identify_all drv.after_read_tables) auto
    ultimately have "all_claimed (log_of s1)" by (simp only: drv.after_simps)
    then show ?thesis by (simp add: all_claimed_def)
  qed
  then have "guarded (log_of s2)"
    using s2 msg.after_say(2) [of s1 sys] by (auto simp: msg.after_def split: if_splits)
  then show ?thesis by (cases "world s2") (simp add: s logged_def)
qed

theorem driver_claims_its_ports_witness:
  "\<exists>s. hd_main (logged (sample_sys 0)) (hd_init ((), [])) = Some s \<and> guarded (log_of s)"
proof -
  let ?sys = "logged (sample_sys 0)"
  have claims: "\<exists>s'. claim_all ?sys ps s = Some s' \<and> hd_err s' = 0 \<and> channels s' = channels s"
    if "hd_err s = 0" for ps s using that
  proof (induction ps arbitrary: s)
    case (Cons p ps)
    from Cons.IH [of "did (0, ()) (Claimed p 0) s"] show ?case by (simp add: terror_def)
  qed simp
  have ident: "\<exists>s'. identify ?sys c s = Some s' \<and> hd_err s' = 0 \<and>
      channels s' = (channels s)[c := (channels s ! c)\<lparr>controller := NONE\<rparr>]"
    if "hd_err s = 0" "c < length (channels s)" for c s using that
    by (auto simp: identify_def identify_drive_def channel_def upd_channel_def select_drive_def do_select_drive_def
        terror_def terror_val_def Let_def set_controller_def)
  have "\<exists>s. hd_main (logged (sample_sys 0)) (hd_init ((), [])) = Some s"
  proof -
    have "length channels_init = 4" by (simp add: channels_init_def)
    moreover obtain s0 where s0: "claim_ports ?sys (hd_init ((), [])) = Some s0" "hd_err s0 = 0" "channels s0 = channels_init"
      using claims [of "hd_init ((), [])" controller_ports] by (auto simp: claim_ports_def hd_init_def OK_def)
    moreover obtain s1 where s1: "identify ?sys 0 s0 = Some s1" "hd_err s1 = 0"
        "channels s1 = (channels s0)[0 := (channels s0 ! 0)\<lparr>controller := NONE\<rparr>]"
      using ident [of s0 0] calculation by auto
    moreover obtain s2 where s2: "identify ?sys 1 s1 = Some s2" "hd_err s2 = 0"
        "channels s2 = (channels s1)[1 := (channels s1 ! 1)\<lparr>controller := NONE\<rparr>]"
      using ident [of s1 1] calculation by auto
    moreover obtain s3 where s3: "identify ?sys 2 s2 = Some s3" "hd_err s3 = 0"
        "channels s3 = (channels s2)[2 := (channels s2 ! 2)\<lparr>controller := NONE\<rparr>]"
      using ident [of s2 2] calculation by auto
    moreover obtain s4 where s4: "identify ?sys 3 s3 = Some s4" "hd_err s4 = 0"
        "channels s4 = (channels s3)[3 := (channels s3 ! 3)\<lparr>controller := NONE\<rparr>]"
      using ident [of s3 3] calculation by auto
    ultimately have "read_tables ?sys [0, 1, 2, 3] s4 = Some s4"
      by (simp add: channel_def nth_list_update)
    moreover have "\<not> hasFailed (hd_err s0)" "\<not> hasFailed (hd_err s1)" "\<not> hasFailed (hd_err s2)"
        "\<not> hasFailed (hd_err s3)" "\<not> hasFailed (hd_err s4)"
      using s0 s1 s2 s3 s4 by simp_all
    note nf = this
    ultimately have "terror (claim_ports ?sys) (identify_all ?sys [0, 1, 2, 3] (read_tables ?sys [0, 1, 2, 3]))
        (hd_init ((), [])) = Some s4"
      by (simp only: identify_all.simps terror_pass [where m = "claim_ports ?sys", OF s0(1) nf(1)]
          terror_pass [where m = "identify ?sys 0", OF s1(1) nf(2)]
          terror_pass [where m = "identify ?sys 1", OF s2(1) nf(3)]
          terror_pass [where m = "identify ?sys 2", OF s3(1) nf(4)]
          terror_pass [where m = "identify ?sys 3", OF s4(1) nf(5)])
    moreover obtain s5 where "say ?sys ''IDE driver exiting without errors!'' [] s4 = Some s5"
      using sample_says by blast
    ultimately show ?thesis using hd_main_ends [OF _ nf(5)] by blast
  qed
  then obtain s where "hd_main (logged (sample_sys 0)) (hd_init ((), [])) = Some s" ..
  from this driver_claims_its_ports [OF this] show ?thesis by blast
qed

text \<open>
  C29: reading a sector.  When no system call fails and the drive is ready at once, a sector within
  the size of an ATA drive is read with exactly the calls of the protocol, in their order: the
  selection of the drive if another one is selected, its number byte by byte, the command, one look
  at the status, 256 words of data, which are the bytes of the result.  For numbers below
  \<open>2 ^ 28\<close> the bytes on the ports make up the number of the sector.
\<close>

theorem read_sector_protocol:
  assumes "ready_drive sys" and "channel c s = Some ch" and "controller ch = ATA"
    and "n < lba_sectors ch" and "\<not> hasFailed (hd_err s)" and "n < 2 ^ 28"
  shows "\<exists>s' v vs. read_sector (logged sys) n c s = Some (bytes_of_words (map ucast vs), s') \<and>
    length vs = 256 \<and> channels s' = channels s \<and> \<not> hasFailed (hd_err s') \<and>
    rev (log_of s') = rev (log_of s) @ select_events ch (channel_selected s = Some c) @
      command_events ch 0x20 n @ [Inb (get_port_base ch OR 0x206) v] @ map (Inw (get_port_base ch OR 0)) vs \<and>
    address_of (n AND 0xff) (drop_bit 8 n AND 0xff) (drop_bit 16 n AND 0xff)
      ((if is_master ch then 0xe0 else 0xf0) OR drop_bit 24 n) = n"
proof -
  obtain s1 v where s1: "sector_command (logged sys) 0x20 n c s = Some s1" "channels s1 = channels s"
      "\<not> hasFailed (hd_err s1)"
      "rev (log_of s1) = rev (log_of s) @ select_events ch (channel_selected s = Some c) @
        command_events ch 0x20 n @ [Inb (get_port_base ch OR 0x206) v]"
    using sector_command_log [OF assms(1-5)] by blast
  have c: "channel c s1 = Some ch" using assms(2) s1(2) by (auto simp: channel_def split: if_splits)
  obtain vs s2 where "read_words (logged sys) (get_port_base ch OR 0) 256 s1 = Some (map ucast vs, s2)"
      "length vs = 256" "channels s2 = channels s1" "\<not> hasFailed (hd_err s2)"
      "log_of s2 = rev (map (Inw (get_port_base ch OR 0)) vs) @ log_of s1"
    using read_words_log [OF assms(1) s1(3)] by blast
  then show ?thesis using s1 c address_of_command [OF assms(6)]
    by (intro exI [of _ s2] exI [of _ v] exI [of _ vs]) (simp add: read_sector_def del: or.right_neutral)
qed

theorem read_sector_protocol_witness:
  "\<exists>s' (vs :: u32 list). read_sector (logged (sample_sys 8)) 77 0 sample_hd = Some (bytes_of_words (map ucast vs), s') \<and> length vs = 256"
proof -
  have "channel 0 sample_hd = Some sample_channel" "controller sample_channel = ATA"
      "77 < lba_sectors sample_channel" "\<not> hasFailed (hd_err sample_hd)" "(77 :: u32) < 2 ^ 28" "(8 :: u32) AND 8 \<noteq> 0"
    by (simp_all add: channel_def channels_init_def sample_channel_def sample_hd_def hd_init_def hasFailed_def OK_def)
  from read_sector_protocol [OF sample_ready [OF this(6)] this(1-5)] show ?thesis by blast
qed

text \<open>
  Writing a sector.  Under the same conditions a sector is written with the same calls and the
  command for writing, followed by the 256 words of the buffer in their order, all to the data port.
\<close>

theorem write_sector_protocol:
  assumes "ready_drive sys" and "channel c s = Some ch" and "controller ch = ATA"
    and "n < lba_sectors ch" and "\<not> hasFailed (hd_err s)" and "length ws = 256"
  shows "\<exists>s' v. write_sector (logged sys) n c ws s = Some s' \<and> \<not> hasFailed (hd_err s') \<and>
    rev (log_of s') = rev (log_of s) @ select_events ch (channel_selected s = Some c) @
      command_events ch 0x30 n @ [Inb (get_port_base ch OR 0x206) v] @
      map (\<lambda>w. Outw (get_port_base ch) (ucast w)) ws"
proof -
  obtain s1 v where s1: "sector_command (logged sys) 0x30 n c s = Some s1" "channels s1 = channels s"
      "\<not> hasFailed (hd_err s1)"
      "rev (log_of s1) = rev (log_of s) @ select_events ch (channel_selected s = Some c) @
        command_events ch 0x30 n @ [Inb (get_port_base ch OR 0x206) v]"
    using sector_command_log [OF assms(1-5)] by blast
  have c: "channel c s1 = Some ch" using assms(2) s1(2) by (auto simp: channel_def split: if_splits)
  obtain s2 where "write_words (logged sys) (get_port_base ch) ws s1 = Some s2" "\<not> hasFailed (hd_err s2)"
      "log_of s2 = rev (map (\<lambda>w. Outw (get_port_base ch) (ucast w)) ws) @ log_of s1"
    using write_words_log [OF assms(1) s1(3)] by blast
  then show ?thesis using s1 c assms(6)
    by (intro exI [of _ s2] exI [of _ v]) (simp add: write_sector_def terror_def)
qed

lemma sample_sector:
  "channel 0 sample_hd = Some sample_channel" "controller sample_channel = ATA"
  "77 < lba_sectors sample_channel" "\<not> hasFailed (hd_err sample_hd)"
  by (simp_all add: channel_def channels_init_def sample_channel_def sample_hd_def hd_init_def hasFailed_def OK_def)

theorem write_sector_protocol_witness:
  "\<exists>s'. write_sector (logged (sample_sys 8)) 77 0 (replicate 256 5) sample_hd = Some s' \<and> \<not> hasFailed (hd_err s')"
proof -
  have "ready_drive (sample_sys 8)" by (rule sample_ready) simp
  from write_sector_protocol [OF this sample_sector length_replicate, of 5] show ?thesis by blast
qed

text \<open>
  C30: requests that cannot be served.  On a channel without an ATA drive, and for a sector beyond
  the end of the drive, reading and writing give the error of that name, make no system call and
  change nothing else.
\<close>

theorem sector_refused:
  assumes "channel c s = Some ch" and "\<not> hasFailed (hd_err s)"
    and "controller ch \<noteq> ATA \<or> lba_sectors ch \<le> n"
    and "e = (if controller ch \<noteq> ATA then NOTATA else BEYONDENDOFDEVICE)"
  shows "read_sector sys n c s = Some ([], s\<lparr>hd_err := e\<rparr>) \<and>
    write_sector sys n c ws s = Some (s\<lparr>hd_err := e\<rparr>)"
proof -
  have f: "hasFailed NOTATA" "hasFailed BEYONDENDOFDEVICE"
    by code_simp+
  have "sector_command sys cmd n c s = Some (s\<lparr>hd_err := e\<rparr>)" for cmd
    using assms f by (cases "controller ch = ATA")
      (simp_all add: sector_command_def terror_def check_ata_def check_sector_def err_set_def)
  moreover have "hasFailed e" using assms(4) f by simp
  ultimately show ?thesis
    by (simp_all add: read_sector_def write_sector_def terror_def)
qed

theorem sector_refused_witness:
  "read_sector (logged (sample_sys 8)) 1000 0 sample_hd = Some ([], sample_hd\<lparr>hd_err := BEYONDENDOFDEVICE\<rparr>)"
  using sector_refused [OF sample_sector(1,4), of 1000 BEYONDENDOFDEVICE "logged (sample_sys 8)"] sample_sector(2)
  by (simp add: sample_channel_def)

text \<open>
  C31: the wait for the drive never notices the interrupt.  The kernel reports interrupts as a mask
  of bits, of which a driver that asked for the interrupts 14 and 15 gets the bits 14 and 15; the
  loop compares the mask with the numbers 14 and 15.  When no receive fails, a drive that is not
  ready at the first look is therefore waited for without end.
\<close>

theorem wait_never_notices:
  assumes "\<And>w. \<not> hasFailed (fst (do_receive sys w))" and "\<And>w. fst (do_receive sys w) AND 0x3fff = 0"
  shows "wait_drq sys ch status s = (if status AND BIT_DRQ \<noteq> 0 then Some s else None)"
proof -
  have never: "fst (do_receive sys w) \<noteq> irq_expected ch" for w ch
    using assms(2) [of w] by (auto simp: irq_expected_def)
  have "sys' = sys \<longrightarrow> status AND BIT_DRQ = 0 \<longrightarrow> False"
    if "wait_drq sys' ch status s = Some r" for sys' ch status s r
    using that
    apply (rule wait_drq.raw_induct [where P = "\<lambda>sys' ch status s r.
        sys' = sys \<longrightarrow> status AND BIT_DRQ = 0 \<longrightarrow> False", rotated])
    using never assms(1) by (auto simp: call_syscall_def split_def Let_def split: if_splits)
  then have "status AND BIT_DRQ = 0 \<Longrightarrow> wait_drq sys ch status s = None"
    by (cases "wait_drq sys ch status s") auto
  then show ?thesis by (simp add: wait_ready)
qed

theorem wait_never_notices_witness: "wait_drq (sample_sys 0x40) sample_channel 0x40 (hd_init ()) = None"
proof -
  have "\<not> hasFailed 0x4000" by code_simp
  then show ?thesis by (subst wait_never_notices) (simp_all add: sample_sys_def)
qed

section \<open>Partitions and the file system\<close>

lemma entry_nth:
  "(x0 # x1 # x2 # x3 # x4 # x5 # x6 # x7 # r) ! 0 = x0" "(x0 # x1 # x2 # x3 # x4 # x5 # x6 # x7 # r) ! 1 = x1"
  "(x0 # x1 # x2 # x3 # x4 # x5 # x6 # x7 # r) ! 2 = x2" "(x0 # x1 # x2 # x3 # x4 # x5 # x6 # x7 # r) ! (2 + 1) = x3"
  "(x0 # x1 # x2 # x3 # x4 # x5 # x6 # x7 # r) ! 4 = x4" "(x0 # x1 # x2 # x3 # x4 # x5 # x6 # x7 # r) ! 5 = x5"
  "(x0 # x1 # x2 # x3 # x4 # x5 # x6 # x7 # r) ! 6 = x6" "(x0 # x1 # x2 # x3 # x4 # x5 # x6 # x7 # r) ! (6 + 1) = x7"
  by simp_all

text \<open>
  C32: an entry of the partition table that describes the sectors \<open>a\<close> to \<open>b\<close> of a disk by cylinder,
  head and sector, within the limits of that format, is read back as \<open>a\<close> and \<open>b\<close>, with its type and
  its mark; nothing else of the partition changes.
\<close>

theorem partition_entry_roundtrip:
  assumes "H = unat (nr_heads ch)" and "S = unat (nr_sectors_per_track ch)"
    and "0 < H" and "H \<le> 256" and "0 < S" and "S \<le> 63" and "a < 1024 * H * S" and "b < 1024 * H * S"
  shows "set_entry (encode_entry H S bt ty a b) ch q =
    q\<lparr>bootable := ucast bt, part_type := ucast ty, first_sector := of_nat a, last_sector := of_nat b\<rparr>"
proof -
  let ?e = "encode_entry H S bt ty a b"
  have small: "x mod S + 1 < 64" "x div (S * H) div 256 < 4" "x div S mod H < 256"
    if "x < 1024 * H * S" for x
  proof -
    show "x mod S + 1 < 64" using mod_less_divisor [OF assms(5), of x] assms(6) by linarith
    show "x div S mod H < 256" using mod_less_divisor [OF assms(3), of "x div S"] assms(4) by linarith
    have "x div (S * H) < 1024" using that assms(3,5) by (simp add: less_mult_imp_div_less mult.commute mult.left_commute)
    then show "x div (S * H) div 256 < 4" by (simp add: less_mult_imp_div_less)
  qed
  let ?ca = "a div (S * H)" and ?cb = "b div (S * H)"
  have nth: "?e ! 0 = bt" "?e ! 1 = of_nat (a div S mod H)" "?e ! 2 = of_nat (a mod S + 1 + 64 * (?ca div 256))"
    "?e ! (2 + 1) = of_nat (?ca mod 256)" "?e ! 4 = ty" "?e ! 5 = of_nat (b div S mod H)"
    "?e ! 6 = of_nat (b mod S + 1 + 64 * (?cb div 256))" "?e ! (6 + 1) = of_nat (?cb mod 256)"
    unfolding encode_entry_def chs_bytes_def append.simps by (rule entry_nth)+
  have head: "(ucast (of_nat n :: u8) :: u16) = of_nat n" if "n < 256" for n
    using unat_byte [OF that] that by (simp add: word_unat_eq_iff unat_of_nat take_bit_eq_mod)
  have m: "c mod 256 < 256" "256 * (c div 256) + c mod 256 = c" for c :: nat by simp_all
  have "partition_get_first_cylinder ?e = of_nat ?ca" "partition_get_last_cylinder ?e = of_nat ?cb"
    unfolding partition_get_first_cylinder_def partition_get_last_cylinder_def partition_get_cylinder_def nth
      cylinder_bits [OF small(1,2) [OF assms(7)] m(1)] cylinder_bits [OF small(1,2) [OF assms(8)] m(1)] m(2)
    by (rule refl)+
  moreover have "partition_get_first_head ?e = of_nat (a div S mod H)" "partition_get_last_head ?e = of_nat (b div S mod H)"
    unfolding partition_get_first_head_def partition_get_last_head_def nth head [OF small(3) [OF assms(7)]]
      head [OF small(3) [OF assms(8)]] by (rule refl)+
  moreover have "partition_get_first_sector ?e = of_nat (a mod S + 1)" "partition_get_last_sector ?e = of_nat (b mod S + 1)"
    unfolding partition_get_first_sector_def partition_get_last_sector_def nth
      sector_bits [OF small(1,2) [OF assms(7)]] sector_bits [OF small(1,2) [OF assms(8)]] by (rule refl)+
  note get = calculation this
  show ?thesis
    unfolding set_entry_def get nth chs2lba_encoded [OF assms(3,5,1,2,7,4,6)] chs2lba_encoded [OF assms(3,5,1,2,8,4,6)] ..
qed

theorem partition_entry_roundtrip_witness:
  "first_sector (set_entry (encode_entry 16 63 0x80 0x83 2048 100000) sample_channel blank_partition) = 2048"
proof -
  have "set_entry (encode_entry 16 63 0x80 0x83 2048 100000) sample_channel blank_partition = blank_partition
    \<lparr>bootable := ucast (0x80 :: u8), part_type := ucast (0x83 :: u8), first_sector := of_nat 2048, last_sector := of_nat 100000\<rparr>"
    by (rule partition_entry_roundtrip) (simp_all add: sample_channel_def)
  then show ?thesis by simp
qed




text \<open>
  C34: a block of a directory whose entries fill it, each with a name that ends before the entry
  does and has no percent sign, is listed completely and in order: for every entry the driver sends
  a line and the name.
\<close>

theorem directory_listing:
  assumes "length (outf_msg sys) = 1921" and "block = concat (map entry_bytes es)"
    and "length block = 1024" and "\<forall>e\<in>set es. entry_ok e"
  shows "\<exists>s'. do_direct_directory (logged sys) block s = Some s' \<and> hd_err s' = hd_err s \<and> channels s' = channels s \<and>
    rev (log_of s') = rev (log_of s) @ concat (map entry_events es)"
  using direct_entries_listing [of sys block "[]" es s] assms by (fastforce simp: do_direct_directory_def)

definition sample_entries :: "dir_entry list" where
  "sample_entries =
     [\<lparr>entry_inode = 2, entry_kind = (1, 2), entry_name = [46], entry_rest = replicate 2 0\<rparr>,
      \<lparr>entry_inode = 2, entry_kind = (2, 2), entry_name = [46, 46], entry_rest = replicate 1001 0\<rparr>]"

theorem directory_listing_witness:
  "\<exists>s'. do_direct_directory (logged (sample_sys 0)) (concat (map entry_bytes sample_entries)) sample_hd = Some s' \<and>
    rev (log_of s') = concat (map entry_events sample_entries)"
proof -
  have "length (outf_msg (sample_sys 0)) = 1921" by (simp add: sample_sys_def)
  moreover have "length (concat (map entry_bytes sample_entries)) = 1024"
    by (simp add: sample_entries_def length_entry_bytes entry_length_def)
  moreover have "\<forall>e\<in>set sample_entries. entry_ok e" by (simp add: sample_entries_def entry_ok_def)
  ultimately have "\<exists>s'. do_direct_directory (logged (sample_sys 0)) (concat (map entry_bytes sample_entries)) sample_hd =
      Some s' \<and> hd_err s' = hd_err sample_hd \<and> channels s' = channels sample_hd \<and>
    rev (log_of s') = rev (log_of sample_hd) @ concat (map entry_events sample_entries)"
    by (intro directory_listing refl)
  then show ?thesis by (auto simp: sample_hd_def hd_init_def)
qed



section \<open>Transfer buffers\<close>

lemma round_up: "0 < m \<Longrightarrow> (p :: nat) + (m - p mod m) = (p div m + 1) * m"
proof -
  assume "0 < m"
  then have "p mod m < m" by simp
  then show ?thesis using div_mult_mod_eq [of p m] unfolding distrib_right by linarith
qed

text \<open>
  The buffer for the bus master.  In an array of 128 kilobytes the search finds a place whose
  64 kilobytes lie in the array and in one 64 kilobyte page of the memory; the two addresses of the
  place stay in step.
\<close>

theorem dma_buffer_placed:
  assumes "do_vir2phys sys space (world s) = (e, phys, w)" and "\<not> hasFailed e"
    and "unat space + 131072 \<le> 2 ^ 32" and "unat phys + 131072 \<le> 2 ^ 32"
  shows "\<exists>d' s' k. do_dma_buffer sys space d s = Some (d', s') \<and> k < 65536 \<and>
    unat (dma_addr d') = unat space + k \<and> unat (dma_phys d') = unat phys + k \<and> unat (dma_phys d') mod 65536 = 0"
proof -
  let ?p = "unat phys" and ?nb = "(phys div 65536 + 1) * 65536"
  define k where "k = (if ?p mod 65536 = 0 then 0 else 65536 - ?p mod 65536)"
  let ?d = "d\<lparr>dma_addr := space + of_nat k, dma_phys := phys + of_nat k\<rparr>"
  have z: "phys mod 65536 = 0 \<longleftrightarrow> ?p mod 65536 = 0"
  proof -
    have "unat (phys mod 65536) = ?p mod 65536" by (simp add: unat_mod)
    then show ?thesis by (metis unat_eq_zero)
  qed
  have "unat (phys div 65536) = ?p div 65536" by (simp add: unat_div)
  then have d: "of_nat (?p div 65536) = phys div 65536" by (metis of_nat_unat ucast_id)
  have k: "k < 65536" "(?p + k) mod 65536 = 0" unfolding k_def by simp (simp only: round_up split: if_split, simp)
  have "do_dma_buffer sys space d s = Some (?d, s\<lparr>hd_err := e, world := w\<rparr>)"
  proof (cases "phys mod 65536 = 0")
    case True
    then have "k = 0" using z by (simp add: k_def)
    then show ?thesis using True assms(1,2) by (simp add: do_dma_buffer_def call_input_def)
  next
    case False
    then have "?p + k = (?p div 65536 + 1) * 65536"
      using z round_up [of 65536 ?p] by (simp add: k_def)
    moreover have "?nb = of_nat ((?p div 65536 + 1) * 65536)" using d by simp
    ultimately have "?nb = phys + of_nat k" by (metis of_nat_add of_nat_unat ucast_id)
    then show ?thesis using False assms(1,2) by (simp add: do_dma_buffer_def call_input_def Let_def)
  qed
  moreover have "unat (x + of_nat k) = unat x + k" if "unat x + 131072 \<le> 2 ^ 32" for x :: u32
  proof -
    have "unat (of_nat k :: u32) = k" using k(1) by (simp add: unat_of_nat take_bit_nat_eq_self)
    then show ?thesis using that k(1) by (simp add: unat_word_ariths)
  qed
  ultimately show ?thesis using k assms(3,4)
    by (intro exI [of _ ?d] exI [of _ "s\<lparr>hd_err := e, world := w\<rparr>"] exI [of _ k]) simp
qed

theorem dma_buffer_placed_witness:
  "\<exists>d' s' k. do_dma_buffer (sample_sys 0) 0x1000 \<lparr>dma_addr = 0, dma_phys = 0\<rparr> (hd_init ()) = Some (d', s') \<and>
    unat (dma_phys d') mod 65536 = (0 :: nat) \<and> k < (65536 :: nat)"
proof -
  have "do_vir2phys (sample_sys 0) 0x1000 (world (hd_init ())) = (OK, 0x13345, ())" by (simp add: sample_sys_def hd_init_def)
  moreover have "\<not> hasFailed OK" by (simp add: hasFailed_def OK_def)
  moreover have "unat (0x1000 :: u32) + 131072 \<le> 2 ^ 32" "unat (0x13345 :: u32) + 131072 \<le> 2 ^ 32" by simp_all
  ultimately have "\<exists>d' s' k. do_dma_buffer (sample_sys 0) 0x1000 \<lparr>dma_addr = 0, dma_phys = 0\<rparr> (hd_init ()) = Some (d', s') \<and>
      k < 65536 \<and> unat (dma_addr d') = unat (0x1000 :: u32) + k \<and> unat (dma_phys d') = unat (0x13345 :: u32) + k \<and>
      unat (dma_phys d') mod 65536 = 0"
    by (intro dma_buffer_placed)
  then show ?thesis by (elim exE conjE) (intro exI conjI)
qed

end
