(* ===== verification/MK_Boot.thy ===== *)
theory MK_Boot
  imports MK_Console
begin

text \<open>
  The start of the kernel: the tables that are part of the image (\<^verbatim>\<open>kernel/table.hla\<close>) and the
  procedure \<open>start\<close> of \<^verbatim>\<open>kernel/main.hla\<close>, from the jump of the boot sector to the moment the
  interrupts are enabled.  \<open>image\<close> holds what the linker and the build decide: the addresses
  of the tables and of the entry points, and the sizes of the three programs.  The memory the
  boot sector left, with the image loaded at \<open>KERNEL_BASE\<close>, is an argument.
\<close>

section \<open>The image\<close>

record image =
  im_kernelstate :: ptr
  im_idlestate :: ptr
  im_intrrptstate :: "ptr list"
  im_exceptnstate :: "ptr list"
  im_proctab :: ptr
  im_behind_pproctab :: ptr
  im_gdtBitmap :: ptr
  im_pidBitmap :: ptr
  im_idle_task :: u32
  im_hw_intrrpt :: "u32 list"
  im_hw_exceptn :: "u32 list"
  im_video_size :: u32
  im_shell_size :: u32
  im_hd_size :: u32

text \<open>The exceptions the kernel has a task for: number 15 is reserved by the processor.\<close>

definition exceptions :: "nat list" where
  "exceptions = [0..<15] @ [16..<20]"

text \<open>The fields that the initialisers have in common; the others are zero.\<close>

definition table_tss :: "u16 \<Rightarrow> u16 \<Rightarrow> u8 list \<Rightarrow> tss" where
  "table_tss p i name = \<lparr>backlink = 0, interrupts = 0, esp0 = 0, ss0 = 0, zeroes2 = 0, schedticks = 0,
     tss_state = 0, misc = 0, zeroes3 = 0, ticksleft = 0, pid = p, zeroes4 = 0, cr3_reg = 0,
     eip_reg = 0, eflag_reg = 0, eax_reg = 0, ecx_reg = 0, edx_reg = 0, ebx_reg = 0, esp_reg = 0,
     ebp_reg = 0, esi_reg = 0, edi_reg = 0, es_reg = 0, zeroes5 = 0, cs_reg = 0, zeroes6 = 0,
     ss_reg = 0, zeroes7 = 0, ds_reg = 0, zeroes8 = 0, fs_reg = 0, zeroes9 = 0, gs_reg = 0,
     zeroes10 = 0, ldt_sel = 0, zeroes11 = 0, debug = 0, zeroes12 = 0, iomap_base = ucast SIZEOF_TSS,
     tss_next = NULL, idx_tss = i, callMask = 0, tss_previous = NULL, firstSender = NULL,
     nextSender = NULL, receivingFrom = NULL, procname = name\<rparr>"

definition spaces :: "nat \<Rightarrow> u8 list" where
  "spaces n = replicate n 0x20"

text \<open>Selectors of the descriptors the boot sector has loaded.\<close>

abbreviation (input) SEL_KERNELCODE :: u16 where "SEL_KERNELCODE \<equiv> 8"
abbreviation (input) SEL_KERNELDATA :: u16 where "SEL_KERNELDATA \<equiv> 16"
abbreviation (input) SEL_VIDEO :: u16 where "SEL_VIDEO \<equiv> 40"
abbreviation (input) SEL_MEMORY :: u16 where "SEL_MEMORY \<equiv> 48"
abbreviation (input) SEL_INTSTACK :: u16 where "SEL_INTSTACK \<equiv> 56"

definition kernel_tss :: tss where
  "kernel_tss = table_tss 1 64 (spaces 18)"

definition free_tss :: tss where
  "free_tss = (table_tss 0 0 (spaces 18))\<lparr>ss0 := SEL_INTSTACK, tss_state := EMPTY\<rparr>"

definition idle_tss :: "u32 \<Rightarrow> tss" where
  "idle_tss entry = (table_tss 0 72 ([0x49, 0x44, 0x4c, 0x45] @ spaces 14))
     \<lparr>esp0 := 0xfffffffc, ss0 := SEL_INTSTACK, eip_reg := entry, eflag_reg := 0x200,
      esp_reg := 0xfffffffc, cs_reg := SEL_KERNELCODE, ss_reg := SEL_INTSTACK\<rparr>"

text \<open>The task of an interrupt or an exception; \<open>p\<close> is its process number, \<open>i\<close> its descriptor.\<close>

definition task_tss :: "nat \<Rightarrow> nat \<Rightarrow> u32 \<Rightarrow> tss" where
  "task_tss p i entry = (table_tss (of_nat p) (of_nat (8 * i)) (spaces 18))
     \<lparr>esp0 := 0xfffffffc, ss0 := SEL_INTSTACK, eip_reg := entry, edx_reg := 31,
      esp_reg := 0xfffffffc, es_reg := SEL_KERNELDATA, cs_reg := SEL_KERNELCODE,
      ss_reg := SEL_INTSTACK, ds_reg := SEL_KERNELDATA, fs_reg := SEL_MEMORY, gs_reg := SEL_VIDEO\<rparr>"

definition proctab :: "image \<Rightarrow> ptr list" where
  "proctab im = map (\<lambda>i. im_proctab im + SIZEOF_TSS * of_nat i) [0..<MAX_NO_PROCS]"

definition table_entries :: "image \<Rightarrow> (ptr \<times> tss) list" where
  "table_entries im =
     (im_kernelstate im, kernel_tss) # (im_idlestate im, idle_tss (im_idle_task im)) #
     zip (im_intrrptstate im) (map2 (\<lambda>n. task_tss (2 + n) (10 + n)) [0..<16] (im_hw_intrrpt im)) @
     zip (im_exceptnstate im) (map2 (\<lambda>n. task_tss (18 + n) (26 + n)) exceptions (im_hw_exceptn im)) @
     map (\<lambda>p. (p, free_tss)) (proctab im)"

text \<open>The kernel's data before the first instruction of \<open>start\<close>; what has no initialiser is zero.\<close>

definition loaded :: "image \<Rightarrow> memory \<Rightarrow> kstate" where
  "loaded im m = \<lparr>tsss = map_of (table_entries im),
     schedqueue = \<lparr>sq_head = NULL, sq_ticksleft = 0, sq_schedticks = 0\<rparr>,
     curptr = NULL, nextptr = NULL,
     featureTable = replicate 4 \<lparr>supplier = NULL, waiter = NULL\<rparr>, irqs = replicate 16 NULL,
     port_accessers = (\<lambda>_. NULL), mem = m, gdt_limit = 0, hours = 0, minutes = 0, seconds = 0,
     in_kernel = 0, flag = 0, io_trace = [], console = [],
     idlestate = im_idlestate im, intrrptstate = im_intrrptstate im,
     pproctab = proctab im, pproctab_end = im_behind_pproctab im,
     gdtBitmap = im_gdtBitmap im, pidBitmap = im_pidBitmap im\<rparr>"

section \<open>The memory map of the BIOS\<close>

text \<open>Base, length and type of a region; the map at \<open>a\<close> has descriptors of 20 bytes.\<close>

definition memory_region :: "memory \<Rightarrow> u32 \<Rightarrow> nat \<Rightarrow> u32 \<times> u32 \<times> u32" where
  "memory_region m a k =
     (let a = a + 20 * of_nat k in (rd32 m a, rd32 m (a + 8), rd32 m (a + 16)))"

definition show_region :: "u32 \<times> u32 \<times> u32 \<Rightarrow> kstate \<Rightarrow> kstate" where
  "show_region r = (case r of (b, l, t) \<Rightarrow>
     kputs ([KString ''Base Address: '', KHex b, KChar 9, KString ''Length: '', KHex l, KChar 9,
             KString ''Type: ''] @
            (if t = 1 then [KString ''FREE''] else if t = 2 then [KString ''RESERVED''] else [KHex t]) @
            [KChar 10]))"

text \<open>
  The table \<open>memory\<close> of the kernel has room for ten regions.  What is not copied is zero, and so
  is the type the search for a region of usable memory reads behind the table when there is none.
\<close>

definition do_mem :: "u32 \<Rightarrow> kstate \<Rightarrow> bool \<times> kstate" where
  "do_mem pass s =
     (let n = rd32 (mem s) pass;
          regions = map (memory_region (mem s) (pass + 4)) [0..<unat (min n 10)];
          s = kputs [KString ''BIOS has identified '', KUnsint n, KString '' memory regions:'',
                     KChar 10, KChar 10] s;
          s = fold show_region regions s
      in case find (\<lambda>(b, l, t). t = 1) regions of
           None \<Rightarrow> (False, kputs [KString ''PANIC: NO RAM FOUND!''] s)
         | Some (b, l, t) \<Rightarrow>
             (True, kputs [KChar 10,
                KString ''Size of bootstrapper (512.asm)     : '', KHex 512, KChar 10,
                KString ''Size of Interrupt Descriptor Table : '', KHex 0x400, KChar 10,
                KString ''Size of BIOS Data Area             : '', KHex 0x100, KChar 10,
                KString ''Size of Global Descriptor Table    : '', KHex 0x2000, KChar 10,
                KString ''Size of Interrupt Descriptor Table : '', KHex 0x2000, KChar 10, KChar 10,
                KString ''===================> Memory available for kernel: '',
                KHex (l - (0x400 + 0x100 + 512 + 0x2000 + 0x2000)),
                KString '' <==================='', KChar 10] s))"

section \<open>Descriptors, gates and controllers\<close>

abbreviation (input) IDT_BASE :: u32 where "IDT_BASE \<equiv> 0x12700"

datatype inttype_t = INTERRUPT | TRAP | TSS

definition hook_int :: "u32 \<Rightarrow> inttype_t \<Rightarrow> u32 \<Rightarrow> u32 \<Rightarrow> memory \<Rightarrow> memory" where
  "hook_int i t s offset m =
     (let a = IDT_BASE + i * 8;
          m = m(a + 4 := 0);
          m = wr16 (a + 2) (ucast s) m
      in if t = INTERRUPT \<or> t = TRAP
         then let m = wr16 a (ucast offset) m;
                  m = wr16 (a + 6) (ucast (drop_bit 16 offset)) m
              in m(a + 5 := if t = INTERRUPT then 0x8e else 0x8f)
         else let m = wr16 a 0 m;
                  m = wr16 (a + 6) 0 m
              in m(a + 5 := 0xe5))"

definition outs :: "(u32 \<times> u32) list \<Rightarrow> kstate \<Rightarrow> kstate" where
  "outs = fold (\<lambda>(port, v). outb port v)"

definition remap_pics :: "u32 \<Rightarrow> u32 \<Rightarrow> kstate \<Rightarrow> kstate" where
  "remap_pics offset1 offset2 =
     outs [(0x20, 0x11), (0xa0, 0x11), (0x21, offset1), (0xa1, offset2), (0x21, 4), (0xa1, 2),
           (0x21, 1), (0xa1, 1), (0x21, 0xff), (0xa1, 0xff)]"

definition init_clock :: "u16 \<Rightarrow> kstate \<Rightarrow> kstate" where
  "init_clock divider =
     outs [(0x43, 0x34), (0x40, ucast divider AND 0xff), (0x40, ucast (drop_bit 8 divider))]"

definition unfree_pid :: "u32 \<Rightarrow> kstate \<Rightarrow> kstate" where
  "unfree_pid what s = s\<lparr>mem := unfreeBitInBitfield (pidBitmap s) what (mem s)\<rparr>"

text \<open>The tasks that exist from the start, by the number of their descriptor.\<close>

definition boot_tasks :: "image \<Rightarrow> (nat \<times> ptr) list" where
  "boot_tasks im = (8, im_kernelstate im) # (9, im_idlestate im) #
     zip [10..<26] (im_intrrptstate im) @ zip (map ((+) 26) exceptions) (im_exceptnstate im)"

definition boot_pids :: "nat list" where
  "boot_pids = [1, 0] @ [2..<18] @ map ((+) 18) exceptions"

definition boot_gates :: "(nat \<times> nat) list" where
  "boot_gates = zip [0x20..<0x30] [10..<26] @ zip exceptions (map ((+) 26) exceptions)"

definition reserve_descriptors :: "kstate \<Rightarrow> kstate" where
  "reserve_descriptors = fold (\<lambda>k. unfree_gdt_idx (selector k)) [0..<8]"

definition write_tasks :: "image \<Rightarrow> kstate \<Rightarrow> kstate" where
  "write_tasks im =
     fold (\<lambda>(k, a). write_tss_desc (selector k) 104 (a + KERNEL_BASE) 1 0 0 0) (boot_tasks im)"

definition take_pids :: "kstate \<Rightarrow> kstate" where
  "take_pids = fold (\<lambda>p. unfree_pid (of_nat p)) boot_pids"

definition hook_tasks :: "kstate \<Rightarrow> kstate" where
  "hook_tasks s = s\<lparr>mem := fold (\<lambda>(i, k). hook_int (of_nat i) TSS (selector k) 0) boot_gates (mem s)\<rparr>"

section \<open>The start\<close>

text \<open>The stacks of the tasks that run in the kernel begin at the end of its segment.\<close>

definition set_stacks :: "image \<Rightarrow> u32 \<Rightarrow> kstate \<Rightarrow> kstate" where
  "set_stacks im top_esp s = s\<lparr>tsss := fold
     (\<lambda>a m. m(a := map_option (\<lambda>t. t\<lparr>esp_reg := top_esp, ebp_reg := top_esp\<rparr>) (m a)))
     (im_intrrptstate im @ im_exceptnstate im @ [im_idlestate im]) (tsss s)\<rparr>"

definition install_tables :: "image \<Rightarrow> kstate \<Rightarrow> kstate" where
  "install_tables im s =
     (let s = init_port_accessers s;
          s = reserve_descriptors s;
          s = write_tasks im s;
          s = take_pids s;
          s = remap_pics 0x20 0x28 s;
          s = hook_tasks s;
          s = outb 0x21 0xfc s
      in init_clock 0x91a7 s)"

text \<open>
  A program at \<open>base\<close>: one segment for everything except the video segment \<open>gs\<close>.  \<open>stk\<close> is the word
  \<open>write_tss_desc\<close> finds behind its arguments (see \<open>create_process\<close>).
\<close>

definition start_process :: "u32 \<Rightarrow> string \<Rightarrow> u32 \<Rightarrow> u32 \<Rightarrow> area \<Rightarrow> u8 list \<Rightarrow> kstate \<Rightarrow> kstate option" where
  "start_process stk what base sz gs name s = do {
     let s = kputs [KString (''Creating '' @ what @ '' process at address: ''), KHex base,
                    KString '' ... '', KChar 10] s;
     let all = (base, sz);
     (process, s) \<leftarrow> create_process stk 3 1 0 all all all all gs all name s;
     let s = kputs [KString (''Adding '' @ what @ '' process to the run queue ...''), KChar 10] s;
     enqueue process s
   }"

datatype boot = Halted kstate | Running kstate

definition start :: "image \<Rightarrow> u32 \<times> u32 \<times> u32 \<Rightarrow> u32 \<Rightarrow> kstate \<Rightarrow> boot option" where
  "start im stks pass s =
     (let a = pass + 2;
          s = s\<lparr>gdt_limit := rd16 (mem s) a\<rparr>;
          kernel_size = rd32 (mem s) (a + 6);
          s = set_stacks im kernel_size s;
          (ram, s) = do_mem (a + 10) s
      in if \<not> ram then Some (Halted s)
         else do {
           let s = install_tables im s;
           let tty = kernel_size + KERNEL_BASE;
           s \<leftarrow> start_process (fst stks) ''display driver'' tty (im_video_size im) (0xb8000, 4096)
                  [116, 116, 121, 0] s;
           let shell = tty + im_video_size im;
           s \<leftarrow> start_process (fst (snd stks)) ''shell'' shell (im_shell_size im)
                  (shell, im_shell_size im) [115, 104, 101, 108, 108, 0] s;
           let hd = shell + im_shell_size im;
           s \<leftarrow> start_process (snd (snd stks)) ''IDE driver'' hd (im_hd_size im)
                  (hd, im_hd_size im) [104, 100, 0] s;
           Some (Running (kputs [KChar 10, KString
             ''Will now enable interrupts and yield control to the process scheduler ...''] s))
         })"

end
