(* ===== verification/MK_Boot_Inv.thy ===== *)
theory MK_Boot_Inv
  imports MK_Boot
begin

text \<open>
  What the start of the kernel leaves behind: the tables of the scheduler and of the messages are
  untouched until the first process is created, so the kernel's invariant holds with an empty run
  queue; enough descriptors stay free for the three programs; each creation keeps the invariant.
\<close>

section \<open>The data of the kernel\<close>

text \<open>Everything but memory, ports and the console.\<close>

definition kdata :: "kstate \<Rightarrow> kstate" where
  "kdata s = s\<lparr>mem := (\<lambda>_. 0), gdt_limit := 0, io_trace := [], console := [], port_accessers := (\<lambda>_. NULL)\<rparr>"

lemma kdataD:
  assumes "kdata s' = kdata s"
  shows "tsss s' = tsss s" "schedqueue s' = schedqueue s" "curptr s' = curptr s" "nextptr s' = nextptr s"
    "featureTable s' = featureTable s" "irqs s' = irqs s" "idlestate s' = idlestate s"
    "intrrptstate s' = intrrptstate s" "pproctab s' = pproctab s" "pproctab_end s' = pproctab_end s"
    "gdtBitmap s' = gdtBitmap s" "pidBitmap s' = pidBitmap s"
  using arg_cong [OF assms, of tsss] arg_cong [OF assms, of schedqueue] arg_cong [OF assms, of curptr]
    arg_cong [OF assms, of nextptr] arg_cong [OF assms, of featureTable] arg_cong [OF assms, of irqs]
    arg_cong [OF assms, of idlestate] arg_cong [OF assms, of intrrptstate] arg_cong [OF assms, of pproctab]
    arg_cong [OF assms, of pproctab_end] arg_cong [OF assms, of gdtBitmap] arg_cong [OF assms, of pidBitmap]
  by (simp_all add: kdata_def)

lemma kdata_kinv_g: "kdata s' = kdata s \<Longrightarrow> kinv_g X s' qs L = kinv_g X s qs L"
proof -
  have "kinv_g X (kdata s) qs L = kinv_g X s qs L" for s by (simp add: kdata_def)
  then show "kdata s' = kdata s \<Longrightarrow> ?thesis" by metis
qed

lemma kdata_upd [simp]:
  "kdata (s\<lparr>mem := m\<rparr>) = kdata s" "kdata (s\<lparr>console := c\<rparr>) = kdata s"
  "kdata (s\<lparr>io_trace := t\<rparr>) = kdata s" "kdata (s\<lparr>gdt_limit := l\<rparr>) = kdata s"
  "kdata (s\<lparr>port_accessers := a\<rparr>) = kdata s"
  by (simp_all add: kdata_def)

lemma kdata_ops [simp]:
  "kdata (kputs ks s) = kdata s" "kdata (outb p v s) = kdata s" "kdata (unfree_gdt_idx i s) = kdata s"
  "kdata (unfree_pid i s) = kdata s" "kdata (grow_gdt i s) = kdata s"
  "kdata (write_tss_desc i l b pr pv bu g s) = kdata s" "kdata (hook_tasks s) = kdata s"
  "kdata (init_port_accessers s) = kdata s"
  by (simp_all add: kputs_def outb_def unfree_gdt_idx_def unfree_pid_def grow_gdt_def
      write_tss_desc_def Let_def hook_tasks_def init_port_accessers_def del: init_accessers_loop.simps)

lemma fold_keeps: "(\<And>x s. f (g x s) = f s) \<Longrightarrow> f (fold g xs s) = f s"
  by (induction xs arbitrary: s) simp_all

lemma kdata_folds [simp]:
  "kdata (outs xs s) = kdata s" "kdata (reserve_descriptors s) = kdata s" "kdata (take_pids s) = kdata s"
  "kdata (write_tasks im s) = kdata s" "kdata (fold show_region rs s) = kdata s"
  unfolding outs_def reserve_descriptors_def take_pids_def write_tasks_def
  by (rule fold_keeps, simp add: show_region_def split: prod.splits)+

lemma kdata_do_mem: "do_mem pass s = (ok, s') \<Longrightarrow> kdata s' = kdata s"
  by (auto simp: do_mem_def Let_def simp del: kdata_ops(2-8) split: option.splits prod.splits)

lemma kdata_install [simp]: "kdata (install_tables im s) = kdata s"
  by (simp add: install_tables_def Let_def remap_pics_def init_clock_def)

section \<open>The tables of the image\<close>

definition task_addresses :: "image \<Rightarrow> ptr list" where
  "task_addresses im = im_kernelstate im # im_idlestate im # im_intrrptstate im @ im_exceptnstate im @
     proctab im"

text \<open>What the linker guarantees: the tables do not overlap, and none of them is at address 0.\<close>

definition image_ok :: "image \<Rightarrow> bool" where
  "image_ok im \<longleftrightarrow>
     length (im_intrrptstate im) = 16 \<and> length (im_hw_intrrpt im) = 16 \<and>
     length (im_exceptnstate im) = 19 \<and> length (im_hw_exceptn im) = 19 \<and>
     distinct (task_addresses im) \<and> NULL \<notin> set (task_addresses im) \<and>
     im_behind_pproctab im \<notin> set (proctab im) \<and>
     im_gdtBitmap im \<le> 0xf0000000 \<and> im_pidBitmap im \<le> 0xf0000000 \<and>
     (im_gdtBitmap im + 1024 \<le> im_pidBitmap im \<or> im_pidBitmap im + 1024 \<le> im_gdtBitmap im)"

lemma entries_addresses: "image_ok im \<Longrightarrow> map fst (table_entries im) = task_addresses im"
  by (simp add: image_ok_def table_entries_def task_addresses_def exceptions_def map_fst_zip comp_def)

lemma loaded_tss:
  assumes "image_ok im"
  shows "tsss (loaded im m) p = Some t \<longleftrightarrow> (p, t) \<in> set (table_entries im)"
    "dom (tsss (loaded im m)) = set (task_addresses im)"
proof -
  note a = entries_addresses [OF assms]
  have "distinct (map fst (table_entries im))" using assms a by (simp add: image_ok_def)
  then show "tsss (loaded im m) p = Some t \<longleftrightarrow> (p, t) \<in> set (table_entries im)"
    by (simp add: loaded_def map_of_eq_Some_iff)
  show "dom (tsss (loaded im m)) = set (task_addresses im)"
    unfolding a [symmetric] by (simp add: loaded_def dom_map_of_conv_image_fst)
qed

text \<open>What the scheduler and the messages read of a task-state segment is zero in all of them.\<close>

definition unlinked :: "tss \<Rightarrow> bool" where
  "unlinked t \<longleftrightarrow> tss_next t = NULL \<and> tss_previous t = NULL \<and> firstSender t = NULL \<and> misc t = 0 \<and>
     schedticks t = 0 \<and> length (procname t) = 18"

lemma table_unlinked: "(p, t) \<in> set (table_entries im) \<Longrightarrow> unlinked t"
  by (auto simp: table_entries_def kernel_tss_def idle_tss_def free_tss_def task_tss_def table_tss_def
      spaces_def unlinked_def dest!: set_zip_rightD)

lemma proctab_entry: "p \<in> set (proctab im) \<Longrightarrow> (p, free_tss) \<in> set (table_entries im)"
  by (simp add: table_entries_def)

lemma set_stacks_tss:
  "tsss (set_stacks im k s) p =
     (if p \<in> set (im_intrrptstate im @ im_exceptnstate im @ [im_idlestate im])
      then map_option (\<lambda>t. t\<lparr>esp_reg := k, ebp_reg := k\<rparr>) (tsss s p) else tsss s p)"
proof -
  have "fold (\<lambda>a m. m(a := map_option (\<lambda>t. t\<lparr>esp_reg := k, ebp_reg := k\<rparr>) (m a))) as m p =
    (if p \<in> set as then map_option (\<lambda>t. t\<lparr>esp_reg := k, ebp_reg := k\<rparr>) (m p) else m p)" for "as" m
    by (induction "as" arbitrary: m) (auto simp: option.map_comp comp_def)
  moreover have "tsss (s\<lparr>tsss := x\<rparr>) = x" for x by simp
  ultimately show ?thesis by (simp only: set_stacks_def)
qed

lemma set_stacks_other:
  "schedqueue (set_stacks im k s) = schedqueue s" "curptr (set_stacks im k s) = curptr s"
  "nextptr (set_stacks im k s) = nextptr s" "featureTable (set_stacks im k s) = featureTable s"
  "irqs (set_stacks im k s) = irqs s" "idlestate (set_stacks im k s) = idlestate s"
  "intrrptstate (set_stacks im k s) = intrrptstate s" "pproctab (set_stacks im k s) = pproctab s"
  "pproctab_end (set_stacks im k s) = pproctab_end s" "gdtBitmap (set_stacks im k s) = gdtBitmap s"
  "pidBitmap (set_stacks im k s) = pidBitmap s" "mem (set_stacks im k s) = mem s"
  by (simp_all add: set_stacks_def)

lemma set_stacks_dom: "dom (tsss (set_stacks im k s)) = dom (tsss s)"
  unfolding dom_def set_stacks_tss by (rule Collect_cong) simp

section \<open>The invariant with an empty run queue\<close>

text \<open>
  A state in which no process exists: the queue and the tables are empty, every slot is free, and
  no task-state segment is linked to another.
\<close>

definition no_process :: "kstate \<Rightarrow> bool" where
  "no_process s \<longleftrightarrow>
     tsss s NULL = None \<and> idlestate s \<in> dom (tsss s) \<and> idlestate s \<notin> set (pproctab s) \<and>
     set (pproctab s) \<subseteq> dom (tsss s) \<and> (\<forall>t \<in> ran (tsss s). unlinked t) \<and>
     (\<forall>p \<in> set (pproctab s). fld tss_state s p = EMPTY) \<and>
     schedqueue s = \<lparr>sq_head = NULL, sq_ticksleft = 0, sq_schedticks = 0\<rparr> \<and>
     featureTable s = replicate 4 \<lparr>supplier = NULL, waiter = NULL\<rparr> \<and> irqs s = replicate 16 NULL"

lemma no_process_fld:
  assumes "no_process s" and "p \<in> dom (tsss s)"
  shows "fld tss_next s p = NULL" "fld tss_previous s p = NULL" "fld firstSender s p = NULL"
    "\<not> fld enqueued s p" "fld schedticks s p = 0" "length (fld procname s p) = 18"
proof -
  obtain t where t: "tsss s p = Some t" using assms(2) by blast
  then have "unlinked t" using assms(1) by (auto simp: no_process_def ran_def)
  then show "fld tss_next s p = NULL" "fld tss_previous s p = NULL" "fld firstSender s p = NULL"
    "\<not> fld enqueued s p" "fld schedticks s p = 0" "length (fld procname s p) = 18"
    by (simp_all add: fld_Some [OF t] unlinked_def enqueued_def)
qed

lemma no_process_kinv_g:
  assumes "no_process s"
  shows "kinv_g {} s [] (\<lambda>_. [])"
proof -
  note f = no_process_fld [OF assms]
  note a = assms [unfolded no_process_def]
  have tab: "p \<in> dom (tsss s)" if "p \<in> set (pproctab s)" for p using a that by blast
  have "links_ok s" by (simp add: links_ok_def link_ok_def f)
  moreover have "ticks_bounded s" by (simp add: ticks_bounded_def f(5) [OF tab])
  ultimately have "chain_inv s []" using a by (simp add: chain_inv_def falling_def)
  moreover have "flags_inv s []" by (simp add: flags_inv_def f)
  moreover have "chains_inv s (\<lambda>_. [])"
  proof (rule chains_invI)
    fix i assume "i \<in> chain_ids s"
    then have "chain_head s i = NULL"
      using a f(3) [OF tab] by (cases i) (auto simp: chain_head_def chain_ids_def)
    then show "slseg (fld nextSender s) (chain_head s i) [] NULL" by simp
  qed simp_all
  moreover have "tables_inv s" using a by (simp add: tables_inv_def)
  moreover have "states_inv {} s [] (\<lambda>_. [])" using a by (simp add: states_inv_def)
  ultimately show ?thesis by (simp add: kinv_g_def sched_inv_def)
qed

text \<open>The state \<open>start\<close> has reached when it creates the first process.\<close>

lemma loaded_no_process:
  assumes "image_ok im"
  shows "no_process (set_stacks im k (loaded im m))"
proof -
  let ?s = "set_stacks im k (loaded im m)"
  note l = loaded_tss [OF assms, of m]
  have dom: "dom (tsss ?s) = set (task_addresses im)" unfolding set_stacks_dom l(2) ..
  have ok: "distinct (task_addresses im)" "NULL \<notin> set (task_addresses im)"
    using assms by (simp_all add: image_ok_def)
  have "\<forall>t \<in> ran (tsss ?s). unlinked t"
  proof
    fix t assume "t \<in> ran (tsss ?s)"
    then obtain p where "tsss ?s p = Some t" by (auto simp: ran_def)
    then obtain u where u: "tsss (loaded im m) p = Some u" "t = u \<or> t = u\<lparr>esp_reg := k, ebp_reg := k\<rparr>"
      by (auto simp: set_stacks_tss split: if_splits)
    then have "unlinked u" using l(1) table_unlinked by blast
    then show "unlinked t" using u(2) by (auto simp: unlinked_def)
  qed
  moreover have "fld tss_state ?s p = EMPTY" if p: "p \<in> set (proctab im)" for p
  proof -
    have "p \<notin> set (im_intrrptstate im @ im_exceptnstate im @ [im_idlestate im])"
      using ok(1) p by (auto simp: task_addresses_def)
    then have "tsss ?s p = tsss (loaded im m) p" by (simp only: set_stacks_tss if_False)
    also have "\<dots> = Some free_tss" using l(1) proctab_entry [OF p] by blast
    finally show ?thesis by (simp add: fld_Some free_tss_def)
  qed
  moreover have "tsss ?s NULL = None" using dom ok(2) by auto
  moreover have "idlestate ?s = im_idlestate im" "pproctab ?s = proctab im"
    "schedqueue ?s = \<lparr>sq_head = NULL, sq_ticksleft = 0, sq_schedticks = 0\<rparr>"
    "featureTable ?s = replicate 4 \<lparr>supplier = NULL, waiter = NULL\<rparr>" "irqs ?s = replicate 16 NULL"
    by (simp_all add: set_stacks_other loaded_def)
  moreover have "im_idlestate im \<notin> set (proctab im)" using ok(1) by (simp add: task_addresses_def)
  moreover have "im_idlestate im \<in> dom (tsss ?s)" "set (proctab im) \<subseteq> dom (tsss ?s)"
    unfolding dom by (auto simp: task_addresses_def)
  ultimately show ?thesis unfolding no_process_def by simp
qed

lemma no_process_kdata: "kdata s' = kdata s \<Longrightarrow> no_process s' = no_process s"
  using kdataD [of s' s] by (simp add: no_process_def fld_def)

section \<open>Free descriptors\<close>

lemma free_low_mem: "mem s' = mem s \<Longrightarrow> gdtBitmap s' = gdtBitmap s \<Longrightarrow> free_low s' = free_low s"
  by (simp add: free_low_def)

lemma unfree_free_low:
  assumes "k < 2080"
  shows "free_low (unfree_gdt_idx (selector k) s) = free_low s - {k}"
proof -
  have "unat (selector k div 8) = k" using unfree_selector [of k] assms by simp
  then show ?thesis
    by (auto simp: free_low_def below_kernel_def unfree_gdt_idx_def bitmap_bit_unfree)
qed

lemma card_diff_Suc: "finite A \<Longrightarrow> card A \<le> Suc (card (A - {k}))"
  by (metis card_Diff1_le card_Suc_Diff1 diff_le_self insert_Diff_if le_SucI order_refl Diff_empty Diff_insert0)

text \<open>What an operation of the start may do to the descriptors: take \<open>n\<close> of them.\<close>

definition takes :: "nat \<Rightarrow> kstate \<Rightarrow> kstate \<Rightarrow> bool" where
  "takes n s s' \<longleftrightarrow> kdata s' = kdata s \<and> card (free_low s) \<le> card (free_low s') + n"

lemma takes_trans: "takes n s s1 \<Longrightarrow> takes k s1 s2 \<Longrightarrow> takes (n + k) s s2"
  by (auto simp: takes_def)

lemma takes_none: "kdata s' = kdata s \<Longrightarrow> mem s' = mem s \<Longrightarrow> takes 0 s s'"
  using free_low_mem [of s' s] kdataD(11) [of s' s] by (simp add: takes_def)

lemma takes_fold:
  assumes "\<And>x s. x \<in> set xs \<Longrightarrow> P (kdata s) \<Longrightarrow> takes n s (f x s)" and "P (kdata s)"
  shows "takes (length xs * n) s (fold f xs s)"
  using assms
proof (induction xs arbitrary: s)
  case (Cons x xs)
  have one: "takes n s (f x s)" using Cons.prems by simp
  then have "P (kdata (f x s))" using Cons.prems(2) by (simp add: takes_def)
  then have "takes (length xs * n) (f x s) (fold f xs (f x s))" using Cons.prems(1) by (intro Cons.IH) auto
  from takes_trans [OF one this] show ?case by simp
qed (simp add: takes_def)

text \<open>The bitmap of the process numbers lies beside that of the descriptors.\<close>

definition bitmaps_apart :: "kstate \<Rightarrow> bool" where
  "bitmaps_apart s \<longleftrightarrow> bitmap_fits s \<and> pidBitmap s \<le> 0xf0000000 \<and>
     (gdtBitmap s + 1024 \<le> pidBitmap s \<or> pidBitmap s + 1024 \<le> gdtBitmap s)"

lemma bitmaps_apart_kdata [simp]: "bitmaps_apart (kdata s) = bitmaps_apart s"
  by (simp add: bitmaps_apart_def bitmap_fits_def kdata_def)

lemma bitmap_offset: "b \<le> 0xf0000000 \<Longrightarrow> k \<le> 1024 \<Longrightarrow> unat (b + of_nat k :: u32) = unat b + k"
  by (simp add: unat_word_ariths word_le_nat_alt unat_of_nat take_bit_nat_eq_self)

lemma bitmap_bit_elsewhere:
  assumes "b \<le> 0xf0000000" and "c \<le> 0xf0000000" and "b + 1024 \<le> c \<or> c + 1024 \<le> b"
    and "unat what < 8192" and "n < 8192"
  shows "bitmap_bit (unfreeBitInBitfield b what m) c n = bitmap_bit m c n"
proof -
  have d: "unat what div 8 < 1024" "n div 8 < 1024" using assms(4,5) by (auto intro: less_mult_imp_div_less)
  have w: "what div 8 = of_nat (unat what div 8)" using word_unat_eq_iff [of "what div 8" "of_nat (unat what div 8)"] d(1)
    by (simp add: unat_div unat_of_nat take_bit_nat_eq_self)
  have "unat b + 1024 \<le> unat c \<or> unat c + 1024 \<le> unat b"
    using assms(3) bitmap_offset [OF assms(1), of 1024] bitmap_offset [OF assms(2), of 1024]
    by (simp add: word_le_nat_alt)
  then have "unat (b + of_nat (unat what div 8)) \<noteq> unat (c + of_nat (n div 8))"
    using bitmap_offset [OF assms(1), of "unat what div 8"] bitmap_offset [OF assms(2), of "n div 8"] d
    by linarith
  then have "KERNEL_BASE + (c + of_nat (n div 8)) \<noteq> KERNEL_BASE + (b + what div 8)"
    unfolding w by (simp only: add_left_cancel) metis
  then show ?thesis by (simp add: bitmap_bit_def unfreeBitInBitfield_def Let_def)
qed

lemma unfree_takes: "k < 2080 \<Longrightarrow> takes 1 s (unfree_gdt_idx (selector k) s)"
  using card_diff_Suc [OF finite_free_low, of s k] by (simp add: takes_def unfree_free_low)

lemma write_tss_takes:
  "k < 2080 \<Longrightarrow> bitmap_fits s \<Longrightarrow> takes 1 s (write_tss_desc (selector k) l b pr pv bu g s)"
  using card_free_low [OF tss_written, of s k] by (simp add: takes_def below_kernel_def)

lemma free_low_bits:
  "gdtBitmap s' = gdtBitmap s \<Longrightarrow> (\<And>n. n < 8192 \<Longrightarrow> used_bit s' n = used_bit s n) \<Longrightarrow>
    free_low s' = free_low s"
  by (auto simp: free_low_def below_kernel_def)

lemma unfree_pid_bits:
  assumes "bitmaps_apart s" and "unat p < 8192" and "n < 8192"
  shows "used_bit (unfree_pid p s) n = used_bit s n"
  using bitmap_bit_elsewhere [of "pidBitmap s" "gdtBitmap s" p n] assms
  by (auto simp: unfree_pid_def bitmaps_apart_def bitmap_fits_def)

lemma unfree_pid_takes:
  assumes "bitmaps_apart s" and "unat p < 8192"
  shows "takes 0 s (unfree_pid p s)"
  using free_low_bits [of "unfree_pid p s" s] unfree_pid_bits [OF assms]
  by (simp add: takes_def unfree_pid_def)

section \<open>Gates\<close>

definition gate_bytes :: "nat \<Rightarrow> u32 set" where
  "gate_bytes i = (\<lambda>k. of_nat (0x12700 + 8 * i + k)) ` {..<8}"

lemma hook_int_outside: "a \<notin> gate_bytes i \<Longrightarrow> hook_int (of_nat i) t s off m a = m a"
proof -
  assume a: "a \<notin> gate_bytes i"
  have "a \<noteq> IDT_BASE + of_nat i * 8 + of_nat k" if "k < 8" for k
  proof -
    have "(of_nat (0x12700 + 8 * i + k) :: u32) = IDT_BASE + of_nat i * 8 + of_nat k" by simp
    then show ?thesis using a that unfolding gate_bytes_def by (metis image_eqI lessThan_iff)
  qed
  from this [of 0] this [of 1] this [of 2] this [of 3] this [of 4] this [of 5] this [of 6] this [of 7]
  show ?thesis by (simp add: hook_int_def wr16_def Let_def add.assoc)
qed

lemma gate_bytes_range: "a \<in> gate_bytes i \<Longrightarrow> i < 256 \<Longrightarrow> unat a div 8 = 0x12700 div 8 + i"
  unfolding gate_bytes_def by (auto simp: unat_of_nat take_bit_nat_eq_self simp del: of_nat_add)

lemma hooks_outside:
  assumes "\<forall>(i, k) \<in> set gs. a \<notin> gate_bytes i"
  shows "fold (\<lambda>(i, k). hook_int (of_nat i) TSS (selector k) 0) gs m a = m a"
  using assms by (induction gs arbitrary: m) (auto simp: hook_int_outside)

lemma boot_gates_below: "(i, k) \<in> set boot_gates \<Longrightarrow> i < 256"
  by (auto simp: boot_gates_def exceptions_def dest!: set_zip_leftD)

lemma hook_tasks_outside:
  assumes "unat a < 0x12700 \<or> 0x12f00 \<le> unat a"
  shows "mem (hook_tasks s) a = mem s a"
proof -
  have "a \<notin> gate_bytes i" if "(i, k) \<in> set boot_gates" for i k
    using gate_bytes_range [of a i] boot_gates_below [OF that] assms by force
  then have "\<forall>(i, k) \<in> set boot_gates. a \<notin> gate_bytes i" by blast
  then show ?thesis by (simp add: hook_tasks_def hooks_outside)
qed

lemma hook_tasks_bits:
  assumes "bitmap_fits s" and n: "n < 8192"
  shows "used_bit (hook_tasks s) n = used_bit s n"
proof -
  have "n div 8 < 1024" using n by (intro less_mult_imp_div_less) simp
  then have "unat (KERNEL_BASE + (gdtBitmap s + of_nat (n div 8))) = 0x14800 + (unat (gdtBitmap s) + n div 8)"
    using assms bitmap_offset [of "gdtBitmap s" "n div 8"]
    by (simp add: bitmap_fits_def unat_word_ariths word_le_nat_alt)
  then have "mem (hook_tasks s) (KERNEL_BASE + (gdtBitmap s + of_nat (n div 8))) =
      mem s (KERNEL_BASE + (gdtBitmap s + of_nat (n div 8)))" by (intro hook_tasks_outside) simp
  then show ?thesis by (simp add: bitmap_bit_def hook_tasks_def)
qed

lemma hook_tasks_takes: "bitmap_fits s \<Longrightarrow> takes 0 s (hook_tasks s)"
  using free_low_bits [of "hook_tasks s" s] hook_tasks_bits [of s] by (simp add: takes_def hook_tasks_def)

section \<open>The tables are installed\<close>

lemma boot_tasks_below: "(k, a) \<in> set (boot_tasks im) \<Longrightarrow> 8 \<le> k \<and> k < 46"
  by (auto simp: boot_tasks_def exceptions_def dest!: set_zip_leftD)

lemma length_boot_tasks: "length (boot_tasks im) \<le> 37"
  by (simp add: boot_tasks_def exceptions_def)

lemma reserve_takes: "takes 8 s (reserve_descriptors s)"
proof -
  have "takes (length [0..<8] * 1) s (fold (\<lambda>k. unfree_gdt_idx (selector k)) [0..<8] s)"
    by (rule takes_fold [where P = "\<lambda>_. True"]) (use unfree_takes in simp_all)
  then show ?thesis by (simp add: reserve_descriptors_def)
qed

lemma takes_le: "takes n s s' \<Longrightarrow> n \<le> k \<Longrightarrow> takes k s s'"
  by (simp add: takes_def)

lemma write_tasks_takes:
  assumes "bitmap_fits s"
  shows "takes 37 s (write_tasks im s)"
proof -
  have "takes (length (boot_tasks im) * 1) s (write_tasks im s)"
    unfolding write_tasks_def
  proof (rule takes_fold [where P = bitmap_fits])
    fix x s assume x: "x \<in> set (boot_tasks im)" and "bitmap_fits (kdata s)"
    then have "bitmap_fits s" by (simp add: bitmap_fits_def kdata_def)
    then show "takes 1 s ((\<lambda>(k, a). write_tss_desc (selector k) 104 (a + KERNEL_BASE) 1 0 0 0) x s)"
      using x boot_tasks_below by (cases x) (fastforce intro: write_tss_takes)
  qed (use assms in \<open>simp add: bitmap_fits_def kdata_def\<close>)
  then show ?thesis using length_boot_tasks takes_le by simp
qed

lemma boot_pids_below: "p \<in> set boot_pids \<Longrightarrow> p < 8192"
  by (auto simp: boot_pids_def exceptions_def)

lemma take_pids_takes:
  assumes "bitmaps_apart s"
  shows "takes 0 s (take_pids s)"
proof -
  have "takes (length boot_pids * 0) s (take_pids s)"
    unfolding take_pids_def
  proof (rule takes_fold [where P = bitmaps_apart])
    fix p s assume "p \<in> set boot_pids" and "bitmaps_apart (kdata s)"
    then show "takes 0 s (unfree_pid (of_nat p) s)"
      using boot_pids_below [of p] by (intro unfree_pid_takes) (simp_all add: unat_of_nat take_bit_nat_eq_self)
  qed (use assms in simp)
  then show ?thesis by simp
qed

lemma outs_mem [simp]: "mem (outs xs s) = mem s" "mem (outb p v s) = mem s"
  unfolding outs_def by (rule fold_keeps) (simp_all add: outb_def split: prod.splits)

lemma install_takes:
  assumes "bitmaps_apart s"
  shows "takes 45 s (install_tables im s)"
proof -
  define s1 where "s1 = init_port_accessers s"
  define s2 where "s2 = reserve_descriptors s1"
  define s3 where "s3 = write_tasks im s2"
  define s4 where "s4 = remap_pics 0x20 0x28 (take_pids s3)"
  define s5 where "s5 = hook_tasks s4"
  have "mem s1 = mem s" by (simp add: s1_def init_port_accessers_def)
  then have "takes 0 s s1" by (intro takes_none) (simp_all add: s1_def)
  moreover have "takes 8 s1 s2" unfolding s2_def by (rule reserve_takes)
  moreover have a: "bitmaps_apart s2" "bitmaps_apart s3"
    using assms bitmaps_apart_kdata [of s] bitmaps_apart_kdata [of s2] bitmaps_apart_kdata [of s3]
    by (simp_all add: s1_def s2_def s3_def del: bitmaps_apart_kdata)
  then have "takes 37 s2 s3" unfolding s3_def by (intro write_tasks_takes) (simp add: bitmaps_apart_def)
  moreover have "takes 0 s3 (take_pids s3)" by (rule take_pids_takes [OF a(2)])
  moreover have "takes 0 (take_pids s3) s4" by (intro takes_none) (simp_all add: s4_def remap_pics_def)
  moreover have "bitmaps_apart s4"
    using a(2) bitmaps_apart_kdata [of s3] bitmaps_apart_kdata [of s4]
    by (simp add: s4_def remap_pics_def del: bitmaps_apart_kdata)
  then have "takes 0 s4 s5" unfolding s5_def by (intro hook_tasks_takes) (simp add: bitmaps_apart_def)
  moreover have "takes 0 s5 (install_tables im s)"
    by (rule takes_none)
      (simp_all add: s5_def s4_def s3_def s2_def s1_def install_tables_def init_clock_def Let_def)
  ultimately have "takes (0 + 8 + 37 + 0 + 0 + 0 + 0) s (install_tables im s)"
    by (intro takes_trans) 
  then show ?thesis by simp
qed

section \<open>Programs\<close>

text \<open>
  The process \<open>p\<close> runs the program \<open>name\<close>: its six segments are descriptors in use that describe
  the areas, it begins at offset 0 and its stack at the end of its area.
\<close>

definition in_use :: "kstate \<Rightarrow> area \<Rightarrow> u32 \<Rightarrow> bool" where
  "in_use s a i \<longleftrightarrow> segment_granted (mem s) a i \<and> (\<exists>k. i = selector k \<and> below_kernel k \<and> used_bit s k)"

definition program_at :: "kstate \<Rightarrow> ptr \<Rightarrow> u8 list \<Rightarrow> area \<Rightarrow> area \<Rightarrow> bool" where
  "program_at s p name a gs \<longleftrightarrow> (\<exists>is. list_all2 (in_use s) [a, a, a, a, gs, a] is \<and>
     map (\<lambda>i. ucast (i + 3)) is = map (\<lambda>f. fld f s p) [cs_reg, ds_reg, es_reg, fs_reg, gs_reg, ss_reg]) \<and>
     fld eip_reg s p = 0 \<and> fld esp_reg s p = snd a \<and> cstr (fld procname s p) = name"

lemma in_use_kept: "in_use s a i \<Longrightarrow> descriptors_kept s s' \<Longrightarrow> in_use s' a i"
  unfolding in_use_def using kept_granted [of s s'] by (metis descriptors_kept_def)

lemma program_at_kept:
  assumes "program_at s p name a gs" and "descriptors_kept s s'"
    and "map_option core (tsss s' p) = map_option core (tsss s p)"
  shows "program_at s' p name a gs"
proof -
  have f: "fld f s' p = fld f s p" if "\<And>t. f (core t) = f t" for f :: "tss \<Rightarrow> 'b"
    by (rule fld_via [OF assms(3), of f f]) (simp add: that)
  have u: "list_all2 (in_use s) as is \<Longrightarrow> list_all2 (in_use s') as is" for "as" "is"
    by (erule list_all2_mono) (rule in_use_kept [OF _ assms(2)])
  have "fld cs_reg s' p = fld cs_reg s p" "fld ds_reg s' p = fld ds_reg s p" "fld es_reg s' p = fld es_reg s p"
    "fld fs_reg s' p = fld fs_reg s p" "fld gs_reg s' p = fld gs_reg s p" "fld ss_reg s' p = fld ss_reg s p"
    "fld eip_reg s' p = fld eip_reg s p" "fld esp_reg s' p = fld esp_reg s p"
    "fld procname s' p = fld procname s p"
    by (rule f, simp add: core_def)+
  moreover obtain "is" where "list_all2 (in_use s) [a, a, a, a, gs, a] is" "map (\<lambda>i. ucast (i + 3)) is =
      map (\<lambda>f. fld f s p) [cs_reg, ds_reg, es_reg, fs_reg, gs_reg, ss_reg]"
    using assms(1) unfolding program_at_def by blast
  ultimately show ?thesis
    using assms(1) u [of "[a, a, a, a, gs, a]" "is"] unfolding program_at_def by (intro conjI exI [of _ "is"]) simp_all
qed

lemma create_process_room:
  assumes tab: "set (pproctab s) \<subseteq> dom (tsss s)" "NULL \<notin> set (pproctab s)" and names: "names_fit s"
    and name: "is_cstr name" and fits: "bitmap_fits s" and room: "7 \<le> card (free_low s)"
    and areas: "\<forall>a \<in> {cs, ds, es, fs, gs, ss}. fst a = NO_BASE \<or> area_fits a"
    and c: "create_process stk pv ticks ent cs ds es fs gs ss name s = Some (r, s')" and r: "r \<noteq> NULL"
  shows "card (free_low s) \<le> card (free_low s') + 7"
proof -
  from create_process_cases [OF tab(1) names name, of stk pv ticks ent cs ds es fs gs ss] c r
  obtain "is" s1 s2 m where d: "open_segments pv (segment_requests cs ds es fs gs ss) s = (True, is, s1)"
      "descriptor_written (get_free_gdt_idx s1) s1 s2" "s' = s2\<lparr>tsss := m\<rparr>" by auto
  have ar: "fst a = NO_BASE \<or> area_fits a" if "(a, x) \<in> set (segment_requests cs ds es fs gs ss)" for a x
    using areas that by (fastforce simp: segment_requests_def)
  have len: "length (segment_requests cs ds es fs gs ss) = 6" by (simp add: segment_requests_def)
  have sp: "card (free_low s) \<le> card (free_low s1) + 6"
    using open_segments_spec [OF d(1) fits _ ar] room by (simp add: len)
  then have "card (free_low s1) \<noteq> 0" using room by linarith
  then have "free_low s1 \<noteq> {}" by (metis card.empty)
  from get_free_low [OF this] obtain n where n: "get_free_gdt_idx s1 = selector n" "below_kernel n" by metis
  have "bitmap_fits s1" using fits memory_only_sel(3) [OF open_segments_memory_only [OF d(1)]] by simp
  from card_free_low [OF d(2) [unfolded n(1)] this n(2)]
  have "card (free_low s1) \<le> Suc (card (free_low s2))" .
  moreover have "free_low s' = free_low s2" using d(3) by (intro free_low_mem) simp_all
  ultimately show ?thesis using sp by simp
qed

section \<open>Process creation leaves the gates alone\<close>

definition idt_kept :: "kstate \<Rightarrow> kstate \<Rightarrow> bool" where
  "idt_kept s s' \<longleftrightarrow> (\<forall>a. 0x12700 \<le> unat a \<and> unat a < 0x14700 \<longrightarrow> mem s' a = mem s a)"

lemma idt_kept_trans: "idt_kept a b \<Longrightarrow> idt_kept b c \<Longrightarrow> idt_kept a c"
  by (simp add: idt_kept_def)

lemma idt_kept_same: "mem s' = mem s \<Longrightarrow> idt_kept s s'"
  by (simp add: idt_kept_def)

lemma written_idt:
  assumes "descriptor_written (selector n) s s'" and "bitmap_fits s" and "n < 1024"
  shows "idt_kept s s'"
  unfolding idt_kept_def
proof (intro allI impI)
  fix a :: u32
  assume a: "0x12700 \<le> unat a \<and> unat a < 0x14700"
  obtain l b p q where s': "s' = unfree_gdt_idx (selector n)
      ((grow_gdt (selector n) s)\<lparr>mem := put_descriptor (selector n) l b p q (mem s)\<rparr>)"
    using assms(1) by (auto simp: descriptor_written_def)
  let ?g = "(grow_gdt (selector n) s)\<lparr>mem := put_descriptor (selector n) l b p q (mem s)\<rparr>"
  have "bitmap_byte ?g (selector n) = bitmap_byte s (selector n)" by (simp add: bitmap_byte_def grow_gdt_def)
  moreover have "0x14800 \<le> unat (bitmap_byte s (selector n))"
    using bitmap_byte_address [OF assms(2)] assms(3) by simp
  ultimately have "a \<noteq> bitmap_byte ?g (selector n)" using a by auto
  then have "mem s' a = put_descriptor (selector n) l b p q (mem s) a"
    unfolding s' by (subst unfree_other) simp_all
  moreover have "a \<notin> descriptor_bytes (selector n)"
  proof
    assume "a \<in> descriptor_bytes (selector n)"
    then have "unat a div 8 = 0x10700 div 8 + n" using descriptor_address assms(3) by simp
    moreover have "0x12700 div 8 \<le> unat a div 8" using a by (intro div_le_mono) simp
    ultimately show False using assms(3) by simp
  qed
  ultimately show "mem s' a = mem s a" using put_descriptor_outside by simp
qed

text \<open>The lowest free descriptor has a small number when many are free.\<close>

lemma get_free_small:
  assumes "1056 < card (free_low s)"
  obtains n where "get_free_gdt_idx s = selector n" "n < 1024"
proof -
  let ?r = "getFreeBitInBitfield (mem s) (gdtBitmap s) 8192"
  note spec = getFreeBit_spec [where m = "mem s" and bf = "gdtBitmap s" and bits = 8192]
  have "free_low s \<subseteq> {unat ?r..<2080}"
    using spec(2) by (force simp: free_low_def below_kernel_def not_less [symmetric])
  then have "card (free_low s) \<le> card {unat ?r..<2080}" by (intro card_mono) simp_all
  then have "unat ?r < 1024" using assms by simp
  moreover have "get_free_gdt_idx s = selector (unat ?r)" by (simp add: get_free_gdt_idx_def selector_def)
  ultimately show ?thesis using that by blast
qed

lemma open_segment_idt:
  assumes "open_segment pv a ty video s = (ok, i, s')" and "bitmap_fits s" and "1056 < card (free_low s)"
  shows "idt_kept s s' \<and> card (free_low s) \<le> Suc (card (free_low s'))"
proof -
  obtain n where n: "get_free_gdt_idx s = selector n" "n < 1024" using get_free_small [OF assms(3)] .
  have "s' = s \<or> descriptor_written (selector n) s s'"
    using assms(1) segment_written by (cases a) (auto simp: Let_def n(1) split: if_splits)
  then show ?thesis
  proof
    assume w: "descriptor_written (selector n) s s'"
    have "below_kernel n" using n(2) by (simp add: below_kernel_def)
    from written_idt [OF w assms(2) n(2)] card_free_low [OF w assms(2) this] show ?thesis ..
  qed (simp add: idt_kept_same)
qed

lemma open_segments_idt:
  assumes "open_segments pv rs s = (ok, is, s')" and "bitmap_fits s" and "1056 + length rs < card (free_low s)"
  shows "idt_kept s s' \<and> card (free_low s) \<le> card (free_low s') + length rs"
  using assms
proof (induction rs arbitrary: s ok "is")
  case (Cons r rs)
  obtain a ty video where r: "r = (a, ty, video)" by (metis prod_cases3)
  obtain ok1 i s1 where one: "open_segment pv a ty video s = (ok1, i, s1)" by (metis prod_cases3)
  have o: "idt_kept s s1" "card (free_low s) \<le> Suc (card (free_low s1))"
    using open_segment_idt [OF one Cons.prems(2)] Cons.prems(3) by simp_all
  show ?case
  proof (cases ok1)
    case True
    obtain ok2 js s2 where two: "open_segments pv rs s1 = (ok2, js, s2)" by (metis prod_cases3)
    have "s' = s2" using Cons.prems(1) one two True by (simp add: r)
    moreover have "bitmap_fits s1"
      using memory_only_sel(3) [OF open_segment_memory_only [OF one]] Cons.prems(2) by simp
    ultimately have "idt_kept s1 s' \<and> card (free_low s1) \<le> card (free_low s') + length rs"
      using Cons.prems(3) o(2) two by (intro Cons.IH) simp_all
    then show ?thesis using idt_kept_trans [OF o(1)] o(2) by simp
  next
    case False
    then show ?thesis using Cons.prems(1) one o by (simp add: r)
  qed
qed (simp add: idt_kept_same)

lemma create_process_idt:
  assumes tab: "set (pproctab s) \<subseteq> dom (tsss s)" "NULL \<notin> set (pproctab s)" and names: "names_fit s"
    and name: "is_cstr name" and fits: "bitmap_fits s" and room: "1063 \<le> card (free_low s)"
    and c: "create_process stk pv ticks ent cs ds es fs gs ss name s = Some (r, s')" and r: "r \<noteq> NULL"
  shows "idt_kept s s'"
proof -
  from create_process_cases [OF tab(1) names name, of stk pv ticks ent cs ds es fs gs ss] c r
  obtain "is" s1 s2 m where d: "open_segments pv (segment_requests cs ds es fs gs ss) s = (True, is, s1)"
      "descriptor_written (get_free_gdt_idx s1) s1 s2" "s' = s2\<lparr>tsss := m\<rparr>" by auto
  have len: "length (segment_requests cs ds es fs gs ss) = 6" by (simp add: segment_requests_def)
  have o: "idt_kept s s1" "card (free_low s) \<le> card (free_low s1) + 6"
    using open_segments_idt [OF d(1) fits] room by (simp_all add: len)
  then have "1056 < card (free_low s1)" using room by linarith
  from get_free_small [OF this] obtain n where n: "get_free_gdt_idx s1 = selector n" "n < 1024" .
  have "bitmap_fits s1" using fits memory_only_sel(3) [OF open_segments_memory_only [OF d(1)]] by simp
  from written_idt [OF d(2) [unfolded n(1)] this n(2)] have "idt_kept s1 s'" using d(3) by (simp add: idt_kept_def)
  then show ?thesis using idt_kept_trans o(1) by blast
qed

section \<open>The three processes\<close>

text \<open>What the interrupt controllers and the clock are told, in this order.\<close>

definition startup_outputs :: "io_event list" where
  "startup_outputs = [OutB 0x20 0x11, OutB 0xa0 0x11, OutB 0x21 0x20, OutB 0xa1 0x28, OutB 0x21 4, OutB 0xa1 2,
     OutB 0x21 1, OutB 0xa1 1, OutB 0x21 0xff, OutB 0xa1 0xff, OutB 0x21 0xfc, OutB 0x43 0x34,
     OutB 0x40 0xa7, OutB 0x40 0x91]"

text \<open>
  \<open>n\<close> more processes can be created; those that exist have one tick each and are queued.  With more
  than 1056 of 2080 descriptors free, the lowest free one has a number below 1024.
\<close>

definition starting :: "nat \<Rightarrow> kstate \<Rightarrow> ptr list \<Rightarrow> bool" where
  "starting n s qs \<longleftrightarrow> kinv_g {} s qs (\<lambda>_. []) \<and> curptr s = NULL \<and> nextptr s = NULL \<and> names_fit s \<and>
     bitmap_fits s \<and> 1056 + 7 * n \<le> card (free_low s) \<and>
     n \<le> card {p \<in> set (pproctab s). fld tss_state s p = EMPTY} \<and>
     (\<forall>p \<in> set (pproctab s). fld schedticks s p \<le> 1) \<and> length (pproctab s) \<le> 100 \<and>
     pproctab_end s \<notin> set (pproctab s) \<and> irqs s = replicate 16 NULL \<and> io_trace s = startup_outputs"

lemma starting_room:
  assumes "starting n s qs"
  shows "ticks_room s 1"
proof -
  let ?P = "set (pproctab s)"
  have "(\<Sum>p \<in> ?P. unat (fld schedticks s p)) \<le> (\<Sum>p \<in> ?P. 1)"
    by (rule sum_mono) (use assms in \<open>auto simp: starting_def word_le_nat_alt\<close>)
  also have "\<dots> = card ?P" by simp
  also have "\<dots> \<le> 100" using assms card_length [of "pproctab s"] by (simp add: starting_def)
  finally show ?thesis by (simp add: ticks_room_def)
qed

lemma core_eq_fld:
  assumes "score s' = score s" and "\<And>t. f (core t) = f t"
  shows "fld f s' = fld f s"
proof
  fix p
  have "map_option core (tsss s' p) = map_option core (tsss s p)"
    using arg_cong [OF assms(1), of "\<lambda>s. tsss s p"] by (simp add: score_def)
  then show "fld f s' p = fld f s p" by (rule fld_via [of _ _ _ _ f f]) (simp add: assms(2))
qed

lemma in_use_opened:
  assumes "list_all2 (\<lambda>(a, _) i. segment_granted (mem s') a i \<and>
     (fst a \<noteq> NO_BASE \<longrightarrow> (\<exists>n. i = selector n \<and> below_kernel n \<and> \<not> used_bit s n \<and> used_bit s' n))) rs is"
    and "\<And>a x. (a, x) \<in> set rs \<Longrightarrow> fst a \<noteq> NO_BASE"
  shows "list_all2 (in_use s') (map fst rs) is"
  using assms
proof (induction rs "is" rule: list_all2_induct)
  case (Cons r rs i "is")
  have "fst (fst r) \<noteq> NO_BASE" using Cons.prems [of "fst r" "snd r"] by simp
  then show ?case using Cons by (cases r) (auto simp: in_use_def)
qed simp

lemma start_process_creates:
  assumes st: "starting (Suc n) s qs" and name: "is_cstr name"
    and a: "area_ok (base, sz) False" "area_ok gs True" "base \<noteq> NO_BASE" "fst gs \<noteq> NO_BASE"
  obtains p s1 where "create_process stk 3 1 0 (base, sz) (base, sz) (base, sz) (base, sz) gs (base, sz) name s = Some (p, s1)"
    "p \<in> set (pproctab s)" "fld tss_state s p = EMPTY" "fld tss_state s1 p = 0" "fld schedticks s1 p = 1"
    "\<And>q. q \<noteq> p \<Longrightarrow> tsss s1 q = tsss s q" "length (fld procname s1 p) = 18"
    "kinv_g {} s1 qs (\<lambda>_. [])" "static s1 = static s" "curptr s1 = NULL" "nextptr s1 = NULL"
    "card (free_low s) \<le> card (free_low s1) + 7" "descriptors_kept s s1"
    "program_at s1 p (take 17 (cstr name)) (base, sz) gs" "gdtBitmap s1 = gdtBitmap s" "pproctab_end s1 = pproctab_end s" "irqs s1 = irqs s" "io_trace s1 = io_trace s" "idt_kept s s1"
proof -
  let ?a = "(base, sz)"
  have i: "kinv_g {} s qs (\<lambda>_. [])" "curptr s = NULL" "nextptr s = NULL" "names_fit s" "bitmap_fits s"
      "7 \<le> card (free_low s)" "pproctab_end s \<notin> set (pproctab s)"
    using st by (simp_all add: starting_def)
  have tab: "set (pproctab s) \<subseteq> dom (tsss s)" "NULL \<notin> set (pproctab s)"
    using kinv_g_proc [OF i(1)] by auto
  have "0 < card {p \<in> set (pproctab s). fld tss_state s p = EMPTY}" using st by (simp add: starting_def)
  then have "{p \<in> set (pproctab s). fld tss_state s p = EMPTY} \<noteq> {}" by (metis card.empty less_irrefl)
  then have slot: "\<exists>p \<in> set (pproctab s). fld tss_state s p = EMPTY" by blast
  have areas: "\<forall>b \<in> {?a, ?a, ?a, ?a, ?a}. area_ok b False" using a(1) by simp
  have fit: "\<forall>b \<in> {?a, ?a, ?a, ?a, gs, ?a}. fst b = NO_BASE \<or> area_fits b"
    using a by (auto simp: area_ok_def)
  obtain p s1 where c: "create_process stk 3 1 0 ?a ?a ?a ?a gs ?a name s = Some (p, s1)" "p \<noteq> NULL"
    using create_process_succeeds [OF tab i(7) slot i(4) name i(5,6) areas a(2)] by blast
  have k: "static s1 = static s" "curptr s1 = curptr s" "nextptr s1 = nextptr s"
      "p \<in> set (pproctab s)" "fld tss_state s p = EMPTY" "fld tss_state s1 p = 0" "fld schedticks s1 p = 1"
      "\<And>q. q \<noteq> p \<Longrightarrow> tsss s1 q = tsss s q" "kinv_g {} s1 qs (\<lambda>_. [])"
    using create_process_kinv_g [OF i(1,4) name _ starting_room [OF st], of stk 3 0 ?a ?a ?a ?a gs ?a] c
    by (auto simp: fun_upd_idem)
  obtain "is" where o: "opened s (segment_requests ?a ?a ?a ?a gs ?a) is s1" "descriptors_kept s s1"
      "created s s1 p 3 1 0 sz is name"
    using create_process_segments [OF tab i(4) name i(5,6) fit c] by auto
  have nb: "\<And>b x. (b, x) \<in> set (segment_requests ?a ?a ?a ?a gs ?a) \<Longrightarrow> fst b \<noteq> NO_BASE"
    using a(3,4) by (auto simp: segment_requests_def)
  have u: "list_all2 (in_use s1) [?a, ?a, ?a, ?a, gs, ?a] is"
    using in_use_opened [OF o(1) [unfolded opened_def] nb] by (simp add: segment_requests_def)
  then have "length is = 6" by (auto dest: list_all2_lengthD)
  then obtain i0 i1 i2 i3 i4 i5 where six: "is = [i0, i1, i2, i3, i4, i5]"
    by (auto simp: Suc_length_conv length_Suc_conv numeral_eq_Suc)
  obtain t j nm where t: "tsss s p = Some t" "tsss s1 p = Some (process_tss j 3 1 0 sz is nm t)"
      "length nm = length (procname t)" "cstr nm = take 17 (cstr name)"
    using o(3) by (auto simp: created_def)
  have "program_at s1 p (take 17 (cstr name)) ?a gs"
    unfolding program_at_def
    by (intro conjI exI [of _ "is"] u) (simp_all add: fld_Some [OF t(2)] process_tss_def six t(4))
  moreover have "length (fld procname s1 p) = 18"
    using i(4) k(4) t(3) by (simp add: fld_Some [OF t(2)] process_tss_def names_fit_def fld_Some [OF t(1)])
      (metis fld_Some t(1))
  moreover have "gdtBitmap s1 = gdtBitmap s" "pproctab_end s1 = pproctab_end s" "irqs s1 = irqs s"
      "io_trace s1 = io_trace s"
  proof -
    from create_process_cases [OF tab(1) i(4) name, of stk 3 1 0 ?a ?a ?a ?a gs ?a] c
    obtain is' s2 s3 m where d: "open_segments 3 (segment_requests ?a ?a ?a ?a gs ?a) s = (True, is', s2)"
        "descriptor_written (get_free_gdt_idx s2) s2 s3" "s1 = s3\<lparr>tsss := m\<rparr>" by auto
    have "memory_only s s3"
      using memory_only_trans [OF open_segments_memory_only [OF d(1)] written_memory_only [OF d(2)]] .
    then show "gdtBitmap s1 = gdtBitmap s" "pproctab_end s1 = pproctab_end s" "irqs s1 = irqs s"
        "io_trace s1 = io_trace s"
      using d(3) by (auto simp: memory_only_def)
  qed
  moreover have "1063 \<le> card (free_low s)" using st by (simp add: starting_def)
  then have "idt_kept s s1" by (rule create_process_idt [OF tab i(4) name i(5) _ c])
  ultimately show ?thesis
    using that [OF c(1) k(4-8) _ k(9,1)] k(2,3) i(2,3) o(2)
      create_process_room [OF tab i(4) name i(5,6) fit c] by simp
qed

lemma kputs_keeps [simp]:
  "tsss (kputs ks s) = tsss s" "schedqueue (kputs ks s) = schedqueue s" "curptr (kputs ks s) = curptr s"
  "nextptr (kputs ks s) = nextptr s" "pproctab (kputs ks s) = pproctab s" "mem (kputs ks s) = mem s"
  "pproctab_end (kputs ks s) = pproctab_end s" "gdtBitmap (kputs ks s) = gdtBitmap s"
  "idlestate (kputs ks s) = idlestate s" "intrrptstate (kputs ks s) = intrrptstate s"
  "irqs (kputs ks s) = irqs s" "io_trace (kputs ks s) = io_trace s" "static (kputs ks s) = static s" "free_low (kputs ks s) = free_low s" "fld f (kputs ks s) = fld f s"
  "names_fit (kputs ks s) = names_fit s" "bitmap_fits (kputs ks s) = bitmap_fits s"
  by (simp_all add: kputs_def static_def free_low_def fld_def names_fit_def bitmap_fits_def)

lemma kputs_kinv_g [simp]: "kinv_g X (kputs ks s) qs L = kinv_g X s qs L"
  by (rule kdata_kinv_g) simp

lemma kputs_kept [simp]:
  "descriptors_kept (kputs ks s) s' = descriptors_kept s s'" "descriptors_kept s (kputs ks s') = descriptors_kept s s'"
  "idt_kept (kputs ks s) s' = idt_kept s s'"
  by (simp_all add: descriptors_kept_def idt_kept_def)

lemma starting_kputs [simp]: "starting n (kputs ks s) qs = starting n s qs"
  by (simp add: starting_def)

text \<open>One program: it becomes a process, the process is put into the run queue.\<close>

lemma start_process_starting:
  assumes st: "starting (Suc n) s qs" and name: "is_cstr name"
    and a: "area_ok (base, sz) False" "area_ok gs True" "base \<noteq> NO_BASE" "fst gs \<noteq> NO_BASE"
  shows "\<exists>s' qs' p. start_process stk what base sz gs name s = Some s' \<and> starting n s' qs' \<and>
    set qs' = insert p (set qs) \<and> p \<notin> set qs \<and> static s' = static s \<and> descriptors_kept s s' \<and> idt_kept s s' \<and>
    program_at s' p (take 17 (cstr name)) (base, sz) gs \<and>
    (\<forall>q. q \<noteq> p \<longrightarrow> map_option core (tsss s' q) = map_option core (tsss s q))"
proof -
  let ?k = "kputs [KString (''Creating '' @ what @ '' process at address: ''), KHex base, KString '' ... '', KChar 10]"
  let ?l = "kputs [KString (''Adding '' @ what @ '' process to the run queue ...''), KChar 10]"
  have st': "starting (Suc n) (?k s) qs" using st by simp
  obtain p s1 where c: "create_process stk 3 1 0 (base, sz) (base, sz) (base, sz) (base, sz) gs (base, sz) name (?k s) = Some (p, s1)"
    "p \<in> set (pproctab s)" "fld tss_state s p = EMPTY" "fld tss_state s1 p = 0" "fld schedticks s1 p = 1"
    "\<And>q. q \<noteq> p \<Longrightarrow> tsss s1 q = tsss s q" "length (fld procname s1 p) = 18"
    "kinv_g {} s1 qs (\<lambda>_. [])" "static s1 = static s" "curptr s1 = NULL" "nextptr s1 = NULL"
    "card (free_low s) \<le> card (free_low s1) + 7" "descriptors_kept s s1"
    "program_at s1 p (take 17 (cstr name)) (base, sz) gs" "gdtBitmap s1 = gdtBitmap s"
    "pproctab_end s1 = pproctab_end s" "irqs s1 = irqs s" "io_trace s1 = io_trace s" "idt_kept s s1"
    by (rule start_process_creates [OF st' name a, of stk, unfolded kputs_keeps kputs_kept]) (rule that)
  have tab: "pproctab s1 = pproctab s" using staticD(1) [OF c(9)] .
  have p1: "p \<in> set (pproctab (?l s1))" "0 < fld schedticks (?l s1) p" "kinv_g {} (?l s1) qs (\<lambda>_. [])"
    using c(2,5,8) tab by simp_all
  obtain s2 qs' where e: "enqueue p (?l s1) = Some s2" "kinv_g {} s2 qs' (\<lambda>_. [])" "set qs' = insert p (set qs)"
      "score s2 = score (?l s1)" "curptr s2 = NULL" "nextptr s2 = NULL"
    using enqueue_kinv_g [OF p1(3,1,2)] c(4,10,11) by auto
  have sc: "score s2 = score (?l s1)" using e(4) .
  note cf = core_eq_fld [OF sc]
  have f: "fld tss_state s2 = fld tss_state s1" "fld schedticks s2 = fld schedticks s1"
      "fld procname s2 = fld procname s1"
    using cf [of tss_state] cf [of schedticks] cf [of procname] by (simp_all add: core_def)
  have d: "mem s2 = mem s1" "gdtBitmap s2 = gdtBitmap s" "pproctab_end s2 = pproctab_end s"
      "pproctab s2 = pproctab s" "irqs s2 = irqs s" "io_trace s2 = io_trace s"
    using score_eqD(5,15,17,11,3,7) [OF sc] c(15-18) tab by simp_all
  have core: "map_option core (tsss s2 q) = map_option core (tsss s1 q)" for q
    using arg_cong [OF sc, of "\<lambda>s. tsss s q"] by (simp add: score_def)
  have fl: "free_low s2 = free_low s1" using d c(15) by (intro free_low_mem) simp_all
  have same: "fld h s1 q = fld h s q" if "q \<noteq> p" for q and h :: "tss \<Rightarrow> 'x" using c(6) [OF that] by (simp add: fld_def)
  have "starting n s2 qs'"
  proof -
    let ?E = "\<lambda>s. {q \<in> set (pproctab s). fld tss_state s q = EMPTY}"
    have "?E s - {p} \<subseteq> ?E s2" by (auto simp: same f(1) d(4))
    then have "card (?E s - {p}) \<le> card (?E s2)" by (intro card_mono) simp_all
    moreover have "card (?E s) \<le> Suc (card (?E s - {p}))" by (rule card_diff_Suc) simp
    moreover have "names_fit s2"
      unfolding names_fit_def f d(4)
    proof
      fix q assume "q \<in> set (pproctab s)"
      then show "length (fld procname s1 q) = 18"
        using st c(7) same [of q procname] by (cases "q = p") (simp_all add: starting_def names_fit_def)
    qed
    moreover have "fld schedticks s2 q \<le> 1" if "q \<in> set (pproctab s)" for q
      using st c(5) same [of q schedticks] that f(2) by (cases "q = p") (simp_all add: starting_def)
    ultimately show ?thesis
      using st e c(12) d fl unfolding starting_def bitmap_fits_def by auto
  qed
  moreover have "p \<notin> set qs"
    using kinv_g_state [of "{}" s qs "\<lambda>_. []" p] st c(2,3) by (auto simp: starting_def EMPTY_def)
  moreover have "static s2 = static s" using static_score [OF sc] c(9) by simp
  moreover have kept: "descriptors_kept s1 s2" using d c(15) by (simp add: descriptors_kept_def)
  moreover have "idt_kept s s2" using idt_kept_trans [OF c(19) idt_kept_same [OF d(1)]] .
  moreover have "program_at s2 p (take 17 (cstr name)) (base, sz) gs"
    by (rule program_at_kept [OF c(14) kept core])
  moreover have "start_process stk what base sz gs name s = Some s2"
    using c(1) e(1) by (simp add: start_process_def)
  ultimately show ?thesis
    using e(3) descriptors_kept_trans [OF c(13)] core c(6) by metis
qed

section \<open>The whole start\<close>

definition program_fits :: "area \<Rightarrow> bool" where
  "program_fits a \<longleftrightarrow> area_ok a False \<and> fst a \<noteq> NO_BASE"

text \<open>
  What \<open>start\<close> finds at \<open>pass\<close> and in the image: a free bitmap of descriptors, a region of usable
  memory, and programs whose areas lie below the reserved memory.
\<close>

definition boot_areas :: "image \<Rightarrow> memory \<Rightarrow> u32 \<Rightarrow> area list" where
  "boot_areas im m pass =
     (let tty = rd32 m (pass + 8) + KERNEL_BASE; shell = tty + im_video_size im
      in [(tty, im_video_size im), (shell, im_shell_size im), (shell + im_shell_size im, im_hd_size im)])"

definition handed_over :: "image \<Rightarrow> memory \<Rightarrow> u32 \<Rightarrow> bool" where
  "handed_over im m pass \<longleftrightarrow> (\<forall>k < 8192. \<not> bitmap_bit m (im_gdtBitmap im) k) \<and>
     (\<exists>k < unat (min (rd32 m (pass + 12)) 10). snd (snd (memory_region m (pass + 16) k)) = 1) \<and>
     (\<forall>a \<in> set (boot_areas im m pass). program_fits a)"

lemma do_mem_ram:
  assumes "\<exists>k < unat (min (rd32 (mem s) pass) 10). snd (snd (memory_region (mem s) (pass + 4) k)) = 1"
  shows "\<exists>s'. do_mem pass s = (True, s') \<and> mem s' = mem s \<and> io_trace s' = io_trace s"
proof -
  let ?rs = "map (memory_region (mem s) (pass + 4)) [0..<unat (min (rd32 (mem s) pass) 10)]"
  obtain k where k: "k < unat (min (rd32 (mem s) pass) 10)" "snd (snd (memory_region (mem s) (pass + 4) k)) = 1"
    using assms by blast
  moreover have "memory_region (mem s) (pass + 4) k \<in> set ?rs" using k(1) by force
  ultimately have "find (\<lambda>(b, l, t). t = 1) ?rs \<noteq> None"
    unfolding find_None_iff by (metis (mono_tags, lifting) case_prod_unfold)
  then obtain b l t where f: "find (\<lambda>(b, l, t). t = 1) ?rs = Some (b, l, t)" by (metis not_None_eq prod_cases3)
  have "mem (fold show_region rs s) = mem s" "io_trace (fold show_region rs s) = io_trace s" for rs and s :: kstate
    by (rule fold_keeps, simp add: show_region_def split: prod.splits)+
  then show ?thesis by (simp add: do_mem_def Let_def f)
qed

text \<open>The state when the first process is created.\<close>

definition before_processes :: "image \<Rightarrow> u32 \<Rightarrow> kstate \<Rightarrow> kstate" where
  "before_processes im pass s =
     install_tables im (snd (do_mem (pass + 12)
       (set_stacks im (rd32 (mem s) (pass + 8)) (s\<lparr>gdt_limit := rd16 (mem s) (pass + 2)\<rparr>))))"

lemma set_stacks_limit: "kdata (set_stacks im k (s\<lparr>gdt_limit := l\<rparr>)) = kdata (set_stacks im k s)"
  by (simp add: set_stacks_def kdata_def)

lemma before_kdata:
  "kdata (before_processes im pass s) = kdata (set_stacks im (rd32 (mem s) (pass + 8)) s)"
  by (metis before_processes_def kdata_do_mem kdata_install prod.collapse set_stacks_limit)

lemma io_trace_ops [simp]:
  "io_trace (unfree_gdt_idx i s) = io_trace s" "io_trace (unfree_pid i s) = io_trace s"
  "io_trace (write_tss_desc i l b pr pv bu g s) = io_trace s" "io_trace (hook_tasks s) = io_trace s"
  "io_trace (init_port_accessers s) = io_trace s" "io_trace (outb p v s) = io_trace s @ [OutB p (v AND 0xff)]"
  by (simp_all add: unfree_gdt_idx_def unfree_pid_def write_tss_desc_def grow_gdt_def Let_def hook_tasks_def
      init_port_accessers_def outb_def del: init_accessers_loop.simps)

lemma io_trace_folds [simp]:
  "io_trace (reserve_descriptors s) = io_trace s" "io_trace (take_pids s) = io_trace s"
  "io_trace (write_tasks im s) = io_trace s" "io_trace (fold show_region rs s) = io_trace s"
  unfolding reserve_descriptors_def take_pids_def write_tasks_def
  by (rule fold_keeps, simp add: show_region_def split: prod.splits)+

lemma io_trace_install: "io_trace (install_tables im s) = io_trace s @ startup_outputs"
  by (simp add: install_tables_def Let_def remap_pics_def init_clock_def outs_def startup_outputs_def)

lemma before_starting:
  assumes "image_ok im" and "handed_over im m pass"
  shows "starting 3 (before_processes im pass (loaded im m)) []"
proof -
  let ?k = "rd32 m (pass + 8)" and ?l = "rd16 m (pass + 2)"
  let ?s = "set_stacks im ?k (loaded im m)"
  let ?s1 = "set_stacks im ?k ((loaded im m)\<lparr>gdt_limit := ?l\<rparr>)"
  let ?b = "before_processes im pass (loaded im m)"
  have kd: "kdata ?b = kdata ?s" using before_kdata [of im pass "loaded im m"] by (simp add: loaded_def)
  have no: "no_process ?b"
    using no_process_kdata [OF kd] loaded_no_process [OF assms(1)] by simp
  have m1: "mem ?s1 = m" by (simp add: set_stacks_other loaded_def)
  have pass: "pass + 12 + 4 = pass + 16" by simp
  obtain s2 where s2: "do_mem (pass + 12) ?s1 = (True, s2)" "mem s2 = m" "io_trace s2 = io_trace ?s1"
    using do_mem_ram [of ?s1 "pass + 12", unfolded m1 pass] assms(2) unfolding handed_over_def by blast
  have b: "?b = install_tables im s2" by (simp add: before_processes_def s2 loaded_def [of im m])
      (use s2(1) in \<open>simp add: loaded_def\<close>)
  note e = kdataD [OF kd] and e2 = kdataD [OF kdata_do_mem [OF s2(1)]]
  have ok: "length (proctab im) = 100" by (simp add: proctab_def)
  have g: "gdtBitmap ?s = im_gdtBitmap im" "pidBitmap ?s = im_pidBitmap im" "pproctab ?s = proctab im"
      "pproctab_end ?s = im_behind_pproctab im" "irqs ?s = replicate 16 NULL" "curptr ?s = NULL" "nextptr ?s = NULL"
    by (simp_all add: set_stacks_other loaded_def)
  have apart: "bitmaps_apart s2"
    using assms(1) e2(11,12) by (simp add: bitmaps_apart_def bitmap_fits_def image_ok_def set_stacks_other loaded_def)
  have "free_low s2 = {..<2080}"
    using assms(2) e2(11) s2(2)
    by (auto simp: free_low_def below_kernel_def handed_over_def set_stacks_other loaded_def)
  then have "2080 \<le> card (free_low ?b) + 45"
    using install_takes [OF apart, of im] b by (simp add: takes_def)
  moreover have slots: "{p \<in> set (pproctab ?b). fld tss_state ?b p = EMPTY} = set (proctab im)"
    using no e(9) g(3) by (auto simp: no_process_def)
  moreover have "card (set (proctab im)) = 100"
    using assms(1) ok distinct_card [of "proctab im"] by (simp add: image_ok_def task_addresses_def)
  moreover have tab: "p \<in> dom (tsss ?b)" if "p \<in> set (proctab im)" for p
    using no e(9) g(3) that by (auto simp: no_process_def)
  moreover have "names_fit ?b"
    using no_process_fld(6) [OF no tab] e(9) g(3) by (simp add: names_fit_def)
  moreover have "\<forall>p \<in> set (pproctab ?b). fld schedticks ?b p \<le> 1"
    using no_process_fld(5) [OF no tab] e(9) g(3) by simp
  moreover have "bitmap_fits ?b" using assms(1) e(11) g(1) by (simp add: bitmap_fits_def image_ok_def)
  moreover have "im_behind_pproctab im \<notin> set (proctab im)" using assms(1) by (simp add: image_ok_def)
  moreover have "io_trace ?b = startup_outputs"
    using b s2(3) by (simp add: io_trace_install set_stacks_def loaded_def)
  ultimately show ?thesis
    using no_process_kinv_g [OF no] e g ok unfolding starting_def by simp
qed

text \<open>The three programs, created and queued one after the other.\<close>

definition start_programs :: "image \<Rightarrow> u32 \<times> u32 \<times> u32 \<Rightarrow> u32 \<Rightarrow> kstate \<Rightarrow> kstate option" where
  "start_programs im stks tty s = do {
     s \<leftarrow> start_process (fst stks) ''display driver'' tty (im_video_size im) (0xb8000, 4096)
            [116, 116, 121, 0] s;
     let shell = tty + im_video_size im;
     s \<leftarrow> start_process (fst (snd stks)) ''shell'' shell (im_shell_size im)
            (shell, im_shell_size im) [115, 104, 101, 108, 108, 0] s;
     let hd = shell + im_shell_size im;
     start_process (snd (snd stks)) ''IDE driver'' hd (im_hd_size im) (hd, im_hd_size im) [104, 100, 0] s
   }"

lemma start_eq:
  assumes "handed_over im m pass"
  shows "start im stks pass (loaded im m) = map_option
    (\<lambda>s. Running (kputs [KChar 10, KString
       ''Will now enable interrupts and yield control to the process scheduler ...''] s))
    (start_programs im stks (rd32 m (pass + 8) + KERNEL_BASE) (before_processes im pass (loaded im m)))"
proof -
  let ?s = "set_stacks im (rd32 m (pass + 8)) ((loaded im m)\<lparr>gdt_limit := rd16 m (pass + 2)\<rparr>)"
  have m: "mem ?s = m" "mem (loaded im m) = m" by (simp_all add: set_stacks_other loaded_def)
  have p: "pass + 2 + 6 = pass + 8" "pass + 2 + 10 = pass + 12" "pass + 12 + 4 = pass + 16" by simp_all
  have ex: "\<exists>k < unat (min (rd32 (mem ?s) (pass + 12)) 10).
      snd (snd (memory_region (mem ?s) (pass + 12 + 4) k)) = 1"
    using assms unfolding m p handed_over_def by blast
  obtain s2 where s2: "do_mem (pass + 12) ?s = (True, s2)" using do_mem_ram [OF ex] by blast
  have b: "before_processes im pass (loaded im m) = install_tables im s2"
    unfolding before_processes_def m s2 by simp
  have "start im stks pass (loaded im m) = start_programs im stks (rd32 m (pass + 8) + KERNEL_BASE)
      (install_tables im s2) \<bind> (\<lambda>s. Some (Running (kputs [KChar 10, KString
       ''Will now enable interrupts and yield control to the process scheduler ...''] s)))"
    unfolding start_def Let_def m p kstate.select_convs kstate.update_convs
    by (simp add: s2 start_programs_def Let_def m p)
  then show ?thesis unfolding b by (cases "start_programs im stks (rd32 m (pass + 8) + KERNEL_BASE) (install_tables im s2)") simp_all
qed

lemma area_ok_video: "area_ok a False \<Longrightarrow> area_ok a True"
  unfolding area_ok_def memAreaValid_def Let_def word_less_nat_alt word_le_nat_alt
  by (auto split: if_splits)

lemma three_programs:
  assumes st: "starting 3 s []" and fit: "program_fits (tty, tsz)" "program_fits (tty + tsz, ssz)"
    "program_fits (tty + tsz + ssz, hsz)"
    and sizes: "im_video_size im = tsz" "im_shell_size im = ssz" "im_hd_size im = hsz"
  shows "\<exists>s' qs p q r. start_programs im stks tty s = Some s' \<and> starting 0 s' qs \<and>
    set qs = {p, q, r} \<and> distinct [p, q, r] \<and> static s' = static s \<and> descriptors_kept s s' \<and> idt_kept s s' \<and>
    (\<forall>x. x \<notin> {p, q, r} \<longrightarrow> map_option core (tsss s' x) = map_option core (tsss s x)) \<and>
    program_at s' p [116, 116, 121] (tty, tsz) (0xb8000, 4096) \<and>
    program_at s' q [115, 104, 101, 108, 108] (tty + tsz, ssz) (tty + tsz, ssz) \<and>
    program_at s' r [104, 100] (tty + tsz + ssz, hsz) (tty + tsz + ssz, hsz)"
proof -
  let ?sh = "tty + tsz" and ?hd = "tty + tsz + ssz"
  have names: "is_cstr [116, 116, 121, 0]" "is_cstr [115, 104, 101, 108, 108, 0]" "is_cstr [104, 100, 0]"
    by (simp_all add: is_cstr_def)
  have vid: "area_ok (0xb8000, 4096) True" by (simp add: area_ok_def memAreaValid_def area_fits_def Let_def)
  have f: "area_ok (tty, tsz) False" "area_ok (?sh, ssz) False" "area_ok (?hd, hsz) False"
      "tty \<noteq> NO_BASE" "?sh \<noteq> NO_BASE" "?hd \<noteq> NO_BASE" using fit by (simp_all add: program_fits_def)
  have cut: "take 17 (cstr [116, 116, 121, 0]) = [116, 116, 121]" "take 17 (cstr [104, 100, 0]) = [104, 100]"
      "take 17 (cstr [115, 104, 101, 108, 108, 0]) = [115, 104, 101, 108, 108]"
    by (simp_all add: cstr_def)
  have suc: "starting (Suc 2) s []" "Suc 1 = 2"
    using st by (simp_all add: numeral_3_eq_3 numeral_2_eq_2)
  obtain s1 q1 p where one: "start_process (fst stks) ''display driver'' tty tsz (0xb8000, 4096) [116, 116, 121, 0] s = Some s1"
      "starting 2 s1 q1" "set q1 = {p}" "static s1 = static s" "descriptors_kept s s1" "idt_kept s s1"
      "program_at s1 p [116, 116, 121] (tty, tsz) (0xb8000, 4096)"
      "\<And>x. x \<noteq> p \<Longrightarrow> map_option core (tsss s1 x) = map_option core (tsss s x)"
    using start_process_starting [OF suc(1) names(1) f(1) vid f(4), unfolded cut, of "fst stks" "''display driver''"]
    by auto
  obtain s2 q2 q where two: "start_process (fst (snd stks)) ''shell'' ?sh ssz (?sh, ssz) [115, 104, 101, 108, 108, 0] s1 = Some s2"
      "starting 1 s2 q2" "set q2 = insert q (set q1)" "q \<notin> set q1" "static s2 = static s1" "descriptors_kept s1 s2" "idt_kept s1 s2"
      "program_at s2 q [115, 104, 101, 108, 108] (?sh, ssz) (?sh, ssz)"
      "\<And>x. x \<noteq> q \<Longrightarrow> map_option core (tsss s2 x) = map_option core (tsss s1 x)"
    using start_process_starting [OF one(2) [folded suc(2)] names(2) f(2) area_ok_video [OF f(2)] f(5),
      unfolded cut fst_conv, OF f(5), of "fst (snd stks)" "''shell''"] by auto
  obtain s3 q3 r where three: "start_process (snd (snd stks)) ''IDE driver'' ?hd hsz (?hd, hsz) [104, 100, 0] s2 = Some s3"
      "starting 0 s3 q3" "set q3 = insert r (set q2)" "r \<notin> set q2" "static s3 = static s2" "descriptors_kept s2 s3" "idt_kept s2 s3"
      "program_at s3 r [104, 100] (?hd, hsz) (?hd, hsz)"
      "\<And>x. x \<noteq> r \<Longrightarrow> map_option core (tsss s3 x) = map_option core (tsss s2 x)"
    using start_process_starting [OF two(2) [unfolded One_nat_def] names(3) f(3) area_ok_video [OF f(3)] f(6),
      unfolded cut fst_conv, OF f(6), of "snd (snd stks)" "''IDE driver''"] by auto
  have d: "p \<noteq> q" "p \<noteq> r" "q \<noteq> r" using one(3) two(3,4) three(4) by auto
  have "program_at s3 p [116, 116, 121] (tty, tsz) (0xb8000, 4096)"
    using program_at_kept [OF program_at_kept [OF one(7) two(6) two(9) [OF d(1)]] three(6) three(9) [OF d(2)]] .
  moreover have "program_at s3 q [115, 104, 101, 108, 108] (?sh, ssz) (?sh, ssz)"
    using program_at_kept [OF two(8) three(6) three(9) [OF d(3)]] .
  moreover have "start_programs im stks tty s = Some s3"
    using one(1) two(1) three(1) by (simp add: start_programs_def Let_def sizes)
  moreover have "set q3 = {p, q, r}" using one(3) two(3) three(3) by auto
  moreover have "descriptors_kept s s3"
    using descriptors_kept_trans [OF one(5) descriptors_kept_trans [OF two(6) three(6)]] .
  moreover have "idt_kept s s3" using idt_kept_trans [OF one(6) idt_kept_trans [OF two(7) three(7)]] .
  moreover have "map_option core (tsss s3 x) = map_option core (tsss s x)" if "x \<notin> {p, q, r}" for x
    using one(8) [of x] two(9) [of x] three(9) [of x] that by simp
  ultimately show ?thesis using three(2,5,8) two(5) one(4) d by (metis distinct_length_2_or_more distinct_singleton)
qed

end
