(* ===== verification/MK_Boot_Gates.thy ===== *)
theory MK_Boot_Gates
  imports MK_Boot_Inv
begin

text \<open>
  Where the interrupts and exceptions lead after the start: the gates in the interrupt descriptor
  table, the task descriptors they name, and that the creation of the processes disturbs neither.
\<close>

section \<open>Task descriptors\<close>

lemma write_tss_base:
  assumes "bitmap_fits s" and "below_kernel n"
  shows "get_base (mem (write_tss_desc (selector n) l b pr pv bu g s)) (selector n) = b"
proof -
  have lt: "n < 8192" using assms(2) by (simp add: below_kernel_def)
  obtain p q where "\<And>a. a \<noteq> bitmap_byte s (selector n) \<Longrightarrow>
      mem (write_tss_desc (selector n) l b pr pv bu g s) a = put_descriptor (selector n) l b p q (mem s) a"
  proof -
    have "bitmap_byte (grow_gdt (selector n) s) i = bitmap_byte s i" "mem (grow_gdt (selector n) s) = mem s" for i
      by (simp_all add: grow_gdt_def bitmap_byte_def)
    then show ?thesis
      by (intro that) (subst write_tss_desc_def, simp add: Let_def, subst unfree_other, auto simp: bitmap_byte_def)
  qed
  then have "get_base (mem (write_tss_desc (selector n) l b pr pv bu g s)) (selector n) =
      get_base (put_descriptor (selector n) l b p q (mem s)) (selector n)"
    using bitmap_apart [OF assms lt] by (intro descriptor_cong(1)) metis
  then show ?thesis by (simp add: get_base_put)
qed

text \<open>The descriptor number \<open>k\<close> is in use and describes a task at \<open>a\<close>.\<close>

definition task_at :: "kstate \<Rightarrow> nat \<Rightarrow> ptr \<Rightarrow> bool" where
  "task_at s k a \<longleftrightarrow> used_bit s k \<and> get_base (mem s) (selector k) = a + KERNEL_BASE"

lemma task_at_kept: "task_at s k a \<Longrightarrow> below_kernel k \<Longrightarrow> descriptors_kept s s' \<Longrightarrow> task_at s' k a"
  by (auto simp: task_at_def descriptors_kept_def)

lemma bitmap_fits_kdata: "kdata s' = kdata s \<Longrightarrow> bitmap_fits s' = bitmap_fits s"
  using kdataD(11) [of s' s] by (simp add: bitmap_fits_def)

lemma tasks_written:
  assumes "distinct (map fst ts)" and "\<forall>(k, a) \<in> set ts. below_kernel k" and "bitmap_fits s"
    and "task_at s j b \<and> below_kernel j \<and> j \<notin> fst ` set ts \<or> (j, b) \<in> set ts"
  shows "task_at (fold (\<lambda>(k, a). write_tss_desc (selector k) 104 (a + KERNEL_BASE) 1 0 0 0) ts s) j b"
  using assms
proof (induction ts arbitrary: s)
  case (Cons t ts)
  obtain k a where t: "t = (k, a)" by (cases t)
  let ?s = "write_tss_desc (selector k) 104 (a + KERNEL_BASE) 1 0 0 0 s"
  have w: "descriptor_written (selector k) s ?s" by (rule tss_written)
  have k: "below_kernel k" using Cons.prems(2) t by simp
  note bits = written_bits [OF w Cons.prems(3) k]
  have "task_at ?s j b \<and> below_kernel j \<and> j \<notin> fst ` set ts \<or> (j, b) \<in> set ts"
  proof (cases "j = k")
    case True
    have "(j, b') \<notin> set ts" "j \<notin> fst ` set ts" for b'
      using Cons.prems(1) t True by (auto simp: image_iff)
    moreover from this have "b = a" using Cons.prems(4) t True by auto
    moreover have "task_at ?s k a"
      using write_tss_base [OF Cons.prems(3) k] bits [of k] k by (simp add: task_at_def below_kernel_def)
    ultimately show ?thesis using True k by blast
  next
    case False
    then show ?thesis
      using Cons.prems(4) t written_other(1) [OF w Cons.prems(3) k _ False] bits [of j]
      by (auto simp: task_at_def below_kernel_def)
  qed
  moreover have "bitmap_fits ?s" using Cons.prems(3) bitmap_fits_kdata [of ?s s] by simp
  ultimately have "task_at (fold (\<lambda>(k, a). write_tss_desc (selector k) 104 (a + KERNEL_BASE) 1 0 0 0) ts ?s) j b"
    using Cons.prems(1,2) by (intro Cons.IH) simp_all
  then show ?case by (simp add: t)
qed simp

text \<open>Steps that write neither the descriptors before the gates nor their bitmap.\<close>

definition tasks_kept :: "kstate \<Rightarrow> kstate \<Rightarrow> bool" where
  "tasks_kept s s' \<longleftrightarrow> kdata s' = kdata s \<and> (\<forall>n < 8192. used_bit s' n = used_bit s n) \<and>
     (\<forall>a. unat a < 0x12700 \<longrightarrow> mem s' a = mem s a)"

lemma tasks_kept_refl [simp]: "tasks_kept s s"
  by (simp add: tasks_kept_def)

lemma tasks_kept_trans: "tasks_kept a b \<Longrightarrow> tasks_kept b c \<Longrightarrow> tasks_kept a c"
  by (simp add: tasks_kept_def)

lemma tasks_kept_mem: "kdata s' = kdata s \<Longrightarrow> mem s' = mem s \<Longrightarrow> tasks_kept s s'"
  using kdataD(11) [of s' s] by (simp add: tasks_kept_def)

lemma tasks_keptD:
  assumes "tasks_kept s s'" and "task_at s k a" and "k < 1024"
  shows "task_at s' k a"
proof -
  have "mem s' x = mem s x" if "x \<in> descriptor_bytes (selector k)" for x
  proof -
    have "unat x div 8 = 0x10700 div 8 + k" using descriptor_address [OF that] assms(3) by simp
    then show ?thesis using assms(1,3) by (simp add: tasks_kept_def)
  qed
  then have "get_base (mem s') (selector k) = get_base (mem s) (selector k)"
    by (intro descriptor_cong(1))
  then show ?thesis using assms by (simp add: task_at_def tasks_kept_def)
qed

lemma unfree_pid_tasks:
  assumes "bitmaps_apart s" and "unat p < 8192"
  shows "tasks_kept s (unfree_pid p s)"
proof -
  have "mem (unfree_pid p s) a = mem s a" if a: "unat a < 0x12700" for a
  proof -
    have "unat p div 8 < 1024" using assms(2) by (intro less_mult_imp_div_less) simp
    then have d: "unat p div 8 \<le> 1024" "p div 8 = of_nat (unat p div 8)"
      using word_unat_eq_iff [of "p div 8" "of_nat (unat p div 8)"]
      by (simp_all add: unat_div unat_of_nat take_bit_nat_eq_self)
    have "unat (KERNEL_BASE + (pidBitmap s + of_nat (unat p div 8))) = 0x14800 + (unat (pidBitmap s) + unat p div 8)"
      using assms(1) d(1) bitmap_offset [of "pidBitmap s" "unat p div 8"]
      by (simp add: bitmaps_apart_def unat_word_ariths word_le_nat_alt)
    then have "a \<noteq> KERNEL_BASE + (pidBitmap s + p div 8)" using a d(2) by auto
    then show ?thesis by (simp add: unfree_pid_def unfreeBitInBitfield_def Let_def)
  qed
  then show ?thesis using unfree_pid_bits [OF assms] by (simp add: tasks_kept_def)
qed

lemma take_pids_tasks: "bitmaps_apart s \<Longrightarrow> tasks_kept s (take_pids s)"
proof -
  have "bitmaps_apart s \<Longrightarrow> \<forall>p \<in> set ps. p < 8192 \<Longrightarrow> tasks_kept s (fold (\<lambda>p. unfree_pid (of_nat p)) ps s)" for ps
  proof (induction ps arbitrary: s)
    case (Cons p ps)
    have one: "tasks_kept s (unfree_pid (of_nat p) s)"
      using Cons.prems by (intro unfree_pid_tasks) (simp_all add: unat_of_nat take_bit_nat_eq_self)
    have "bitmaps_apart (unfree_pid (of_nat p) s)"
      using Cons.prems(1) bitmaps_apart_kdata [of s] bitmaps_apart_kdata [of "unfree_pid (of_nat p) s"]
      by (simp del: bitmaps_apart_kdata)
    from tasks_kept_trans [OF one Cons.IH [OF this]] show ?case using Cons.prems(2) by simp
  qed simp
  then show "bitmaps_apart s \<Longrightarrow> ?thesis" using boot_pids_below by (simp add: take_pids_def)
qed

lemma hook_tasks_tasks: "bitmap_fits s \<Longrightarrow> tasks_kept s (hook_tasks s)"
  using hook_tasks_bits [of s] hook_tasks_outside [of _ s] by (simp add: tasks_kept_def)

section \<open>Gates\<close>

text \<open>The entry \<open>i\<close> of the interrupt descriptor table is a task gate for the descriptor \<open>k\<close>.\<close>

definition gate_to :: "memory \<Rightarrow> nat \<Rightarrow> nat \<Rightarrow> bool" where
  "gate_to m i k \<longleftrightarrow> m (IDT_BASE + of_nat i * 8 + 5) = 0xe5 \<and>
     rd16 m (IDT_BASE + of_nat i * 8 + 2) = ucast (selector k)"

lemma gate_bytesI: "k < 8 \<Longrightarrow> IDT_BASE + of_nat i * 8 + of_nat k \<in> gate_bytes i"
proof -
  assume "k < 8"
  then have "(of_nat (0x12700 + 8 * i + k) :: u32) \<in> gate_bytes i" unfolding gate_bytes_def by blast
  then show ?thesis by (simp add: ac_simps)
qed

lemma gate_to_cong:
  assumes "\<And>a. a \<in> gate_bytes i \<Longrightarrow> m' a = m a"
  shows "gate_to m' i k = gate_to m i k"
  using assms gate_bytesI [of 2 i] gate_bytesI [of 3 i] gate_bytesI [of 5 i]
  by (simp add: gate_to_def rd16_def add.assoc)

lemma hook_int_gate: "gate_to (hook_int (of_nat i) TSS (selector k) 0 m) i k"
  by (simp add: gate_to_def hook_int_def Let_def rd16_def wr16_def word_join16 add.assoc)

lemma gate_bytes_disjoint: "i < 256 \<Longrightarrow> j < 256 \<Longrightarrow> i \<noteq> j \<Longrightarrow> a \<in> gate_bytes i \<Longrightarrow> a \<notin> gate_bytes j"
  using gate_bytes_range [of a i] gate_bytes_range [of a j] by auto

lemma gates_hooked:
  assumes "distinct (map fst gs)" and "\<forall>(i, k) \<in> set gs. i < 256"
    and "gate_to m j c \<and> j < 256 \<and> j \<notin> fst ` set gs \<or> (j, c) \<in> set gs"
  shows "gate_to (fold (\<lambda>(i, k). hook_int (of_nat i) TSS (selector k) 0) gs m) j c"
  using assms
proof (induction gs arbitrary: m)
  case (Cons g gs)
  obtain i k where g: "g = (i, k)" by (cases g)
  let ?m = "hook_int (of_nat i) TSS (selector k) 0 m"
  have i: "i < 256" using Cons.prems(2) g by simp
  have "gate_to ?m j c \<and> j < 256 \<and> j \<notin> fst ` set gs \<or> (j, c) \<in> set gs"
  proof (cases "j = i")
    case True
    have "(j, c') \<notin> set gs" "j \<notin> fst ` set gs" for c'
      using Cons.prems(1) g True by (auto simp: image_iff)
    moreover from this have "c = k" using Cons.prems(3) g True by auto
    ultimately show ?thesis using True i hook_int_gate by simp
  next
    case False
    have "gate_to ?m j c = gate_to m j c" if "j < 256"
      by (rule gate_to_cong, rule hook_int_outside, rule gate_bytes_disjoint [OF that i False])
    then show ?thesis using Cons.prems(3) g False by auto
  qed
  then show ?case using Cons.IH [of ?m] Cons.prems(1,2) by (simp add: g)
qed simp

lemma boot_gates_hooked: "(i, k) \<in> set boot_gates \<Longrightarrow> gate_to (mem (hook_tasks s)) i k"
proof -
  have "distinct (map fst boot_gates)" by (simp add: boot_gates_def exceptions_def upt_rec numeral_eq_Suc)
  moreover have "\<forall>(i, k) \<in> set boot_gates. i < 256" using boot_gates_below by blast
  ultimately show "(i, k) \<in> set boot_gates \<Longrightarrow> ?thesis"
    using gates_hooked [of boot_gates "mem s"] by (simp add: hook_tasks_def)
qed

section \<open>The installed tables\<close>

lemma boot_tasks_numbers: "image_ok im \<Longrightarrow> map fst (boot_tasks im) = [8..<26] @ map ((+) 26) exceptions"
proof -
  assume "image_ok im"
  then have "length (im_intrrptstate im) = 16" "length (im_exceptnstate im) = 19" by (simp_all add: image_ok_def)
  then have "map fst (boot_tasks im) = 8 # 9 # [10..<26] @ map ((+) 26) exceptions"
    by (simp add: boot_tasks_def exceptions_def map_fst_zip)
  moreover have "8 # 9 # [10..<26] = [8..<26::nat]" by (simp add: upt_rec numeral_eq_Suc)
  ultimately show ?thesis by (metis append_Cons)
qed

lemma distinct_boot_tasks: "image_ok im \<Longrightarrow> distinct (map fst (boot_tasks im))"
  by (subst boot_tasks_numbers, assumption) (auto simp: exceptions_def distinct_map)

lemma installed:
  assumes ok: "image_ok im" and apart: "bitmaps_apart s"
  shows "(k, a) \<in> set (boot_tasks im) \<Longrightarrow> task_at (install_tables im s) k a"
    "(i, k) \<in> set boot_gates \<Longrightarrow> gate_to (mem (install_tables im s)) i k"
proof -
  define s2 where "s2 = reserve_descriptors (init_port_accessers s)"
  define s3 where "s3 = write_tasks im s2"
  define s4 where "s4 = remap_pics 0x20 0x28 (take_pids s3)"
  define s5 where "s5 = hook_tasks s4"
  have i: "install_tables im s = init_clock 0x91a7 (outb 0x21 0xfc s5)"
    by (simp add: install_tables_def Let_def s2_def s3_def s4_def s5_def)
  then have m: "mem (install_tables im s) = mem s5" by (simp add: init_clock_def)
  then show "(i, k) \<in> set boot_gates \<Longrightarrow> gate_to (mem (install_tables im s)) i k"
    using boot_gates_hooked by (simp add: s5_def)
  have kd: "kdata s2 = kdata s" "kdata s3 = kdata s" "kdata s4 = kdata s" "kdata s5 = kdata s"
    by (simp_all add: s2_def s3_def s4_def s5_def remap_pics_def)
  have ap: "bitmaps_apart x" if "kdata x = kdata s" for x
    using apart bitmaps_apart_kdata [of s] bitmaps_apart_kdata [of x] that by (simp del: bitmaps_apart_kdata)
  then have fits: "bitmap_fits x" if "kdata x = kdata s" for x using that by (simp add: bitmaps_apart_def)
  assume t: "(k, a) \<in> set (boot_tasks im)"
  have "\<forall>(k, a) \<in> set (boot_tasks im). below_kernel k" using boot_tasks_below by (force simp: below_kernel_def)
  then have "task_at s3 k a"
    using tasks_written [OF distinct_boot_tasks [OF ok] _ fits [OF kd(1)]] t by (simp add: s3_def write_tasks_def)
  moreover have "tasks_kept s3 (take_pids s3)" by (rule take_pids_tasks [OF ap [OF kd(2)]])
  moreover have "tasks_kept (take_pids s3) s4" by (rule tasks_kept_mem) (simp_all add: s4_def remap_pics_def)
  moreover have "tasks_kept s4 s5" unfolding s5_def by (rule hook_tasks_tasks [OF fits [OF kd(3)]])
  moreover have "tasks_kept s5 (install_tables im s)" by (rule tasks_kept_mem) (simp_all add: i kd m init_clock_def)
  moreover have "k < 1024" using boot_tasks_below [OF t] by simp
  ultimately show "task_at (install_tables im s) k a" using tasks_keptD by blast
qed

end
