(* ===== verification/MK_Boot_Props.thy ===== *)
theory MK_Boot_Props
  imports MK_Boot_Gates MK_System MK_Memory_Props
begin

text \<open>
  The properties of the kernel's start, each with its instance on a small image: the task-state
  segments lie one behind the other, the programs take 16 KiB each.
\<close>

section \<open>What the start leaves behind\<close>

lemma program_at_kputs [simp]: "program_at (kputs ks s) p name a gs = program_at s p name a gs"
  using program_at_kept [of s p name a gs "kputs ks s"] program_at_kept [of "kputs ks s" p name a gs s] by auto

lemma before_static: "static (before_processes im pass (loaded im m)) = static (loaded im m)"
  using kdataD [OF before_kdata [of im pass "loaded im m"]] by (simp add: static_def set_stacks_other set_stacks_dom)

lemma started:
  assumes ok: "image_ok im" and m: "handed_over im m pass"
  obtains s qs p q r where "start im stks pass (loaded im m) = Some (Running s)"
    "starting 0 s qs" "set qs = {p, q, r}" "distinct [p, q, r]" "static s = static (loaded im m)"
    "descriptors_kept (before_processes im pass (loaded im m)) s"
    "idt_kept (before_processes im pass (loaded im m)) s"
    "\<And>x. x \<notin> {p, q, r} \<Longrightarrow>
       map_option core (tsss s x) = map_option core (tsss (before_processes im pass (loaded im m)) x)"
    "program_at s p [116, 116, 121] (boot_areas im m pass ! 0) (0xb8000, 4096)"
    "program_at s q [115, 104, 101, 108, 108] (boot_areas im m pass ! 1) (boot_areas im m pass ! 1)"
    "program_at s r [104, 100] (boot_areas im m pass ! 2) (boot_areas im m pass ! 2)"
proof -
  let ?b = "before_processes im pass (loaded im m)" and ?tty = "rd32 m (pass + 8) + KERNEL_BASE"
  have fit: "program_fits (?tty, im_video_size im)" "program_fits (?tty + im_video_size im, im_shell_size im)"
      "program_fits (?tty + im_video_size im + im_shell_size im, im_hd_size im)"
    using m by (simp_all add: handed_over_def boot_areas_def Let_def)
  obtain s qs p q r where s: "start_programs im stks ?tty ?b = Some s" "starting 0 s qs"
    "set qs = {p, q, r}" "distinct [p, q, r]" "static s = static ?b" "descriptors_kept ?b s" "idt_kept ?b s"
    "\<And>x. x \<notin> {p, q, r} \<Longrightarrow> map_option core (tsss s x) = map_option core (tsss ?b x)"
    "program_at s p [116, 116, 121] (?tty, im_video_size im) (0xb8000, 4096)"
    "program_at s q [115, 104, 101, 108, 108] (?tty + im_video_size im, im_shell_size im)
       (?tty + im_video_size im, im_shell_size im)"
    "program_at s r [104, 100] (?tty + im_video_size im + im_shell_size im, im_hd_size im)
       (?tty + im_video_size im + im_shell_size im, im_hd_size im)"
    using three_programs [OF before_starting [OF ok m] fit, of im stks] by blast
  let ?s = "kputs [KChar 10, KString
    ''Will now enable interrupts and yield control to the process scheduler ...''] s"
  have "start im stks pass (loaded im m) = Some (Running ?s)" using start_eq [OF m] s(1) by simp
  moreover have "idt_kept ?b ?s" using s(7) by (simp add: idt_kept_def)
  ultimately show ?thesis
    using s before_static [of im pass m] by (intro that [of ?s qs p q r]) (simp_all add: boot_areas_def Let_def)
qed

lemma starting_kernel_inv:
  assumes "starting 0 s qs" and "static s = static (loaded im m)" and "image_ok im"
  shows "kernel_inv (s\<lparr>curptr := idlestate s\<rparr>)"
proof -
  have "kinv_g {} (s\<lparr>curptr := idlestate s\<rparr>) qs (\<lambda>_. [])" "nextptr s = NULL"
    using assms(1) by (simp_all add: starting_def)
  moreover have "intrrptstate s = im_intrrptstate im" using staticD(3) [OF assms(2)] by (simp add: loaded_def)
  moreover have "set (im_intrrptstate im) \<subseteq> dom (tsss s)"
    unfolding staticD(4) [OF assms(2)] loaded_tss(2) [OF assms(3)] by (auto simp: task_addresses_def)
  ultimately show ?thesis using assms(3) unfolding kernel_inv_def image_ok_def by auto
qed


section \<open>A small image\<close>

definition small_tss :: "nat \<Rightarrow> ptr" where
  "small_tss k = 0x1000 + SIZEOF_TSS * of_nat k"

definition small_image :: image where
  "small_image = \<lparr>im_kernelstate = small_tss 0, im_idlestate = small_tss 1,
     im_intrrptstate = map small_tss [2..<18], im_exceptnstate = map small_tss [18..<37],
     im_proctab = small_tss 37, im_behind_pproctab = NULL, im_gdtBitmap = 0x8000, im_pidBitmap = 0x9000,
     im_idle_task = 0x100, im_hw_intrrpt = map (\<lambda>k. 0x200 + of_nat k) [0..<16],
     im_hw_exceptn = map (\<lambda>k. 0x300 + of_nat k) [0..<19],
     im_video_size = 0x4000, im_shell_size = 0x4000, im_hd_size = 0x4000\<rparr>"

text \<open>What the boot sector hands over at \<open>0x700\<close>: 320 KiB of kernel, one region of usable memory.\<close>

definition small_mem :: memory where
  "small_mem a = (if a = 0x702 then 0x3f else if a = 0x70a then 5 else if a = 0x70c then 1
                  else if a = 0x720 then 1 else 0)"

lemma small_tss_inj: "inj_on small_tss {..<137}"
proof (rule inj_onI)
  fix j k assume jk: "j \<in> {..<137}" "k \<in> {..<137}" "small_tss j = small_tss k"
  have "unat (small_tss i) = 0x1000 + 148 * i" if "i < 137" for i
    using that by (simp add: small_tss_def unat_word_ariths unat_of_nat take_bit_nat_eq_self)
  then show "j = k" using jk by (metis add_left_cancel lessThan_iff mult_cancel1 zero_neq_numeral)
qed

lemma small_addresses: "task_addresses small_image = map small_tss [0..<137]"
proof -
  have tab: "proctab small_image = map small_tss [37..<137]"
    by (rule nth_equalityI) (simp_all add: proctab_def small_image_def small_tss_def algebra_simps
        del: upt_rec_numeral)
  have "[0..<137] = [0, 1] @ [2..<18] @ [18..<37] @ [37..<137::nat]"
    by (simp add: upt_rec numeral_eq_Suc)
  then have "map small_tss [0..<137] = map small_tss ([0, 1] @ [2..<18] @ [18..<37] @ [37..<137])" by simp
  then show ?thesis by (simp only: tab task_addresses_def map_append) (simp add: small_image_def)
qed

lemma small_image_ok: "image_ok small_image"
proof -
  have "NULL \<notin> set (map small_tss [0..<137])"
    by (auto simp: small_tss_def word_unat_eq_iff unat_word_ariths unat_of_nat take_bit_nat_eq_self)
  moreover have "distinct (map small_tss [0..<137])"
    using small_tss_inj by (simp add: distinct_map lessThan_atLeast0)
  moreover have "set (proctab small_image) \<subseteq> set (task_addresses small_image)"
    by (auto simp: task_addresses_def)
  ultimately show ?thesis
    using small_addresses unfolding image_ok_def by (auto simp: small_image_def)
qed

lemma small_areas: "boot_areas small_image small_mem 0x700 = [(0x64800, 0x4000), (0x68800, 0x4000), (0x6c800, 0x4000)]"
  by (simp add: boot_areas_def Let_def small_image_def rd32_def rd16_def small_mem_def word_cat_eq)

lemma small_handed_over: "handed_over small_image small_mem 0x700"
proof -
  have "\<not> bitmap_bit small_mem (im_gdtBitmap small_image) k" if "k < 8192" for k
  proof -
    have "0x1c800 \<le> unat (KERNEL_BASE + (0x8000 + of_nat (k div 8)) :: u32)"
      using bitmap_address [OF that] by simp
    moreover have "small_mem a = 0" if "0x1c800 \<le> unat a" for a
      using that by (auto simp: small_mem_def)
    ultimately have "small_mem (KERNEL_BASE + (0x8000 + of_nat (k div 8))) = 0" by blast
    then show ?thesis by (simp add: bitmap_bit_def small_image_def)
  qed
  moreover have "\<exists>k < unat (min (rd32 small_mem (0x700 + 12)) 10). snd (snd (memory_region small_mem (0x700 + 16) k)) = 1"
    by (rule exI [of _ 0])
      (simp add: memory_region_def Let_def rd32_def rd16_def small_mem_def word_cat_eq)
  moreover have "\<forall>a \<in> set (boot_areas small_image small_mem 0x700). program_fits a"
    by (simp add: small_areas program_fits_def area_ok_def memAreaValid_def area_fits_def Let_def)
  ultimately show ?thesis by (simp add: handed_over_def)
qed

section \<open>The processes\<close>

text \<open>
  C3: the start creates exactly three processes and queues them: the terminal driver, whose video
  segment is the screen, the shell and the disk driver, one behind the other in memory, each with
  segments that describe its program.  But for the current process, the state satisfies the
  invariant of the kernel.
\<close>

theorem kernel_starts:
  assumes "image_ok im" and "handed_over im m pass"
  shows "\<exists>s tty shell hd. start im stks pass (loaded im m) = Some (Running s) \<and>
    kernel_inv (s\<lparr>curptr := idlestate s\<rparr>) \<and>
    distinct [tty, shell, hd] \<and> {p \<in> dom (tsss s). fld enqueued s p} = {tty, shell, hd} \<and>
    program_at s tty [116, 116, 121] (boot_areas im m pass ! 0) (0xb8000, 4096) \<and>
    program_at s shell [115, 104, 101, 108, 108] (boot_areas im m pass ! 1) (boot_areas im m pass ! 1) \<and>
    program_at s hd [104, 100] (boot_areas im m pass ! 2) (boot_areas im m pass ! 2)"
proof -
  obtain s qs p q r where s: "start im stks pass (loaded im m) = Some (Running s)" "starting 0 s qs"
      "set qs = {p, q, r}" "distinct [p, q, r]" "static s = static (loaded im m)"
    and progs: "program_at s p [116, 116, 121] (boot_areas im m pass ! 0) (0xb8000, 4096)"
      "program_at s q [115, 104, 101, 108, 108] (boot_areas im m pass ! 1) (boot_areas im m pass ! 1)"
      "program_at s r [104, 100] (boot_areas im m pass ! 2) (boot_areas im m pass ! 2)"
    by (rule started [OF assms])
  have inv: "kinv_g {} s qs (\<lambda>_. [])" using s(2) by (simp add: starting_def)
  have "set qs \<subseteq> dom (tsss s)" using kinv_g_queue [OF inv] kinv_g_proc(1) [OF inv] by blast
  moreover have "flags_inv s qs" using kinv_g_parts(1) [OF inv] by (simp add: sched_inv_def)
  ultimately have "{x \<in> dom (tsss s). fld enqueued s x} = {p, q, r}" by (auto simp: flags_inv_def s(3))
  then show ?thesis using s(1,4) progs starting_kernel_inv [OF s(2,5) assms(1)] by blast
qed

theorem kernel_starts_witness:
  "\<exists>s p. start small_image (0, 0, 0) 0x700 (loaded small_image small_mem) = Some (Running s) \<and>
     program_at s p [115, 104, 101, 108, 108] (0x68800, 0x4000) (0x68800, 0x4000)"
  using kernel_starts [OF small_image_ok small_handed_over, of "(0, 0, 0)"] by (auto simp: small_areas)

text \<open>Without usable memory in the map of the BIOS the start stops the machine.\<close>

theorem start_without_memory:
  assumes "\<forall>k < 10. snd (snd (memory_region m (pass + 16) k)) \<noteq> 1"
  shows "\<exists>s. start im stks pass (loaded im m) = Some (Halted s) \<and> mem s = m \<and> io_trace s = []"
proof -
  let ?s = "set_stacks im (rd32 m (pass + 8)) ((loaded im m)\<lparr>gdt_limit := rd16 m (pass + 2)\<rparr>)"
  have m: "mem ?s = m" "mem (loaded im m) = m" "io_trace ?s = []"
    by (simp_all add: set_stacks_other) (simp_all add: set_stacks_def loaded_def)
  have p: "pass + 2 + 6 = pass + 8" "pass + 2 + 10 = pass + 12" "pass + 12 + 4 = pass + 16" by simp_all
  let ?rs = "map (memory_region m (pass + 16)) [0..<unat (min (rd32 m (pass + 12)) 10)]"
  have "unat (min (rd32 m (pass + 12)) 10) \<le> 10" by (simp add: min_def word_le_nat_alt)
  then have none: "find (\<lambda>(b, l, t). t = 1) ?rs = None"
    using assms unfolding find_None_iff by (auto simp: case_prod_unfold)
  have keep: "mem (fold show_region rs s) = mem s" "io_trace (fold show_region rs s) = io_trace s" for rs and s :: kstate
    by (rule fold_keeps, simp add: show_region_def split: prod.splits)+
  obtain s2 where "do_mem (pass + 12) ?s = (False, s2)" "mem s2 = m" "io_trace s2 = []"
    unfolding do_mem_def Let_def m p none by (simp add: keep m)
  then show ?thesis unfolding start_def Let_def m p by (simp add: m p)
qed

text \<open>
  The result of a creation is not checked: with a program that reaches into the reserved memory,
  the start puts the null pointer into the run queue.
\<close>

lemma create_process_refused:
  assumes "set (pproctab s) \<subseteq> dom (tsss s)" and "base \<noteq> NO_BASE" and "\<not> memAreaValid base sz False"
  shows "create_process stk pv ticks ent (base, sz) ds es fs gs ss name s = Some (NULL, s)"
proof -
  obtain r where "empty_slot s (pproctab s) = Some r" using empty_slot_Some [OF assms(1)] by blast
  then show ?thesis using assms(2,3)
    by (cases r) (simp_all add: create_process_def segment_requests_def numeral_eq_Suc)
qed

theorem unchecked_creation:
  assumes "set (pproctab s) \<subseteq> dom (tsss s)" and "tsss s NULL = None"
    and "base \<noteq> NO_BASE" and "\<not> memAreaValid base sz False"
  shows "start_process stk what base sz gs name s = None"
  using assms create_process_refused [of "kputs ks s" base sz for ks]
  by (simp add: start_process_def enqueue_def)

section \<open>The first interrupt\<close>



section \<open>Where interrupts and exceptions lead\<close>

lemma zip_entry: "length xs = length ys \<Longrightarrow> n < length xs \<Longrightarrow> (xs ! n, ys ! n) \<in> set (zip xs ys)"
  by (auto simp: set_zip)

lemma interrupt_entries:
  assumes "image_ok im"
  shows "n < 16 \<Longrightarrow> (im_intrrptstate im ! n, task_tss (2 + n) (10 + n) (im_hw_intrrpt im ! n)) \<in> set (table_entries im)"
    "n < 19 \<Longrightarrow> (im_exceptnstate im ! n,
       task_tss (18 + exceptions ! n) (26 + exceptions ! n) (im_hw_exceptn im ! n)) \<in> set (table_entries im)"
proof -
  have l: "length (im_intrrptstate im) = 16" "length (im_hw_intrrpt im) = 16"
      "length (im_exceptnstate im) = 19" "length (im_hw_exceptn im) = 19" "length exceptions = 19"
    using assms by (simp_all add: image_ok_def exceptions_def)
  show "n < 16 \<Longrightarrow> (im_intrrptstate im ! n, task_tss (2 + n) (10 + n) (im_hw_intrrpt im ! n)) \<in> set (table_entries im)"
    using zip_entry [of "im_intrrptstate im" "map2 (\<lambda>n. task_tss (2 + n) (10 + n)) [0..<16] (im_hw_intrrpt im)" n]
    by (simp add: table_entries_def l del: upt_rec_numeral)
  show "n < 19 \<Longrightarrow> (im_exceptnstate im ! n,
       task_tss (18 + exceptions ! n) (26 + exceptions ! n) (im_hw_exceptn im ! n)) \<in> set (table_entries im)"
    using zip_entry [of "im_exceptnstate im" "map2 (\<lambda>n. task_tss (18 + n) (26 + n)) exceptions (im_hw_exceptn im)" n]
    by (simp add: table_entries_def l)
qed

lemma boot_tasks_entries:
  assumes "image_ok im"
  shows "n < 16 \<Longrightarrow> (10 + n, im_intrrptstate im ! n) \<in> set (boot_tasks im)"
    "n < 19 \<Longrightarrow> (26 + exceptions ! n, im_exceptnstate im ! n) \<in> set (boot_tasks im)"
proof -
  have l: "length (im_intrrptstate im) = 16" "length (im_exceptnstate im) = 19" "length exceptions = 19"
    using assms by (simp_all add: image_ok_def exceptions_def)
  show "n < 16 \<Longrightarrow> (10 + n, im_intrrptstate im ! n) \<in> set (boot_tasks im)"
    using zip_entry [of "[10..<26]" "im_intrrptstate im" n] by (simp add: boot_tasks_def l del: upt_rec_numeral)
  show "n < 19 \<Longrightarrow> (26 + exceptions ! n, im_exceptnstate im ! n) \<in> set (boot_tasks im)"
    using zip_entry [of "map ((+) 26) exceptions" "im_exceptnstate im" n] by (simp add: boot_tasks_def l)
qed

lemma boot_gates_entries:
  "n < 16 \<Longrightarrow> (0x20 + n, 10 + n) \<in> set boot_gates"
  "n < 19 \<Longrightarrow> (exceptions ! n, 26 + exceptions ! n) \<in> set boot_gates"
proof -
  have l: "length exceptions = 19" by (simp add: exceptions_def)
  show "n < 16 \<Longrightarrow> (0x20 + n, 10 + n) \<in> set boot_gates"
    using zip_entry [of "[0x20..<0x30]" "[10..<26]" n] by (simp add: boot_gates_def del: upt_rec_numeral)
  show "n < 19 \<Longrightarrow> (exceptions ! n, 26 + exceptions ! n) \<in> set boot_gates"
    using zip_entry [of exceptions "map ((+) 26) exceptions" n] by (simp add: boot_gates_def l)
qed

lemma before_installed:
  assumes "image_ok im"
  shows "(k, a) \<in> set (boot_tasks im) \<Longrightarrow> task_at (before_processes im pass (loaded im m)) k a"
    "(i, k) \<in> set boot_gates \<Longrightarrow> gate_to (mem (before_processes im pass (loaded im m))) i k"
proof -
  let ?s = "set_stacks im (rd32 m (pass + 8)) ((loaded im m)\<lparr>gdt_limit := rd16 m (pass + 2)\<rparr>)"
  let ?x = "snd (do_mem (pass + 12) ?s)"
  have b: "before_processes im pass (loaded im m) = install_tables im ?x"
    by (simp add: before_processes_def loaded_def)
  have "kdata ?x = kdata ?s" by (metis kdata_do_mem prod.collapse)
  then have "gdtBitmap ?x = im_gdtBitmap im" "pidBitmap ?x = im_pidBitmap im"
    using kdataD(11,12) [of ?x ?s] by (simp_all add: set_stacks_other loaded_def)
  then have "bitmaps_apart ?x" using assms by (simp add: bitmaps_apart_def bitmap_fits_def image_ok_def)
  note i = installed [OF assms this]
  show "task_at (before_processes im pass (loaded im m)) k a" if "(k, a) \<in> set (boot_tasks im)"
    unfolding b by (rule i(1) [OF that])
  show "gate_to (mem (before_processes im pass (loaded im m))) i k" if "(i, k) \<in> set boot_gates"
    unfolding b by (rule i(2) [OF that])
qed

lemma before_entry:
  assumes ok: "image_ok im" and "(a, t) \<in> set (table_entries im)"
    and "a \<in> set (im_intrrptstate im @ im_exceptnstate im @ [im_idlestate im])"
  shows "tsss (before_processes im pass (loaded im m)) a =
    Some (t\<lparr>esp_reg := rd32 m (pass + 8), ebp_reg := rd32 m (pass + 8)\<rparr>)"
proof -
  have "tsss (loaded im m) a = Some t" using loaded_tss(1) [OF ok] assms(2) by blast
  moreover have "tsss (before_processes im pass (loaded im m)) = tsss (set_stacks im (rd32 m (pass + 8)) (loaded im m))"
    using kdataD(1) [OF before_kdata [of im pass "loaded im m"]] by (simp add: loaded_def)
  ultimately show ?thesis using assms(3) by (simp only: set_stacks_tss if_True option.map)
qed

text \<open>
  Vector \<open>i\<close> switches to the task at \<open>a\<close>, which begins at \<open>entry\<close> with its stack at \<open>stack\<close>.
\<close>

definition leads_to :: "kstate \<Rightarrow> nat \<Rightarrow> ptr \<Rightarrow> u32 \<Rightarrow> u32 \<Rightarrow> bool" where
  "leads_to s i a entry stack \<longleftrightarrow> (\<exists>k. gate_to (mem s) i k \<and> task_at s k a) \<and>
     fld eip_reg s a = entry \<and> fld esp_reg s a = stack"

lemma leads_to_started:
  assumes ok: "image_ok im" and gate: "(i, k) \<in> set boot_gates" and task: "(k, a) \<in> set (boot_tasks im)"
    and entry: "(a, t) \<in> set (table_entries im)"
    and a: "a \<in> set (im_intrrptstate im @ im_exceptnstate im @ [im_idlestate im])"
    and kept: "descriptors_kept (before_processes im pass (loaded im m)) s"
      "idt_kept (before_processes im pass (loaded im m)) s"
      "map_option core (tsss s a) = map_option core (tsss (before_processes im pass (loaded im m)) a)"
  shows "leads_to s i a (eip_reg t) (rd32 m (pass + 8))"
proof -
  let ?b = "before_processes im pass (loaded im m)"
  have "below_kernel k" using boot_tasks_below [OF task] by (simp add: below_kernel_def)
  from task_at_kept [OF before_installed(1) [OF ok task] this kept(1)] have "task_at s k a" .
  moreover have "gate_to (mem s) i k"
  proof -
    have "mem s x = mem ?b x" if "x \<in> gate_bytes i" for x
    proof -
      have "i < 48" using gate by (auto simp: boot_gates_def exceptions_def dest!: set_zip_leftD)
      moreover from this have "unat x div 8 = 9440 + i" using gate_bytes_range [OF that] by simp
      moreover have "unat x = 8 * (unat x div 8) + unat x mod 8" "unat x mod 8 < 8" by simp_all
      ultimately have "0x12700 \<le> unat x \<and> unat x < 0x14700" by linarith
      then show ?thesis using kept(2) by (simp add: idt_kept_def)
    qed
    then show ?thesis using before_installed(2) [OF ok gate] gate_to_cong by blast
  qed
  moreover have b: "tsss ?b a = Some (t\<lparr>esp_reg := rd32 m (pass + 8), ebp_reg := rd32 m (pass + 8)\<rparr>)"
    by (rule before_entry [OF ok entry a])
  moreover have "fld eip_reg s a = fld eip_reg ?b a"
    by (rule fld_via [OF kept(3), of eip_reg eip_reg]) (simp add: core_def)
  moreover have "fld esp_reg s a = fld esp_reg ?b a"
    by (rule fld_via [OF kept(3), of esp_reg esp_reg]) (simp add: core_def)
  ultimately show ?thesis unfolding leads_to_def by (auto simp: fld_Some [OF b])
qed

text \<open>The byte last written to a port; that of a data port of a controller is its mask.\<close>

definition last_output :: "u32 \<Rightarrow> io_event list \<Rightarrow> u32" where
  "last_output port trace = fold (\<lambda>e v. case e of OutB p w \<Rightarrow> if p = port then w else v | _ \<Rightarrow> v) trace 0"

definition irq_masked :: "io_event list \<Rightarrow> nat \<Rightarrow> bool" where
  "irq_masked trace n = (if n < 8 then bit (last_output 0x21 trace) n else bit (last_output 0xa1 trace) (n - 8))"

lemma startup_masks: "\<forall>n < 16. irq_masked startup_outputs n \<longleftrightarrow> 2 \<le> n"
  by code_simp

text \<open>
  C5: after the start every interrupt and every exception has a gate to the task the image has for
  it, with the entry point of its handler and the stack of the kernel; the creation of the processes
  has not disturbed them.  At the interrupt controllers all lines but the clock and the keyboard
  are masked.
\<close>

theorem interrupts_lead_to_tasks:
  assumes "image_ok im" and "handed_over im m pass"
  shows "\<exists>s. start im stks pass (loaded im m) = Some (Running s) \<and> intrrptstate s = im_intrrptstate im \<and>
    (\<forall>n < 16. leads_to s (0x20 + n) (intrrptstate s ! n) (im_hw_intrrpt im ! n) (rd32 m (pass + 8))) \<and>
    (\<forall>n < 19. leads_to s (exceptions ! n) (im_exceptnstate im ! n) (im_hw_exceptn im ! n) (rd32 m (pass + 8))) \<and>
    (\<forall>n < 16. irq_masked (io_trace s) n \<longleftrightarrow> 2 \<le> n)"
proof -
  let ?b = "before_processes im pass (loaded im m)"
  obtain s qs p q r where s: "start im stks pass (loaded im m) = Some (Running s)" "starting 0 s qs"
      "set qs = {p, q, r}" "static s = static (loaded im m)" "descriptors_kept ?b s" "idt_kept ?b s"
      "\<And>x. x \<notin> {p, q, r} \<Longrightarrow> map_option core (tsss s x) = map_option core (tsss ?b x)"
    by (rule started [OF assms]) (rule that)
  have inv: "kinv_g {} s qs (\<lambda>_. [])" using s(2) by (simp add: starting_def)
  have tab: "pproctab s = proctab im" using staticD(1) [OF s(4)] by (simp add: loaded_def)
  have new: "{p, q, r} \<subseteq> set (proctab im)" using kinv_g_queue [OF inv] s(3) tab by auto
  have out: "a \<notin> {p, q, r}" if "a \<in> set (im_intrrptstate im @ im_exceptnstate im)" for a
    using new that assms(1) by (auto simp: image_ok_def task_addresses_def)
  have l: "length (im_intrrptstate im) = 16" "length (im_exceptnstate im) = 19"
    using assms(1) by (simp_all add: image_ok_def)
  have i: "intrrptstate s = im_intrrptstate im" using staticD(3) [OF s(4)] by (simp add: loaded_def)
  have "leads_to s (0x20 + n) (im_intrrptstate im ! n) (im_hw_intrrpt im ! n) (rd32 m (pass + 8))" if "n < 16" for n
    using leads_to_started [OF assms(1) boot_gates_entries(1) [OF that] boot_tasks_entries(1) [OF assms(1) that]
        interrupt_entries(1) [OF assms(1) that] _ s(5,6,7), OF _ out] that l
    by (simp add: task_tss_def)
  moreover have "leads_to s (exceptions ! n) (im_exceptnstate im ! n) (im_hw_exceptn im ! n) (rd32 m (pass + 8))"
    if "n < 19" for n
    using leads_to_started [OF assms(1) boot_gates_entries(2) [OF that] boot_tasks_entries(2) [OF assms(1) that]
        interrupt_entries(2) [OF assms(1) that] _ s(5,6,7), OF _ out] that l
    by (simp add: task_tss_def)
  moreover have "io_trace s = startup_outputs" using s(2) by (simp add: starting_def)
  ultimately show ?thesis using s(1) i startup_masks by auto
qed

theorem interrupts_lead_to_tasks_witness:
  "\<exists>s. start small_image (0, 0, 0) 0x700 (loaded small_image small_mem) = Some (Running s) \<and>
     leads_to s 0x21 (small_tss 3) 0x201 0x50000 \<and> irq_masked (io_trace s) 14"
proof -
  have "rd32 small_mem (0x700 + 8) = 0x50000" by (simp add: rd32_def rd16_def small_mem_def word_cat_eq)
  moreover have "im_intrrptstate small_image ! 1 = small_tss 3" "im_hw_intrrpt small_image ! 1 = 0x201"
    by (simp_all add: small_image_def)
  moreover obtain s where s: "start small_image (0, 0, 0) 0x700 (loaded small_image small_mem) = Some (Running s)"
    "intrrptstate s = im_intrrptstate small_image"
    "\<forall>n < 16. leads_to s (0x20 + n) (intrrptstate s ! n) (im_hw_intrrpt small_image ! n) (rd32 small_mem (0x700 + 8))"
    "\<forall>n < 16. irq_masked (io_trace s) n \<longleftrightarrow> 2 \<le> n"
    using interrupts_lead_to_tasks [OF small_image_ok small_handed_over, of "(0, 0, 0)"] by (elim exE conjE)
  moreover have "leads_to s (0x20 + 1) (intrrptstate s ! 1) (im_hw_intrrpt small_image ! 1) (rd32 small_mem (0x700 + 8))"
    using s(3) by (rule allE [of _ 1]) simp
  moreover have "irq_masked (io_trace s) 14" using s(4) by simp
  ultimately show ?thesis by auto
qed

end
