(* ===== verification/Spec2Isabelle.thy ===== *)
theory Spec2Isabelle
  imports MK_System MK_Sched_Props MK_Ipc_Props MK_Access_Props MK_Memory_Props MK_Process_Props
    MK_Usrlib_Props MK_Console_Props MK_Tty_Props MK_Hd_Props MK_Boot_Props
begin

text \<open>
  A verification library for the micro-kernel \<^verbatim>\<open>mycrokernel\<close>: a kernel for 32-bit x86
  machines (C in \<^verbatim>\<open>kernel/utilities_C.c\<close>, assembly in \<^verbatim>\<open>kernel/*.hla\<close>) on which drivers
  and a shell run as processes that exchange messages.

  \<^bold>\<open>How the parts interact.\<close>  Every interrupt enters through the loop \<open>hw_intrrpt\<close>, which calls
  \<open>do_hard_int\<close>: the clock counts, interrupt 2 is a system call of the current process, every
  other interrupt is passed on to the process that asked for it.  A system call reads the
  registers that were saved in the caller's task-state segment and leaves its results there.
  Blocking and waking go through \<open>setStateFlag\<close> and \<open>unsetStateFlag\<close> to the run queue, whose
  \<open>dequeue\<close> and \<open>pick_next_proc\<close> choose who runs next; \<open>schedule\<close> switches to the choice.  A
  message is copied from one process's segment to another's by way of the descriptor table.

  \<^bold>\<open>Theories.\<close>
  \<^item> \<open>MK_Prelude\<close>: words, singly and doubly linked chains, fact collections.
  \<^item> \<open>MK_State\<close>: \<^verbatim>\<open>kernel/types.h\<close> and the static tables: the record \<open>tss\<close> (a task-state
    segment, field by field), the record \<open>kstate\<close>; pointers to task-state segments are keys of the
    store \<open>tsss\<close>, a null or dangling pointer is a key without a value and following it is \<open>None\<close>.
  \<^item> \<open>MK_Memory\<close>: the allocation bitmaps and the segment descriptors in the byte memory
    (\<^verbatim>\<open>utilities_HLA.hla\<close>, \<^verbatim>\<open>lowlevel.hla\<close>), with the locale \<open>bit_allocator\<close> for the allocator.
  \<^item> \<open>MK_Sched\<close>, \<open>MK_Runqueue\<close>: \<open>enqueue\<close>, \<open>dequeue\<close>, \<open>charge_process\<close>, \<open>pick_next_proc\<close>; the
    invariant of the queue and the proofs that every operation keeps it.
  \<^item> \<open>MK_Ipc\<close>, \<open>MK_Syscalls\<close>: the chains of senders, features, the exchange of data, every entry
    of the table \<open>syscalls\<close>, the interrupt handlers.
  \<^item> \<open>MK_Chains\<close>, \<open>MK_Kernel_Inv\<close>: the invariant \<open>kinv_g\<close> of the whole kernel and its preservation
    by every operation; \<open>MK_Delivery\<close>: what a send, a receive and an interrupt achieve.
  \<^item> \<open>MK_Frame\<close>, \<open>MK_Access\<close>: what the operations leave alone (locales \<open>sched_frame\<close>,
    \<open>kernel_frame\<close>), ownership of ports and interrupts (locale \<open>owner_table\<close>).
  \<^item> \<open>MK_System\<close>: the kernel and its processes as a transition system, its reachable states.
  \<^item> \<open>MK_Usrlib\<close>, \<open>MK_Text\<close>: the user library \<^verbatim>\<open>usrlib/utilities.c\<close> and the text it produces.
  \<^item> \<open>MK_Process\<close>: \<open>create_process\<close>; \<open>MK_Console\<close>: diagnostic output, the PCI search, helpers.
  \<^item> \<open>MK_Tty\<close>, \<open>MK_Editor\<close>: the terminal driver \<^verbatim>\<open>tty/main.c\<close>, and the line editor it
    implements; \<open>MK_Shell\<close>: the shell \<^verbatim>\<open>shell/main.c\<close>.
  \<^item> \<open>MK_Hd\<close>, \<open>MK_Ext2\<close>: the hard disk driver \<^verbatim>\<open>hd/main.c\<close>, its hardware side and its file system
    side; \<open>MK_Hd_Frame\<close>: what it does to the world, with the locales \<open>message_calls\<close> and
    \<open>driver_calls\<close> for its system calls and their interpretation on recorded calls;
    \<open>MK_Hd_Data\<close>: the proofs about sectors, table entries and directories.
  \<^item> \<open>MK_Boot\<close>: the start of the kernel, \<^verbatim>\<open>kernel/main.hla\<close> with the static tables of
    \<^verbatim>\<open>kernel/table.hla\<close>; \<open>MK_Boot_Inv\<close>: it establishes the invariant; \<open>MK_Boot_Gates\<close>: the gates
    and task descriptors it installs.
  \<^item> \<open>MK_Sample\<close> and the theories \<open>MK_*_Props\<close>: a sample machine, and the properties with their
    instances.

  \<^bold>\<open>What is shown.\<close>  Starting from a state with the invariant, no admissible interrupt makes the
  kernel follow a bad pointer, leave a table or loop, and what runs afterwards is ready and queued
  (below).  The run queue implements a set under insertion and removal; sends, receives, interrupts
  and exits have the effects on both partners that the protocol promises; a process touches only
  the ports it owns; descriptors are fresh, isolated and read back; created processes get the
  memory asked for; the text routines of the library are correct; the terminal driver is a line
  editor whatever keys are pressed, and the shell answers every line; the disk driver touches only
  ports it claimed, follows the protocol of the drive, and reads back partition entries and
  directories as they were written; the start of the kernel creates and queues the three programs,
  points every interrupt and exception to its task, and leaves a state with the invariant except
  for the current process, which it does not set.  Some theorems state exactly
  where the code departs from its intent: the bitmap routine that frees nothing, the wrap-around
  in the check of data areas, the feature table that is too short, the page limit, the PCI search,
  the wait for the drive that no interrupt ends, the address of an inode outside of group 0.

  \<^bold>\<open>Bounds.\<close>  Loops of the code are recursions with a measure where they count, and
  \<open>partial_function (option)\<close> where they follow pointers or a zero byte; that these return is part
  of the theorems.  Words have their width everywhere.  Tick counts are bounded by the invariant
  (\<open>ticks_bounded\<close>: the ticks of all slots add up to less than \<open>2 ^ 32\<close>); the kernel creates three
  processes with one tick each.  Descriptor theorems hold below number 2080, where the kernel's
  image begins.

  \<^bold>\<open>Hypotheses.\<close>  \<open>interrupt_ok\<close> says that a system call comes from a process, and that a message
  goes to a process and a feature lies in the table: the code does not check either.  Device input
  is the parameter \<open>dev\<close>, the terminal that \<open>outf\<close> sends to the parameter \<open>send\<close>, the word behind
  the arguments of \<open>write_tss_desc\<close> the parameter \<open>stk\<close>.  The theorems on the start assume of the
  linker that the tables of the image do not overlap (\<open>image_ok\<close>) and of the boot sector that it
  hands over a map with usable memory and programs that fit (\<open>handed_over\<close>).

  \<^bold>\<open>Not modelled.\<close>  The boot sector (what it leaves in memory is an argument of \<open>start\<close>), the drawing on the screen, the stubs of the system calls, the waiting loop
  \<open>busy_pause\<close>, the empty functions \<open>dma_read_sector\<close> and \<open>show_off_drive_read\<close>.
\<close>





end
